theory Spec2Isabelle
  imports Main "HOL-Library.Multiset"
begin

section \<open>Python values: errors, list objects and references\<close>

text \<open>
  The two classes of the repository, \<^verbatim>\<open>DHeap\<close> (d_heap.py) and \<^verbatim>\<open>BinaryHeap\<close>
  (binaryheap.py), keep their elements in a Python list. A Python list is a mutable
  object that several names can refer to: \<^verbatim>\<open>heapify\<close> stores the caller's list in the
  heap, the constructor creates a list of its own. The model therefore has an explicit
  store of list objects, addressed by references, and every method takes the store and
  returns it updated. \<^verbatim>\<open>next_ref\<close> is the next unused reference; a new list object
  is created there.

  The only exceptions the code can raise are Python's own: \<^verbatim>\<open>IndexError\<close> from list
  indexing and \<^verbatim>\<open>list.pop\<close>, and \<^verbatim>\<open>ZeroDivisionError\<close> from \<^verbatim>\<open>//\<close>. An
  exception is the left summand of the result; the store that a method leaves behind when
  it raises is returned with it. The methods are given twice: first as the code reads,
  with no bound on the depth of the recursion of \<^verbatim>\<open>__sift_up\<close>, \<^verbatim>\<open>__sift_down\<close>
  and \<^verbatim>\<open>validate_heap\<close>, and then, for \<^verbatim>\<open>DHeap\<close>, under the interpreter's
  recursion limit, where a call nested too deep raises \<^verbatim>\<open>RecursionError\<close>.
\<close>

datatype error = IndexError | ZeroDivisionError | RecursionError

type_synonym ref = nat

record 'a store =
  cells :: "ref \<Rightarrow> 'a list"
  next_ref :: ref

definition put :: "'a store \<Rightarrow> ref \<Rightarrow> 'a list \<Rightarrow> 'a store" where
  "put s r xs = s\<lparr>cells := (cells s)(r := xs)\<rparr>"

text \<open>
  Python indexing of a list of length \<open>n\<close> with an integer \<open>i\<close>: \<open>0 \<le> i < n\<close> is the
  position \<open>i\<close>, \<open>-n \<le> i < 0\<close> is the position \<open>n + i\<close>, anything else raises.
\<close>

definition norm_index :: "nat \<Rightarrow> int \<Rightarrow> nat option" where
  "norm_index n i =
     (if 0 \<le> i \<and> i < int n then Some (nat i)
      else if - int n \<le> i \<and> i < 0 then Some (nat (int n + i))
      else None)"

definition getitem :: "'a list \<Rightarrow> int \<Rightarrow> error + 'a" where
  "getitem xs i =
     (case norm_index (length xs) i of
        None \<Rightarrow> Inl IndexError
      | Some k \<Rightarrow> Inr (xs ! k))"

definition setitem :: "'a list \<Rightarrow> int \<Rightarrow> 'a \<Rightarrow> error + 'a list" where
  "setitem xs i v =
     (case norm_index (length xs) i of
        None \<Rightarrow> Inl IndexError
      | Some k \<Rightarrow> Inr (xs[k := v]))"

text \<open>\<^verbatim>\<open>list.pop(i)\<close>: removes and returns the item at index \<open>i\<close>.\<close>

definition list_pop :: "'a list \<Rightarrow> int \<Rightarrow> error + ('a \<times> 'a list)" where
  "list_pop xs i =
     (case norm_index (length xs) i of
        None \<Rightarrow> Inl IndexError
      | Some k \<Rightarrow> Inr (xs ! k, take k xs @ drop (Suc k) xs))"

section \<open>The class DHeap (d_heap.py)\<close>

text \<open>
  The fields of a \<^verbatim>\<open>DHeap\<close> object. \<^verbatim>\<open>heap_array\<close> is a reference to a list
  object; \<^verbatim>\<open>last_index\<close> and \<^verbatim>\<open>branching_factor\<close> are Python integers.
\<close>

record DHeap =
  heap_array :: ref
  last_index :: int
  max_heap :: bool
  branching_factor :: int

text \<open>\<^verbatim>\<open>__swap\<close>: the right-hand side is read first, then the two slots are written.\<close>

definition swap :: "'a store \<Rightarrow> DHeap \<Rightarrow> int \<Rightarrow> int \<Rightarrow> (error + unit) \<times> 'a store" where
  "swap s h index_1 index_2 =
     (let xs = cells s (heap_array h) in
      case getitem xs index_2 of
        Inl e \<Rightarrow> (Inl e, s)
      | Inr v2 \<Rightarrow>
          (case getitem xs index_1 of
             Inl e \<Rightarrow> (Inl e, s)
           | Inr v1 \<Rightarrow>
               (case setitem xs index_1 v2 of
                  Inl e \<Rightarrow> (Inl e, s)
                | Inr xs1 \<Rightarrow>
                    (case setitem xs1 index_2 v1 of
                       Inl e \<Rightarrow> (Inl e, put s (heap_array h) xs1)
                     | Inr xs2 \<Rightarrow> (Inr (), put s (heap_array h) xs2)))))"

text \<open>\<^verbatim>\<open>__compare\<close>: strict \<open>>\<close> for a max heap, strict \<open><\<close> for a min heap.\<close>

definition compare :: "('a::linorder) store \<Rightarrow> DHeap \<Rightarrow> int \<Rightarrow> int \<Rightarrow> error + bool" where
  "compare s h index_1 index_2 =
     (case getitem (cells s (heap_array h)) index_1 of
        Inl e \<Rightarrow> Inl e
      | Inr a \<Rightarrow>
          (case getitem (cells s (heap_array h)) index_2 of
             Inl e \<Rightarrow> Inl e
           | Inr b \<Rightarrow> Inr (if max_heap h then a > b else a < b)))"

text \<open>
  \<^verbatim>\<open>__sift_up\<close>. \<^verbatim>\<open>//\<close> is floor division, as \<open>div\<close> on \<open>int\<close> is, and raises on a
  zero divisor. With a negative branching factor the recursion need not end (with
  \<open>-1\<close> the indices 0 and 1 are each other's parent), so the function is partial:
  \<open>None\<close> is a call that never returns.
\<close>

partial_function (option) sift_up ::
  "('a::linorder) store \<Rightarrow> DHeap \<Rightarrow> int \<Rightarrow> ((error + unit) \<times> 'a store) option" where
  "sift_up s h index =
     (if branching_factor h = 0 then Some (Inl ZeroDivisionError, s)
      else
        let parent = (index - 1) div branching_factor h in
        if parent \<ge> 0 then
          (case compare s h index parent of
             Inl e \<Rightarrow> Some (Inl e, s)
           | Inr b \<Rightarrow>
               if b then
                 (case swap s h index parent of
                    (Inl e, s') \<Rightarrow> Some (Inl e, s')
                  | (Inr u, s') \<Rightarrow> sift_up s' h parent)
               else Some (Inr (), s))
        else Some (Inr (), s))"

declare sift_up.simps [code]

text \<open>
  The \<^verbatim>\<open>while i <= self.branching_factor\<close> loop of \<^verbatim>\<open>__sift_down\<close>, from the
  counter \<open>i\<close> and the current \<^verbatim>\<open>new_parent\<close>; it returns the final \<^verbatim>\<open>new_parent\<close>.
\<close>

function sift_down_loop ::
  "('a::linorder) store \<Rightarrow> DHeap \<Rightarrow> int \<Rightarrow> int \<Rightarrow> int \<Rightarrow> error + int" where
  "sift_down_loop s h index i new_parent =
     (if i \<le> branching_factor h then
        let child = index * branching_factor h + i in
        if child \<le> last_index h then
          (case compare s h child new_parent of
             Inl e \<Rightarrow> Inl e
           | Inr b \<Rightarrow> sift_down_loop s h index (i + 1) (if b then child else new_parent))
        else sift_down_loop s h index (i + 1) new_parent
      else Inr new_parent)"
  by pat_completeness auto
termination
  by (relation "measure (\<lambda>(s, h, index, i, new_parent). nat (branching_factor h + 1 - i))") auto

declare sift_down_loop.simps [simp del]

text \<open>
  What the primitives say about their arguments when they succeed, and which
  \<^verbatim>\<open>new_parent\<close> the loop can return: the one it started with, or a child index
  within \<^verbatim>\<open>last_index\<close>. The termination of \<^verbatim>\<open>__sift_down\<close> rests on both.
\<close>

lemma norm_index_Some:
  "norm_index n i = Some k \<Longrightarrow> - int n \<le> i \<and> i < int n \<and> k < n"
  by (auto simp: norm_index_def split: if_splits)

lemma norm_index_nonneg:
  "0 \<le> i \<Longrightarrow> i < int n \<Longrightarrow> norm_index n i = Some (nat i)"
  by (simp add: norm_index_def)

lemma getitem_Inr:
  "getitem xs i = Inr v \<Longrightarrow> - int (length xs) \<le> i \<and> i < int (length xs)"
  by (auto simp: getitem_def split: option.splits dest: norm_index_Some)

lemma swap_Inr:
  assumes "swap s h i j = (Inr u, s')"
  shows "- int (length (cells s (heap_array h))) \<le> i \<and> i < int (length (cells s (heap_array h)))
       \<and> - int (length (cells s (heap_array h))) \<le> j \<and> j < int (length (cells s (heap_array h)))
       \<and> length (cells s' (heap_array h)) = length (cells s (heap_array h))"
  using assms
  by (auto simp: swap_def Let_def put_def setitem_def split: sum.splits option.splits
           dest!: getitem_Inr)

lemma sift_down_loop_result:
  "sift_down_loop s h index i np0 = Inr np \<Longrightarrow>
     np = np0 \<or> (\<exists>j. i \<le> j \<and> j \<le> branching_factor h \<and> np = index * branching_factor h + j
                    \<and> np \<le> last_index h)"
proof (induction s h index i np0 rule: sift_down_loop.induct)
  case (1 s h index i new_parent)
  show ?case
  proof (cases "i \<le> branching_factor h")
    case False
    with "1.prems" show ?thesis by (simp add: sift_down_loop.simps)
  next
    case le: True
    show ?thesis
    proof (cases "index * branching_factor h + i \<le> last_index h")
      case False
      with le "1.prems" have "sift_down_loop s h index (i + 1) new_parent = Inr np"
        by (simp add: sift_down_loop.simps[of s h index i])
      from "1.IH"(2)[OF le refl False this] show ?thesis by force
    next
      case True
      with le "1.prems" obtain b where
        b: "compare s h (index * branching_factor h + i) new_parent = Inr b"
        and r: "sift_down_loop s h index (i + 1)
                 (if b then index * branching_factor h + i else new_parent) = Inr np"
        by (auto simp: sift_down_loop.simps[of s h index i] Let_def split: sum.splits)
      from "1.IH"(1)[OF le refl True b r] le True show ?thesis
        by (cases b) force+
    qed
  qed
qed

text \<open>
  \<^verbatim>\<open>__sift_down\<close>. \<^verbatim>\<open>new_parent is not index\<close> compares two Python integers
  by identity; \<^verbatim>\<open>new_parent\<close> is either the object \<^verbatim>\<open>index\<close> itself or a child
  index of another value, so identity and equality agree here. The recursion ends for
  every argument: from a non-negative index the children lie further right in the list,
  and a negative index (which Python reads from the end of the list) moves towards the
  left end or to 0.
\<close>

function sift_down ::
  "('a::linorder) store \<Rightarrow> DHeap \<Rightarrow> int \<Rightarrow> (error + unit) \<times> 'a store" where
  "sift_down s h index =
     (case sift_down_loop s h index 1 index of
        Inl e \<Rightarrow> (Inl e, s)
      | Inr new_parent \<Rightarrow>
          if new_parent \<noteq> index then
            (case swap s h index new_parent of
               (Inl e, s') \<Rightarrow> (Inl e, s')
             | (Inr u, s') \<Rightarrow> sift_down s' h new_parent)
          else (Inr (), s))"
  by pat_completeness auto
termination
proof (relation "measure (\<lambda>(s, h, index).
         nat (if 0 \<le> index \<or> branching_factor h = 1
              then int (length (cells s (heap_array h))) - index
              else 2 * int (length (cells s (heap_array h))) + 1 + index))")
  show "wf (measure (\<lambda>(s, h, index).
         nat (if 0 \<le> index \<or> branching_factor h = 1
              then int (length (cells s (heap_array h))) - index
              else 2 * int (length (cells s (heap_array h))) + 1 + index)))"
    by simp
next
  fix s :: "'a store" and h index np x y u
  assume loop: "sift_down_loop s h index 1 index = Inr np"
    and ne: "np \<noteq> index"
    and x: "(x, y) = swap s h index np" and xu: "x = Inr u"
  let ?n = "int (length (cells s (heap_array h)))"
  let ?d = "branching_factor h"
  from x xu have sw: "swap s h index np = (Inr u, y)" by simp
  from swap_Inr[OF sw] have
    rng: "- ?n \<le> index" "index < ?n" "- ?n \<le> np" "np < ?n"
    and len: "length (cells y (heap_array h)) = length (cells s (heap_array h))"
    by auto
  from sift_down_loop_result[OF loop] ne obtain j where
    j: "1 \<le> j" "j \<le> ?d" "np = index * ?d + j" by auto
  have d1: "1 \<le> ?d" using j by linarith
  define A where "A = (if 0 \<le> np \<or> ?d = 1 then ?n - np else 2 * ?n + 1 + np)"
  define B where "B = (if 0 \<le> index \<or> ?d = 1 then ?n - index else 2 * ?n + 1 + index)"
  have decr: "A < B \<and> 0 < B"
  proof (cases "0 \<le> index")
    case True
    have "index * 1 \<le> index * ?d" using True d1 by (intro mult_left_mono) auto
    with j True rng show ?thesis by (auto simp: A_def B_def)
  next
    case neg: False
    show ?thesis
    proof (cases "?d = 1")
      case True
      with j have "np = index + 1" by simp
      with True neg rng show ?thesis by (auto simp: A_def B_def)
    next
      case False
      with d1 have d2: "2 \<le> ?d" by simp
      have "np \<le> (index + 1) * ?d" using j by (simp add: algebra_simps)
      moreover have "(index + 1) * ?d \<le> (index + 1) * 2"
        using neg d2 by (intro mult_left_mono_neg) auto
      ultimately have le: "np \<le> 2 * index + 2" by simp
      show ?thesis
      proof (cases "index = -1")
        case True
        with le ne rng neg False show ?thesis by (auto simp: A_def B_def)
      next
        case False
        with neg le ne have "np < index" by linarith
        with rng neg \<open>?d \<noteq> 1\<close> show ?thesis by (auto simp: A_def B_def)
      qed
    qed
  qed
  then show "((y, h, np), (s, h, index)) \<in> measure (\<lambda>(s, h, index).
         nat (if 0 \<le> index \<or> branching_factor h = 1
              then int (length (cells s (heap_array h))) - index
              else 2 * int (length (cells s (heap_array h))) + 1 + index))"
    unfolding in_measure prod.case len A_def[symmetric] B_def[symmetric]
    by (simp only: zless_nat_conj)
qed

declare sift_down.simps [simp del]

text \<open>
  \<^verbatim>\<open>push\<close>: the counter is raised, the value appended, and the new slot sifted up.
  An instance method returns its outcome, the store and the object's fields.
\<close>

definition push ::
  "('a::linorder) store \<Rightarrow> DHeap \<Rightarrow> 'a \<Rightarrow> ((error + unit) \<times> 'a store \<times> DHeap) option" where
  "push s h val =
     (let h1 = h\<lparr>last_index := last_index h + 1\<rparr>;
          s1 = put s (heap_array h) (cells s (heap_array h) @ [val])
      in case sift_up s1 h1 (last_index h1) of
           None \<Rightarrow> None
         | Some (r, s2) \<Rightarrow> Some (r, s2, h1))"

text \<open>\<^verbatim>\<open>peek\<close> reads \<^verbatim>\<open>self.heap_array[0]\<close> and writes nothing.\<close>

definition peek :: "'a store \<Rightarrow> DHeap \<Rightarrow> error + 'a" where
  "peek s h = getitem (cells s (heap_array h)) 0"

text \<open>
  \<^verbatim>\<open>pop\<close>: \<^verbatim>\<open>peek\<close>, swap of the root with the last slot, \<^verbatim>\<open>list.pop\<close> of that
  slot, the counter lowered, and the new root sifted down.
\<close>

definition pop :: "('a::linorder) store \<Rightarrow> DHeap \<Rightarrow> (error + 'a) \<times> 'a store \<times> DHeap" where
  "pop s h =
     (case peek s h of
        Inl e \<Rightarrow> (Inl e, s, h)
      | Inr ret_val \<Rightarrow>
          (case swap s h 0 (last_index h) of
             (Inl e, s1) \<Rightarrow> (Inl e, s1, h)
           | (Inr u, s1) \<Rightarrow>
               (case list_pop (cells s1 (heap_array h)) (last_index h) of
                  Inl e \<Rightarrow> (Inl e, s1, h)
                | Inr (v, xs) \<Rightarrow>
                    let s2 = put s1 (heap_array h) xs;
                        h1 = h\<lparr>last_index := last_index h - 1\<rparr>
                    in (case sift_down s2 h1 0 of
                          (Inl e, s3) \<Rightarrow> (Inl e, s3, h1)
                        | (Inr u, s3) \<Rightarrow> (Inr ret_val, s3, h1)))))"

text \<open>\<^verbatim>\<open>__len__\<close>.\<close>

definition len :: "DHeap \<Rightarrow> int" where
  "len h = last_index h + 1"

text \<open>
  \<^verbatim>\<open>validate_heap\<close>, with the counter \<open>i\<close> of its \<^verbatim>\<open>while i < self.branching_factor\<close>
  loop as an argument: both branches under \<^verbatim>\<open>if child <= self.last_index\<close> return, the
  second with the result of the recursive call on that child. From a negative
  \<^verbatim>\<open>parent\<close> the recursion need not end (with branching factor 2, the first child of
  \<open>-1\<close> is \<open>-1\<close>), so the function is partial.
\<close>

partial_function (option) validate_heap_from ::
  "('a::linorder) store \<Rightarrow> DHeap \<Rightarrow> int \<Rightarrow> int \<Rightarrow> (error + bool) option" where
  "validate_heap_from s h parent i =
     (if i < branching_factor h then
        let child = (parent * branching_factor h + 1) + i in
        if child \<le> last_index h then
          (case compare s h child parent of
             Inl e \<Rightarrow> Some (Inl e)
           | Inr b \<Rightarrow> if b then Some (Inr False) else validate_heap_from s h child 0)
        else validate_heap_from s h parent (i + 1)
      else Some (Inr True))"

declare validate_heap_from.simps [code]

definition validate_heap :: "('a::linorder) store \<Rightarrow> DHeap \<Rightarrow> int \<Rightarrow> (error + bool) option" where
  "validate_heap s h parent = validate_heap_from s h parent 0"

text \<open>
  \<^verbatim>\<open>__init__\<close>. Its first four statements set the fields and create the empty list
  \<^verbatim>\<open>[]\<close>, a new object in the store. Then each value of \<^verbatim>\<open>initial_contents\<close> is
  pushed. \<^verbatim>\<open>initial_contents\<close> is either left at its default, the empty tuple
  (\<open>None\<close>), or a list of the caller's, given by reference; a Python list iterator reads
  the list by position, one item per round, until the position reaches the list's current
  length. A constructor that raises returns no object.
\<close>

definition DHeap_new :: "'a store \<Rightarrow> bool \<Rightarrow> int \<Rightarrow> 'a store \<times> DHeap" where
  "DHeap_new s mh bf =
     (s\<lparr>cells := (cells s)(next_ref s := []), next_ref := Suc (next_ref s)\<rparr>,
      \<lparr>heap_array = next_ref s, last_index = - 1, max_heap = mh, branching_factor = bf\<rparr>)"

partial_function (option) init_loop ::
  "('a::linorder) store \<Rightarrow> DHeap \<Rightarrow> ref \<Rightarrow> nat \<Rightarrow> ((error + unit) \<times> 'a store \<times> DHeap) option" where
  "init_loop s h src i =
     (if i < length (cells s src) then
        (case push s h (cells s src ! i) of
           None \<Rightarrow> None
         | Some (Inl e, s', h') \<Rightarrow> Some (Inl e, s', h')
         | Some (Inr u, s', h') \<Rightarrow> init_loop s' h' src (Suc i))
      else Some (Inr (), s, h))"

declare init_loop.simps [code]

definition DHeap_init ::
  "('a::linorder) store \<Rightarrow> ref option \<Rightarrow> bool \<Rightarrow> int \<Rightarrow> ((error + DHeap) \<times> 'a store) option" where
  "DHeap_init s initial_contents mh bf =
     (case DHeap_new s mh bf of
        (s0, h0) \<Rightarrow>
          (case initial_contents of
             None \<Rightarrow> Some (Inr h0, s0)
           | Some src \<Rightarrow>
               (case init_loop s0 h0 src 0 of
                  None \<Rightarrow> None
                | Some (Inl e, s1, h1) \<Rightarrow> Some (Inl e, s1)
                | Some (Inr u, s1, h1) \<Rightarrow> Some (Inr h1, s1))))"

text \<open>
  \<^verbatim>\<open>heapify\<close>: a new heap object (constructed with no initial contents) takes the
  caller's list itself as its \<^verbatim>\<open>heap_array\<close>, and every parent from that of the last
  slot down to the root is sifted down.
\<close>

function heapify_loop ::
  "('a::linorder) store \<Rightarrow> DHeap \<Rightarrow> int \<Rightarrow> (error + unit) \<times> 'a store" where
  "heapify_loop s h start =
     (if start \<ge> 0 then
        (case sift_down s h start of
           (Inl e, s') \<Rightarrow> (Inl e, s')
         | (Inr u, s') \<Rightarrow> heapify_loop s' h (start - 1))
      else (Inr (), s))"
  by pat_completeness auto
termination
  by (relation "measure (\<lambda>(s, h, start). nat (start + 1))") auto

declare heapify_loop.simps [simp del]

definition heapify ::
  "('a::linorder) store \<Rightarrow> ref \<Rightarrow> bool \<Rightarrow> int \<Rightarrow> (error + DHeap) \<times> 'a store" where
  "heapify s unordered_list mh bf =
     (case DHeap_new s mh bf of
        (s0, h0) \<Rightarrow>
          let heap = h0\<lparr>heap_array := unordered_list,
                       last_index := int (length (cells s0 unordered_list)) - 1\<rparr>
          in if branching_factor heap = 0 then (Inl ZeroDivisionError, s0)
             else
               (case heapify_loop s0 heap ((last_index heap - 1) div branching_factor heap) of
                  (Inl e, s1) \<Rightarrow> (Inl e, s1)
                | (Inr u, s1) \<Rightarrow> (Inr heap, s1)))"

text \<open>
  \<^verbatim>\<open>heapsort\<close>: \<^verbatim>\<open>heapify\<close> with the default branching factor 2 and
  \<^verbatim>\<open>max_heap = ascending\<close>, then the root is swapped behind the shrinking heap until
  the heap is empty. It returns nothing; its effect is on the caller's list in the store.
\<close>

function heapsort_loop ::
  "('a::linorder) store \<Rightarrow> DHeap \<Rightarrow> (error + unit) \<times> 'a store" where
  "heapsort_loop s heap =
     (if last_index heap \<ge> 0 then
        (case swap s heap 0 (last_index heap) of
           (Inl e, s1) \<Rightarrow> (Inl e, s1)
         | (Inr u, s1) \<Rightarrow>
             (case sift_down s1 (heap\<lparr>last_index := last_index heap - 1\<rparr>) 0 of
                (Inl e, s2) \<Rightarrow> (Inl e, s2)
              | (Inr u, s2) \<Rightarrow> heapsort_loop s2 (heap\<lparr>last_index := last_index heap - 1\<rparr>)))
      else (Inr (), s))"
  by pat_completeness auto
termination
  by (relation "measure (\<lambda>(s, heap). nat (last_index heap + 1))") auto

declare heapsort_loop.simps [simp del]

definition heapsort ::
  "('a::linorder) store \<Rightarrow> ref \<Rightarrow> bool \<Rightarrow> (error + unit) \<times> 'a store" where
  "heapsort s unordered_list ascending =
     (case heapify s unordered_list ascending 2 of
        (Inl e, s1) \<Rightarrow> (Inl e, s1)
      | (Inr heap, s1) \<Rightarrow> heapsort_loop s1 heap)"

section \<open>The class BinaryHeap (binaryheap.py)\<close>

text \<open>
  \<^verbatim>\<open>BinaryHeap\<close> has the fields of \<^verbatim>\<open>DHeap\<close> but \<^verbatim>\<open>branching_factor\<close>; its
  methods are written with the constant 2 in its place. The model follows the source of
  each method; the names carry the prefix \<open>bin_\<close>.
\<close>

record BinaryHeap =
  bin_heap_array :: ref
  bin_last_index :: int
  bin_max_heap :: bool

definition bin_swap ::
  "'a store \<Rightarrow> BinaryHeap \<Rightarrow> int \<Rightarrow> int \<Rightarrow> (error + unit) \<times> 'a store" where
  "bin_swap s h index_1 index_2 =
     (let xs = cells s (bin_heap_array h) in
      case getitem xs index_2 of
        Inl e \<Rightarrow> (Inl e, s)
      | Inr v2 \<Rightarrow>
          (case getitem xs index_1 of
             Inl e \<Rightarrow> (Inl e, s)
           | Inr v1 \<Rightarrow>
               (case setitem xs index_1 v2 of
                  Inl e \<Rightarrow> (Inl e, s)
                | Inr xs1 \<Rightarrow>
                    (case setitem xs1 index_2 v1 of
                       Inl e \<Rightarrow> (Inl e, put s (bin_heap_array h) xs1)
                     | Inr xs2 \<Rightarrow> (Inr (), put s (bin_heap_array h) xs2)))))"

definition bin_compare ::
  "('a::linorder) store \<Rightarrow> BinaryHeap \<Rightarrow> int \<Rightarrow> int \<Rightarrow> error + bool" where
  "bin_compare s h index_1 index_2 =
     (case getitem (cells s (bin_heap_array h)) index_1 of
        Inl e \<Rightarrow> Inl e
      | Inr a \<Rightarrow>
          (case getitem (cells s (bin_heap_array h)) index_2 of
             Inl e \<Rightarrow> Inl e
           | Inr b \<Rightarrow> Inr (if bin_max_heap h then a > b else a < b)))"

lemma bin_swap_Inr:
  assumes "bin_swap s h i j = (Inr u, s')"
  shows "- int (length (cells s (bin_heap_array h))) \<le> i \<and> i < int (length (cells s (bin_heap_array h)))
       \<and> - int (length (cells s (bin_heap_array h))) \<le> j \<and> j < int (length (cells s (bin_heap_array h)))
       \<and> length (cells s' (bin_heap_array h)) = length (cells s (bin_heap_array h))"
  using assms
  by (auto simp: bin_swap_def Let_def put_def setitem_def split: sum.splits option.splits
           dest!: getitem_Inr)

text \<open>\<^verbatim>\<open>__sift_up\<close> with \<^verbatim>\<open>(index - 1) // 2\<close>: the parent is non-negative only for a
  positive index and is smaller than it, so the recursion ends.\<close>

function bin_sift_up ::
  "('a::linorder) store \<Rightarrow> BinaryHeap \<Rightarrow> int \<Rightarrow> (error + unit) \<times> 'a store" where
  "bin_sift_up s h index =
     (let parent = (index - 1) div 2 in
      if parent \<ge> 0 then
        (case bin_compare s h index parent of
           Inl e \<Rightarrow> (Inl e, s)
         | Inr b \<Rightarrow>
             if b then
               (case bin_swap s h index parent of
                  (Inl e, s') \<Rightarrow> (Inl e, s')
                | (Inr u, s') \<Rightarrow> bin_sift_up s' h parent)
             else (Inr (), s))
      else (Inr (), s))"
  by pat_completeness auto
termination
  by (relation "measure (\<lambda>(s, h, index). nat index)") auto

declare bin_sift_up.simps [simp del]

text \<open>
  \<^verbatim>\<open>__sift_down\<close> with the two children \<^verbatim>\<open>left\<close> and \<^verbatim>\<open>right\<close> tested in turn.
  The two \<^verbatim>\<open>if\<close> statements are \<open>bin_pick\<close>: the child replaces \<^verbatim>\<open>new_parent\<close>
  when it is within \<^verbatim>\<open>last_index\<close> and compares better.
\<close>

definition bin_pick ::
  "('a::linorder) store \<Rightarrow> BinaryHeap \<Rightarrow> int \<Rightarrow> int \<Rightarrow> error + int" where
  "bin_pick s h child new_parent =
     (if child \<le> bin_last_index h then
        (case bin_compare s h child new_parent of
           Inl e \<Rightarrow> Inl e
         | Inr b \<Rightarrow> Inr (if b then child else new_parent))
      else Inr new_parent)"

lemma bin_pick_result:
  "bin_pick s h child new_parent = Inr np \<Longrightarrow> np = child \<or> np = new_parent"
  by (auto simp: bin_pick_def split: if_splits sum.splits)

function bin_sift_down ::
  "('a::linorder) store \<Rightarrow> BinaryHeap \<Rightarrow> int \<Rightarrow> (error + unit) \<times> 'a store" where
  "bin_sift_down s h index =
     (let left = index * 2 + 1; right = index * 2 + 2 in
      case bin_pick s h left index of
        Inl e \<Rightarrow> (Inl e, s)
      | Inr np1 \<Rightarrow>
          (case bin_pick s h right np1 of
             Inl e \<Rightarrow> (Inl e, s)
           | Inr new_parent \<Rightarrow>
               if new_parent \<noteq> index then
                 (case bin_swap s h index new_parent of
                    (Inl e, s') \<Rightarrow> (Inl e, s')
                  | (Inr u, s') \<Rightarrow> bin_sift_down s' h new_parent)
               else (Inr (), s)))"
  by pat_completeness auto
termination
proof (relation "measure (\<lambda>(s, h, index).
         nat (if 0 \<le> index then int (length (cells s (bin_heap_array h))) - index
              else 2 * int (length (cells s (bin_heap_array h))) + 1 + index))")
  show "wf (measure (\<lambda>(s, h, index).
         nat (if 0 \<le> index then int (length (cells s (bin_heap_array h))) - index
              else 2 * int (length (cells s (bin_heap_array h))) + 1 + index)))"
    by simp
next
  fix s :: "'a store" and h index left right np1 np x y u
  assume l: "left = index * 2 + 1" and r: "right = index * 2 + 2"
    and p1: "bin_pick s h left index = Inr np1"
    and p2: "bin_pick s h right np1 = Inr np"
    and ne: "np \<noteq> index"
    and x: "(x, y) = bin_swap s h index np" and xu: "x = Inr u"
  let ?n = "int (length (cells s (bin_heap_array h)))"
  from x xu have sw: "bin_swap s h index np = (Inr u, y)" by simp
  from bin_swap_Inr[OF sw] have
    rng: "- ?n \<le> index" "index < ?n" "- ?n \<le> np" "np < ?n"
    and len: "length (cells y (bin_heap_array h)) = length (cells s (bin_heap_array h))"
    by auto
  from bin_pick_result[OF p1] bin_pick_result[OF p2] ne l r
  have np: "np = index * 2 + 1 \<or> np = index * 2 + 2" by auto
  define A where "A = (if 0 \<le> np then ?n - np else 2 * ?n + 1 + np)"
  define B where "B = (if 0 \<le> index then ?n - index else 2 * ?n + 1 + index)"
  have "A < B \<and> 0 < B" using np rng ne by (auto simp: A_def B_def)
  then show "((y, h, np), (s, h, index)) \<in> measure (\<lambda>(s, h, index).
         nat (if 0 \<le> index then int (length (cells s (bin_heap_array h))) - index
              else 2 * int (length (cells s (bin_heap_array h))) + 1 + index))"
    unfolding in_measure prod.case len A_def[symmetric] B_def[symmetric]
    by (simp only: zless_nat_conj)
qed

declare bin_sift_down.simps [simp del]

definition bin_push ::
  "('a::linorder) store \<Rightarrow> BinaryHeap \<Rightarrow> 'a \<Rightarrow> (error + unit) \<times> 'a store \<times> BinaryHeap" where
  "bin_push s h val =
     (let h1 = h\<lparr>bin_last_index := bin_last_index h + 1\<rparr>;
          s1 = put s (bin_heap_array h) (cells s (bin_heap_array h) @ [val])
      in case bin_sift_up s1 h1 (bin_last_index h1) of
           (r, s2) \<Rightarrow> (r, s2, h1))"

definition bin_peek :: "'a store \<Rightarrow> BinaryHeap \<Rightarrow> error + 'a" where
  "bin_peek s h = getitem (cells s (bin_heap_array h)) 0"

definition bin_pop ::
  "('a::linorder) store \<Rightarrow> BinaryHeap \<Rightarrow> (error + 'a) \<times> 'a store \<times> BinaryHeap" where
  "bin_pop s h =
     (case bin_peek s h of
        Inl e \<Rightarrow> (Inl e, s, h)
      | Inr ret_val \<Rightarrow>
          (case bin_swap s h 0 (bin_last_index h) of
             (Inl e, s1) \<Rightarrow> (Inl e, s1, h)
           | (Inr u, s1) \<Rightarrow>
               (case list_pop (cells s1 (bin_heap_array h)) (bin_last_index h) of
                  Inl e \<Rightarrow> (Inl e, s1, h)
                | Inr (v, xs) \<Rightarrow>
                    let s2 = put s1 (bin_heap_array h) xs;
                        h1 = h\<lparr>bin_last_index := bin_last_index h - 1\<rparr>
                    in (case bin_sift_down s2 h1 0 of
                          (Inl e, s3) \<Rightarrow> (Inl e, s3, h1)
                        | (Inr u, s3) \<Rightarrow> (Inr ret_val, s3, h1)))))"

definition bin_len :: "BinaryHeap \<Rightarrow> int" where
  "bin_len h = bin_last_index h + 1"

text \<open>\<^verbatim>\<open>validate_heap\<close> of \<^verbatim>\<open>BinaryHeap\<close>, with the counter of its
  \<^verbatim>\<open>while i < 2\<close> loop as an argument.\<close>

partial_function (option) bin_validate_heap_from ::
  "('a::linorder) store \<Rightarrow> BinaryHeap \<Rightarrow> int \<Rightarrow> int \<Rightarrow> (error + bool) option" where
  "bin_validate_heap_from s h parent i =
     (if i < 2 then
        let child = (parent * 2 + 1) + i in
        if child \<le> bin_last_index h then
          (case bin_compare s h child parent of
             Inl e \<Rightarrow> Some (Inl e)
           | Inr b \<Rightarrow> if b then Some (Inr False) else bin_validate_heap_from s h child 0)
        else bin_validate_heap_from s h parent (i + 1)
      else Some (Inr True))"

declare bin_validate_heap_from.simps [code]

definition bin_validate_heap ::
  "('a::linorder) store \<Rightarrow> BinaryHeap \<Rightarrow> int \<Rightarrow> (error + bool) option" where
  "bin_validate_heap s h parent = bin_validate_heap_from s h parent 0"

definition BinaryHeap_new :: "'a store \<Rightarrow> bool \<Rightarrow> 'a store \<times> BinaryHeap" where
  "BinaryHeap_new s mh =
     (s\<lparr>cells := (cells s)(next_ref s := []), next_ref := Suc (next_ref s)\<rparr>,
      \<lparr>bin_heap_array = next_ref s, bin_last_index = - 1, bin_max_heap = mh\<rparr>)"

partial_function (option) bin_init_loop ::
  "('a::linorder) store \<Rightarrow> BinaryHeap \<Rightarrow> ref \<Rightarrow> nat
     \<Rightarrow> ((error + unit) \<times> 'a store \<times> BinaryHeap) option" where
  "bin_init_loop s h src i =
     (if i < length (cells s src) then
        (case bin_push s h (cells s src ! i) of
           (Inl e, s', h') \<Rightarrow> Some (Inl e, s', h')
         | (Inr u, s', h') \<Rightarrow> bin_init_loop s' h' src (Suc i))
      else Some (Inr (), s, h))"

declare bin_init_loop.simps [code]

definition BinaryHeap_init ::
  "('a::linorder) store \<Rightarrow> ref option \<Rightarrow> bool \<Rightarrow> ((error + BinaryHeap) \<times> 'a store) option" where
  "BinaryHeap_init s initial_contents mh =
     (case BinaryHeap_new s mh of
        (s0, h0) \<Rightarrow>
          (case initial_contents of
             None \<Rightarrow> Some (Inr h0, s0)
           | Some src \<Rightarrow>
               (case bin_init_loop s0 h0 src 0 of
                  None \<Rightarrow> None
                | Some (Inl e, s1, h1) \<Rightarrow> Some (Inl e, s1)
                | Some (Inr u, s1, h1) \<Rightarrow> Some (Inr h1, s1))))"

function bin_heapify_loop ::
  "('a::linorder) store \<Rightarrow> BinaryHeap \<Rightarrow> int \<Rightarrow> (error + unit) \<times> 'a store" where
  "bin_heapify_loop s h start =
     (if start \<ge> 0 then
        (case bin_sift_down s h start of
           (Inl e, s') \<Rightarrow> (Inl e, s')
         | (Inr u, s') \<Rightarrow> bin_heapify_loop s' h (start - 1))
      else (Inr (), s))"
  by pat_completeness auto
termination
  by (relation "measure (\<lambda>(s, h, start). nat (start + 1))") auto

declare bin_heapify_loop.simps [simp del]

definition bin_heapify ::
  "('a::linorder) store \<Rightarrow> ref \<Rightarrow> bool \<Rightarrow> (error + BinaryHeap) \<times> 'a store" where
  "bin_heapify s unordered_list mh =
     (case BinaryHeap_new s mh of
        (s0, h0) \<Rightarrow>
          let heap = h0\<lparr>bin_heap_array := unordered_list,
                       bin_last_index := int (length (cells s0 unordered_list)) - 1\<rparr>
          in (case bin_heapify_loop s0 heap ((bin_last_index heap - 1) div 2) of
                (Inl e, s1) \<Rightarrow> (Inl e, s1)
              | (Inr u, s1) \<Rightarrow> (Inr heap, s1)))"

function bin_heapsort_loop ::
  "('a::linorder) store \<Rightarrow> BinaryHeap \<Rightarrow> (error + unit) \<times> 'a store" where
  "bin_heapsort_loop s heap =
     (if bin_last_index heap \<ge> 0 then
        (case bin_swap s heap 0 (bin_last_index heap) of
           (Inl e, s1) \<Rightarrow> (Inl e, s1)
         | (Inr u, s1) \<Rightarrow>
             (case bin_sift_down s1 (heap\<lparr>bin_last_index := bin_last_index heap - 1\<rparr>) 0 of
                (Inl e, s2) \<Rightarrow> (Inl e, s2)
              | (Inr u, s2) \<Rightarrow>
                  bin_heapsort_loop s2 (heap\<lparr>bin_last_index := bin_last_index heap - 1\<rparr>)))
      else (Inr (), s))"
  by pat_completeness auto
termination
  by (relation "measure (\<lambda>(s, heap). nat (bin_last_index heap + 1))") auto

declare bin_heapsort_loop.simps [simp del]

definition bin_heapsort ::
  "('a::linorder) store \<Rightarrow> ref \<Rightarrow> bool \<Rightarrow> (error + unit) \<times> 'a store" where
  "bin_heapsort s unordered_list ascending =
     (case bin_heapify s unordered_list ascending of
        (Inl e, s1) \<Rightarrow> (Inl e, s1)
      | (Inr heap, s1) \<Rightarrow> bin_heapsort_loop s1 heap)"

section \<open>The class DHeap under the interpreter's recursion limit\<close>

text \<open>
  The interpreter allows only so many calls nested in one another
  (\<^verbatim>\<open>sys.getrecursionlimit()\<close>, 1000 unless it is changed) and raises
  \<^verbatim>\<open>RecursionError\<close> at a call that would exceed the limit. In the definitions of
  this section \<open>frames\<close> is the number of calls that can still be nested at the point where
  a method is called: the call itself takes one of them, so a call with no frame left
  raises, and the body of the called method runs with one frame less. Only calls of the
  methods of the class count; list indexing, \<^verbatim>\<open>append\<close>, \<^verbatim>\<open>list.pop\<close>,
  \<^verbatim>\<open>len\<close> and the comparison of two elements are built in. Apart from \<open>frames\<close> each
  definition is the one of the section on \<^verbatim>\<open>DHeap\<close> above, statement by statement.
\<close>

definition swap_lim ::
  "nat \<Rightarrow> 'a store \<Rightarrow> DHeap \<Rightarrow> int \<Rightarrow> int \<Rightarrow> (error + unit) \<times> 'a store" where
  "swap_lim frames s h index_1 index_2 =
     (if frames = 0 then (Inl RecursionError, s) else swap s h index_1 index_2)"

definition compare_lim ::
  "nat \<Rightarrow> ('a::linorder) store \<Rightarrow> DHeap \<Rightarrow> int \<Rightarrow> int \<Rightarrow> error + bool" where
  "compare_lim frames s h index_1 index_2 =
     (if frames = 0 then Inl RecursionError else compare s h index_1 index_2)"

definition peek_lim :: "nat \<Rightarrow> 'a store \<Rightarrow> DHeap \<Rightarrow> error + 'a" where
  "peek_lim frames s h = (if frames = 0 then Inl RecursionError else peek s h)"

text \<open>
  \<^verbatim>\<open>__sift_up\<close>: one frame for the call, and in its body the calls of
  \<^verbatim>\<open>__compare\<close>, \<^verbatim>\<open>__swap\<close> and \<^verbatim>\<open>__sift_up\<close> itself with what is left. The
  nesting is bounded, so every call ends: with a negative branching factor, where the
  recursion of the code has no end of its own, it ends in \<^verbatim>\<open>RecursionError\<close>.
\<close>

fun sift_up_lim ::
  "nat \<Rightarrow> ('a::linorder) store \<Rightarrow> DHeap \<Rightarrow> int \<Rightarrow> (error + unit) \<times> 'a store" where
  "sift_up_lim 0 s h index = (Inl RecursionError, s)"
| "sift_up_lim (Suc frames) s h index =
     (if branching_factor h = 0 then (Inl ZeroDivisionError, s)
      else
        let parent = (index - 1) div branching_factor h in
        if parent \<ge> 0 then
          (case compare_lim frames s h index parent of
             Inl e \<Rightarrow> (Inl e, s)
           | Inr b \<Rightarrow>
               if b then
                 (case swap_lim frames s h index parent of
                    (Inl e, s') \<Rightarrow> (Inl e, s')
                  | (Inr u, s') \<Rightarrow> sift_up_lim frames s' h parent)
               else (Inr (), s))
        else (Inr (), s))"

text \<open>The loop of \<^verbatim>\<open>__sift_down\<close>, with \<open>frames\<close> left in the body of \<^verbatim>\<open>__sift_down\<close>.\<close>

function sift_down_loop_lim ::
  "nat \<Rightarrow> ('a::linorder) store \<Rightarrow> DHeap \<Rightarrow> int \<Rightarrow> int \<Rightarrow> int \<Rightarrow> error + int" where
  "sift_down_loop_lim frames s h index i new_parent =
     (if i \<le> branching_factor h then
        let child = index * branching_factor h + i in
        if child \<le> last_index h then
          (case compare_lim frames s h child new_parent of
             Inl e \<Rightarrow> Inl e
           | Inr b \<Rightarrow>
               sift_down_loop_lim frames s h index (i + 1) (if b then child else new_parent))
        else sift_down_loop_lim frames s h index (i + 1) new_parent
      else Inr new_parent)"
  by pat_completeness auto
termination
  by (relation "measure (\<lambda>(frames, s, h, index, i, new_parent). nat (branching_factor h + 1 - i))")
     auto

declare sift_down_loop_lim.simps [simp del]

fun sift_down_lim ::
  "nat \<Rightarrow> ('a::linorder) store \<Rightarrow> DHeap \<Rightarrow> int \<Rightarrow> (error + unit) \<times> 'a store" where
  "sift_down_lim 0 s h index = (Inl RecursionError, s)"
| "sift_down_lim (Suc frames) s h index =
     (case sift_down_loop_lim frames s h index 1 index of
        Inl e \<Rightarrow> (Inl e, s)
      | Inr new_parent \<Rightarrow>
          if new_parent \<noteq> index then
            (case swap_lim frames s h index new_parent of
               (Inl e, s') \<Rightarrow> (Inl e, s')
             | (Inr u, s') \<Rightarrow> sift_down_lim frames s' h new_parent)
          else (Inr (), s))"

fun push_lim ::
  "nat \<Rightarrow> ('a::linorder) store \<Rightarrow> DHeap \<Rightarrow> 'a \<Rightarrow> (error + unit) \<times> 'a store \<times> DHeap" where
  "push_lim 0 s h val = (Inl RecursionError, s, h)"
| "push_lim (Suc frames) s h val =
     (let h1 = h\<lparr>last_index := last_index h + 1\<rparr>;
          s1 = put s (heap_array h) (cells s (heap_array h) @ [val])
      in case sift_up_lim frames s1 h1 (last_index h1) of
           (r, s2) \<Rightarrow> (r, s2, h1))"

fun pop_lim ::
  "nat \<Rightarrow> ('a::linorder) store \<Rightarrow> DHeap \<Rightarrow> (error + 'a) \<times> 'a store \<times> DHeap" where
  "pop_lim 0 s h = (Inl RecursionError, s, h)"
| "pop_lim (Suc frames) s h =
     (case peek_lim frames s h of
        Inl e \<Rightarrow> (Inl e, s, h)
      | Inr ret_val \<Rightarrow>
          (case swap_lim frames s h 0 (last_index h) of
             (Inl e, s1) \<Rightarrow> (Inl e, s1, h)
           | (Inr u, s1) \<Rightarrow>
               (case list_pop (cells s1 (heap_array h)) (last_index h) of
                  Inl e \<Rightarrow> (Inl e, s1, h)
                | Inr (v, xs) \<Rightarrow>
                    let s2 = put s1 (heap_array h) xs;
                        h1 = h\<lparr>last_index := last_index h - 1\<rparr>
                    in (case sift_down_lim frames s2 h1 0 of
                          (Inl e, s3) \<Rightarrow> (Inl e, s3, h1)
                        | (Inr u, s3) \<Rightarrow> (Inr ret_val, s3, h1)))))"

text \<open>
  \<^verbatim>\<open>__init__\<close>: the call of the constructor takes a frame, and each
  \<^verbatim>\<open>self.push(val)\<close> is called with what is left.
\<close>

partial_function (option) init_loop_lim ::
  "nat \<Rightarrow> ('a::linorder) store \<Rightarrow> DHeap \<Rightarrow> ref \<Rightarrow> nat
     \<Rightarrow> ((error + unit) \<times> 'a store \<times> DHeap) option" where
  "init_loop_lim frames s h src i =
     (if i < length (cells s src) then
        (case push_lim frames s h (cells s src ! i) of
           (Inl e, s', h') \<Rightarrow> Some (Inl e, s', h')
         | (Inr u, s', h') \<Rightarrow> init_loop_lim frames s' h' src (Suc i))
      else Some (Inr (), s, h))"

declare init_loop_lim.simps [code]

fun DHeap_init_lim ::
  "nat \<Rightarrow> ('a::linorder) store \<Rightarrow> ref option \<Rightarrow> bool \<Rightarrow> int
     \<Rightarrow> ((error + DHeap) \<times> 'a store) option" where
  "DHeap_init_lim 0 s initial_contents mh bf = Some (Inl RecursionError, s)"
| "DHeap_init_lim (Suc frames) s initial_contents mh bf =
     (case DHeap_new s mh bf of
        (s0, h0) \<Rightarrow>
          (case initial_contents of
             None \<Rightarrow> Some (Inr h0, s0)
           | Some src \<Rightarrow>
               (case init_loop_lim frames s0 h0 src 0 of
                  None \<Rightarrow> None
                | Some (Inl e, s1, h1) \<Rightarrow> Some (Inl e, s1)
                | Some (Inr u, s1, h1) \<Rightarrow> Some (Inr h1, s1))))"

text \<open>
  \<^verbatim>\<open>heapify\<close>: a frame for the call, one below it for the constructor (which, with no
  initial contents, calls nothing), and each \<^verbatim>\<open>heap.__sift_down(start)\<close> is called
  with what the call of \<^verbatim>\<open>heapify\<close> left.
\<close>

function heapify_loop_lim ::
  "nat \<Rightarrow> ('a::linorder) store \<Rightarrow> DHeap \<Rightarrow> int \<Rightarrow> (error + unit) \<times> 'a store" where
  "heapify_loop_lim frames s h start =
     (if start \<ge> 0 then
        (case sift_down_lim frames s h start of
           (Inl e, s') \<Rightarrow> (Inl e, s')
         | (Inr u, s') \<Rightarrow> heapify_loop_lim frames s' h (start - 1))
      else (Inr (), s))"
  by pat_completeness auto
termination
  by (relation "measure (\<lambda>(frames, s, h, start). nat (start + 1))") auto

declare heapify_loop_lim.simps [simp del]

fun heapify_lim ::
  "nat \<Rightarrow> ('a::linorder) store \<Rightarrow> ref \<Rightarrow> bool \<Rightarrow> int \<Rightarrow> (error + DHeap) \<times> 'a store" where
  "heapify_lim 0 s unordered_list mh bf = (Inl RecursionError, s)"
| "heapify_lim (Suc frames) s unordered_list mh bf =
     (if frames = 0 then (Inl RecursionError, s)
      else
        case DHeap_new s mh bf of
          (s0, h0) \<Rightarrow>
            let heap = h0\<lparr>heap_array := unordered_list,
                         last_index := int (length (cells s0 unordered_list)) - 1\<rparr>
            in if branching_factor heap = 0 then (Inl ZeroDivisionError, s0)
               else
                 (case heapify_loop_lim frames s0 heap
                         ((last_index heap - 1) div branching_factor heap) of
                    (Inl e, s1) \<Rightarrow> (Inl e, s1)
                  | (Inr u, s1) \<Rightarrow> (Inr heap, s1)))"

section \<open>Programs over a heap object\<close>

text \<open>
  A caller's program: a heap is constructed, with a list of the caller's as initial
  contents or with none, and then a sequence of calls is made. \<^verbatim>\<open>heapify\<close> and
  \<^verbatim>\<open>heapsort\<close> are static: they take a list of the caller's; the heap that
  \<^verbatim>\<open>heapify\<close> returns is the one the following calls go to. What the caller observes of
  a call is the value it returns or the exception it raises; an exception is caught and
  the program goes on. A program whose call never returns has no result.
\<close>

datatype 'a call =
    Push 'a | Pop | Peek | Len | Validate_heap int | Heapify ref bool | Heapsort ref bool

datatype 'a observed =
    Raised error | Returned_None | Returned 'a | Returned_int int | Returned_bool bool

definition unit_observed :: "error + unit \<Rightarrow> 'a observed" where
  "unit_observed r = (case r of Inl e \<Rightarrow> Raised e | Inr u \<Rightarrow> Returned_None)"

definition value_observed :: "error + 'a \<Rightarrow> 'a observed" where
  "value_observed r = (case r of Inl e \<Rightarrow> Raised e | Inr v \<Rightarrow> Returned v)"

definition bool_observed :: "error + bool \<Rightarrow> 'a observed" where
  "bool_observed r = (case r of Inl e \<Rightarrow> Raised e | Inr b \<Rightarrow> Returned_bool b)"

fun DHeap_call ::
  "('a::linorder) store \<Rightarrow> DHeap \<Rightarrow> 'a call \<Rightarrow> ('a observed \<times> 'a store \<times> DHeap) option" where
  "DHeap_call s h (Push v) =
     (case push s h v of None \<Rightarrow> None | Some (r, s', h') \<Rightarrow> Some (unit_observed r, s', h'))"
| "DHeap_call s h Pop = (case pop s h of (r, s', h') \<Rightarrow> Some (value_observed r, s', h'))"
| "DHeap_call s h Peek = Some (value_observed (peek s h), s, h)"
| "DHeap_call s h Len = Some (Returned_int (len h), s, h)"
| "DHeap_call s h (Validate_heap parent) =
     (case validate_heap s h parent of None \<Rightarrow> None | Some r \<Rightarrow> Some (bool_observed r, s, h))"
| "DHeap_call s h (Heapify r mh) =
     (case heapify s r mh 2 of
        (Inl e, s') \<Rightarrow> Some (Raised e, s', h)
      | (Inr h', s') \<Rightarrow> Some (Returned_None, s', h'))"
| "DHeap_call s h (Heapsort r ascending) =
     (case heapsort s r ascending of (res, s') \<Rightarrow> Some (unit_observed res, s', h))"

fun DHeap_calls ::
  "('a::linorder) store \<Rightarrow> DHeap \<Rightarrow> 'a call list
     \<Rightarrow> ('a observed list \<times> 'a store \<times> DHeap) option" where
  "DHeap_calls s h [] = Some ([], s, h)"
| "DHeap_calls s h (c # cs) =
     (case DHeap_call s h c of
        None \<Rightarrow> None
      | Some (ob, s', h') \<Rightarrow>
          (case DHeap_calls s' h' cs of
             None \<Rightarrow> None
           | Some (obs, s'', h'') \<Rightarrow> Some (ob # obs, s'', h'')))"

definition DHeap_program ::
  "('a::linorder) store \<Rightarrow> ref option \<Rightarrow> bool \<Rightarrow> 'a call list
     \<Rightarrow> (error \<times> 'a store + 'a observed list \<times> 'a store \<times> DHeap) option" where
  "DHeap_program s initial_contents mh cs =
     (case DHeap_init s initial_contents mh 2 of
        None \<Rightarrow> None
      | Some (Inl e, s') \<Rightarrow> Some (Inl (e, s'))
      | Some (Inr h, s') \<Rightarrow> map_option Inr (DHeap_calls s' h cs))"

fun BinaryHeap_call ::
  "('a::linorder) store \<Rightarrow> BinaryHeap \<Rightarrow> 'a call
     \<Rightarrow> ('a observed \<times> 'a store \<times> BinaryHeap) option" where
  "BinaryHeap_call s h (Push v) =
     (case bin_push s h v of (r, s', h') \<Rightarrow> Some (unit_observed r, s', h'))"
| "BinaryHeap_call s h Pop = (case bin_pop s h of (r, s', h') \<Rightarrow> Some (value_observed r, s', h'))"
| "BinaryHeap_call s h Peek = Some (value_observed (bin_peek s h), s, h)"
| "BinaryHeap_call s h Len = Some (Returned_int (bin_len h), s, h)"
| "BinaryHeap_call s h (Validate_heap parent) =
     (case bin_validate_heap s h parent of None \<Rightarrow> None | Some r \<Rightarrow> Some (bool_observed r, s, h))"
| "BinaryHeap_call s h (Heapify r mh) =
     (case bin_heapify s r mh of
        (Inl e, s') \<Rightarrow> Some (Raised e, s', h)
      | (Inr h', s') \<Rightarrow> Some (Returned_None, s', h'))"
| "BinaryHeap_call s h (Heapsort r ascending) =
     (case bin_heapsort s r ascending of (res, s') \<Rightarrow> Some (unit_observed res, s', h))"

fun BinaryHeap_calls ::
  "('a::linorder) store \<Rightarrow> BinaryHeap \<Rightarrow> 'a call list
     \<Rightarrow> ('a observed list \<times> 'a store \<times> BinaryHeap) option" where
  "BinaryHeap_calls s h [] = Some ([], s, h)"
| "BinaryHeap_calls s h (c # cs) =
     (case BinaryHeap_call s h c of
        None \<Rightarrow> None
      | Some (ob, s', h') \<Rightarrow>
          (case BinaryHeap_calls s' h' cs of
             None \<Rightarrow> None
           | Some (obs, s'', h'') \<Rightarrow> Some (ob # obs, s'', h'')))"

definition BinaryHeap_program ::
  "('a::linorder) store \<Rightarrow> ref option \<Rightarrow> bool \<Rightarrow> 'a call list
     \<Rightarrow> (error \<times> 'a store + 'a observed list \<times> 'a store \<times> BinaryHeap) option" where
  "BinaryHeap_program s initial_contents mh cs =
     (case BinaryHeap_init s initial_contents mh of
        None \<Rightarrow> None
      | Some (Inl e, s') \<Rightarrow> Some (Inl (e, s'))
      | Some (Inr h, s') \<Rightarrow> map_option Inr (BinaryHeap_calls s' h cs))"

section \<open>Vocabulary of the specification\<close>

text \<open>
  \<open>item xs i\<close> is the element of \<open>xs\<close> at a non-negative index \<open>i\<close>. \<open>better mh a b\<close>
  says that \<open>a\<close> beats \<open>b\<close> (is strictly more extreme) and \<open>at_least mh a b\<close> that
  \<open>a\<close> is at least as extreme as \<open>b\<close>, in a max heap when \<open>mh\<close> holds and in a min heap
  otherwise. \<open>par d c\<close> is the parent of position \<open>c\<close> and \<open>swapped xs i j\<close> the list
  \<open>xs\<close> with the elements at \<open>i\<close> and \<open>j\<close> exchanged.
\<close>

definition item :: "'a list \<Rightarrow> int \<Rightarrow> 'a" where
  "item xs i = xs ! nat i"

definition better :: "bool \<Rightarrow> ('a::linorder) \<Rightarrow> 'a \<Rightarrow> bool" where
  "better mh a b = (if mh then a > b else a < b)"

definition at_least :: "bool \<Rightarrow> ('a::linorder) \<Rightarrow> 'a \<Rightarrow> bool" where
  "at_least mh a b = (if mh then a \<ge> b else a \<le> b)"

definition par :: "int \<Rightarrow> int \<Rightarrow> int" where
  "par d c = (c - 1) div d"

definition swapped :: "'a list \<Rightarrow> int \<Rightarrow> int \<Rightarrow> 'a list" where
  "swapped xs i j = (xs[nat i := item xs j])[nat j := item xs i]"

text \<open>
  \<open>hp_from d mh n xs k\<close>: among the first \<open>n\<close> elements every child whose parent is at
  position \<open>k\<close> or later is in order with its parent. \<open>hd_except d mh n xs k j\<close>: the
  same but for the children of \<open>j\<close>, which are in order with the parent of \<open>j\<close>
  instead when that parent is at \<open>k\<close> or later.
\<close>

definition hp_from :: "int \<Rightarrow> bool \<Rightarrow> int \<Rightarrow> ('a::linorder) list \<Rightarrow> int \<Rightarrow> bool" where
  "hp_from d mh n xs k =
     (\<forall>c. 0 < c \<and> c < n \<and> k \<le> par d c \<longrightarrow> at_least mh (item xs (par d c)) (item xs c))"

definition hd_except :: "int \<Rightarrow> bool \<Rightarrow> int \<Rightarrow> ('a::linorder) list \<Rightarrow> int \<Rightarrow> int \<Rightarrow> bool" where
  "hd_except d mh n xs k j =
     ((\<forall>c. 0 < c \<and> c < n \<and> k \<le> par d c \<and> par d c \<noteq> j
           \<longrightarrow> at_least mh (item xs (par d c)) (item xs c))
      \<and> (0 < j \<and> k \<le> par d j
           \<longrightarrow> (\<forall>c. 0 < c \<and> c < n \<and> par d c = j \<longrightarrow> at_least mh (item xs (par d j)) (item xs c))))"

text \<open>
  The heap property of the specification, on the object's fields: \<open>size\<close> is
  \<^verbatim>\<open>len\<close>, \<open>storage\<close> the list that \<^verbatim>\<open>heap_array\<close> refers to. \<open>at_least\<close>
  is \<open>\<ge>\<close> for a max heap and \<open>\<le>\<close> for a min heap. \<open>storage_fits\<close> says that the
  list is exactly as long as the heap is large.
\<close>

definition heap_property :: "('a::linorder) store \<Rightarrow> DHeap \<Rightarrow> bool" where
  "heap_property s h =
     (\<forall>i k. 0 \<le> i \<and> i < len h \<and> 0 \<le> k \<and> k < branching_factor h
            \<and> i * branching_factor h + k + 1 < len h
        \<longrightarrow> at_least (max_heap h) (item (cells s (heap_array h)) i)
              (item (cells s (heap_array h)) (i * branching_factor h + k + 1)))"

definition storage_fits :: "'a store \<Rightarrow> DHeap \<Rightarrow> bool" where
  "storage_fits s h = (int (length (cells s (heap_array h))) = last_index h + 1)"

text \<open>A store that holds one list, at reference 0.\<close>

definition store_of :: "'a list \<Rightarrow> 'a store" where
  "store_of xs = \<lparr>cells = (\<lambda>r. []) (0 := xs), next_ref = 1\<rparr>"

text \<open>A max heap of branching factor 2 over \<open>[5, 3, 9]\<close>: the second child of the root
  is larger than the root.\<close>

definition gap_heap :: DHeap where
  "gap_heap = \<lparr>heap_array = 0, last_index = 2, max_heap = True, branching_factor = 2\<rparr>"

text \<open>The same heap as an object of \<^verbatim>\<open>BinaryHeap\<close>.\<close>

definition bin_gap_heap :: BinaryHeap where
  "bin_gap_heap = \<lparr>bin_heap_array = 0, bin_last_index = 2, bin_max_heap = True\<rparr>"

text \<open>
  \<open>rearranged s r s'\<close>: the store \<open>s'\<close> differs from \<open>s\<close> at most in the order of the
  elements of the list at \<open>r\<close>.
\<close>

definition rearranged :: "'a store \<Rightarrow> ref \<Rightarrow> 'a store \<Rightarrow> bool" where
  "rearranged s r s' =
     (next_ref s' = next_ref s
      \<and> (\<forall>r'. r' \<noteq> r \<longrightarrow> cells s' r' = cells s r')
      \<and> mset (cells s' r) = mset (cells s r))"

text \<open>
  \<open>hu_except d mh n xs j\<close>: among the first \<open>n\<close> elements every child is in order with
  its parent, except perhaps \<open>j\<close>; and the parent of \<open>j\<close> is in order with the
  children of \<open>j\<close>.
\<close>

definition hu_except :: "int \<Rightarrow> bool \<Rightarrow> int \<Rightarrow> ('a::linorder) list \<Rightarrow> int \<Rightarrow> bool" where
  "hu_except d mh n xs j =
     ((\<forall>c. 0 < c \<and> c < n \<and> c \<noteq> j \<longrightarrow> at_least mh (item xs (par d c)) (item xs c))
      \<and> (0 < j \<longrightarrow> (\<forall>c. 0 < c \<and> c < n \<and> par d c = j
                     \<longrightarrow> at_least mh (item xs (par d j)) (item xs c))))"

text \<open>
  What a run of the constructor's loop leaves behind, whatever its outcome: only the
  heap's own list has changed, and the invariant holds.
\<close>

definition init_post ::
  "('a::linorder) store \<Rightarrow> DHeap \<Rightarrow> ref \<Rightarrow> nat \<Rightarrow> (error + unit) \<times> 'a store \<times> DHeap \<Rightarrow> bool" where
  "init_post s h src i y =
     (case y of (res, s', h') \<Rightarrow>
        heap_array h' = heap_array h \<and> max_heap h' = max_heap h
        \<and> branching_factor h' = branching_factor h
        \<and> next_ref s' = next_ref s
        \<and> (\<forall>r. r \<noteq> heap_array h \<longrightarrow> cells s' r = cells s r)
        \<and> storage_fits s' h' \<and> heap_property s' h'
        \<and> (res = Inr () \<longrightarrow> mset (cells s' (heap_array h))
               = mset (cells s (heap_array h)) + mset (drop i (cells s src))))"

text \<open>
  The states of a heap object that the public interface can produce: a constructor or
  \<^verbatim>\<open>heapify\<close> called on an existing list returns the object, and \<^verbatim>\<open>push\<close> and
  \<^verbatim>\<open>pop\<close> change it, whether they return or raise (the caller may catch the
  exception and go on using the object).
\<close>

inductive reachable :: "('a::linorder) store \<Rightarrow> DHeap \<Rightarrow> bool" where
  by_constructor:
    "DHeap_init s None mh bf = Some (Inr h, s') \<Longrightarrow> reachable s' h"
| by_constructor_from:
    "src < next_ref s \<Longrightarrow> DHeap_init s (Some src) mh bf = Some (Inr h, s') \<Longrightarrow> reachable s' h"
| by_heapify:
    "r < next_ref s \<Longrightarrow> heapify s r mh bf = (Inr h, s') \<Longrightarrow> reachable s' h"
| after_push:
    "reachable s h \<Longrightarrow> push s h v = Some (res, s', h') \<Longrightarrow> reachable s' h'"
| after_pop:
    "reachable s h \<Longrightarrow> pop s h = (res', s', h') \<Longrightarrow> reachable s' h'"

text \<open>
  The specification's description of construction from a sequence: each element is
  inserted, one at a time and in order, by \<^verbatim>\<open>push\<close>; the first failing \<^verbatim>\<open>push\<close>
  ends it.
\<close>

fun push_all ::
  "('a::linorder) store \<Rightarrow> DHeap \<Rightarrow> 'a list \<Rightarrow> ((error + unit) \<times> 'a store \<times> DHeap) option" where
  "push_all s h [] = Some (Inr (), s, h)"
| "push_all s h (v # vs) =
     (case push s h v of
        None \<Rightarrow> None
      | Some (Inl e, s', h') \<Rightarrow> Some (Inl e, s', h')
      | Some (Inr u, s', h') \<Rightarrow> push_all s' h' vs)"

text \<open>\<open>pop_n n\<close>: \<^verbatim>\<open>pop\<close> called \<open>n\<close> times in a row, collecting the returned values
  in order; it stops at the first call that raises.\<close>

fun pop_n :: "nat \<Rightarrow> ('a::linorder) store \<Rightarrow> DHeap \<Rightarrow> (error + 'a list) \<times> 'a store \<times> DHeap" where
  "pop_n 0 s h = (Inr [], s, h)"
| "pop_n (Suc n) s h =
     (case pop s h of
        (Inl e, s', h') \<Rightarrow> (Inl e, s', h')
      | (Inr v, s', h') \<Rightarrow>
          (case pop_n n s' h' of
             (Inl e, s'', h'') \<Rightarrow> (Inl e, s'', h'')
           | (Inr vs, s'', h'') \<Rightarrow> (Inr (v # vs), s'', h'')))"

text \<open>A \<^verbatim>\<open>BinaryHeap\<close> object read as a \<^verbatim>\<open>DHeap\<close> object of branching factor 2.\<close>

definition to_DHeap :: "BinaryHeap \<Rightarrow> DHeap" where
  "to_DHeap b = \<lparr>heap_array = bin_heap_array b, last_index = bin_last_index b,
                 max_heap = bin_max_heap b, branching_factor = 2\<rparr>"

text \<open>How a result of a \<^verbatim>\<open>BinaryHeap\<close> method reads as one of a \<^verbatim>\<open>DHeap\<close> method.\<close>

definition as_DHeap :: "'r \<times> 'a store \<times> BinaryHeap \<Rightarrow> 'r \<times> 'a store \<times> DHeap" where
  "as_DHeap y = (case y of (r, s', b') \<Rightarrow> (r, s', to_DHeap b'))"

text \<open>How the result of a \<^verbatim>\<open>BinaryHeap\<close> constructor or \<^verbatim>\<open>heapify\<close> reads as one
  of \<^verbatim>\<open>DHeap\<close>.\<close>

definition made_DHeap :: "(error + BinaryHeap) \<times> 'a store \<Rightarrow> (error + DHeap) \<times> 'a store" where
  "made_DHeap y = (case y of (Inl e, s') \<Rightarrow> (Inl e, s') | (Inr b, s') \<Rightarrow> (Inr (to_DHeap b), s'))"

text \<open>
  How deep the recursion can go. \<open>depth d i\<close> is the number of ancestors of position
  \<open>i\<close>, which \<^verbatim>\<open>__sift_up\<close> from \<open>i\<close> can climb; \<open>levels d l i\<close> is the number of
  levels below position \<open>i\<close> in a heap whose last index is \<open>l\<close>, which
  \<^verbatim>\<open>__sift_down\<close> from \<open>i\<close> can descend (the first child is the one with the most
  levels below it).
\<close>

function depth :: "int \<Rightarrow> int \<Rightarrow> nat" where
  "depth d i = (if 1 \<le> d \<and> 0 < i then Suc (depth d ((i - 1) div d)) else 0)"
  by pat_completeness auto
termination
proof (relation "measure (\<lambda>(d, i). nat i)")
  show "wf (measure (\<lambda>(d, i). nat i))" by simp
next
  fix d i :: int
  assume a: "1 \<le> d \<and> 0 < i"
  then have "(i - 1) div d \<le> (i - 1) div 1" by (intro zdiv_mono2) auto
  with a show "((d, (i - 1) div d), (d, i)) \<in> measure (\<lambda>(d, i). nat i)" by simp
qed

declare depth.simps [simp del]

function levels :: "int \<Rightarrow> int \<Rightarrow> int \<Rightarrow> nat" where
  "levels d l i = (if 1 \<le> d \<and> 0 \<le> i \<and> i * d + 1 \<le> l then Suc (levels d l (i * d + 1)) else 0)"
  by pat_completeness auto
termination
proof (relation "measure (\<lambda>(d, l, i). nat (l - i))")
  show "wf (measure (\<lambda>(d, l, i). nat (l - i)))" by simp
next
  fix d l i :: int
  assume a: "1 \<le> d \<and> 0 \<le> i \<and> i * d + 1 \<le> l"
  then have "i * 1 \<le> i * d" by (intro mult_left_mono) auto
  with a show "((d, l, i * d + 1), (d, l, i)) \<in> measure (\<lambda>(d, l, i). nat (l - i))" by simp
qed

declare levels.simps [simp del]

text \<open>
  The states of a heap object that the public interface can produce under the recursion
  limit: a constructor or \<^verbatim>\<open>heapify\<close> has returned the object, and \<^verbatim>\<open>push\<close> and
  \<^verbatim>\<open>pop\<close> have been called on it any number of times, each with any number of frames
  left, and have returned or raised. The flag tells whether one of these calls has
  raised \<^verbatim>\<open>RecursionError\<close>.
\<close>

inductive reached :: "bool \<Rightarrow> ('a::linorder) store \<Rightarrow> DHeap \<Rightarrow> bool" where
  constructed:
    "DHeap_init_lim frames s None mh bf = Some (Inr h, s') \<Longrightarrow> reached False s' h"
| constructed_from:
    "src < next_ref s \<Longrightarrow> DHeap_init_lim frames s (Some src) mh bf = Some (Inr h, s')
       \<Longrightarrow> reached False s' h"
| heapified:
    "r < next_ref s \<Longrightarrow> heapify_lim frames s r mh bf = (Inr h, s') \<Longrightarrow> reached False s' h"
| pushed:
    "reached b s h \<Longrightarrow> push_lim frames s h v = (res, s', h') \<Longrightarrow> res \<noteq> Inl RecursionError
       \<Longrightarrow> reached b s' h'"
| push_overflowed:
    "reached b s h \<Longrightarrow> push_lim frames s h v = (Inl RecursionError, s', h')
       \<Longrightarrow> reached True s' h'"
| popped:
    "reached b s h \<Longrightarrow> pop_lim frames s h = (res', s', h') \<Longrightarrow> res' \<noteq> Inl RecursionError
       \<Longrightarrow> reached b s' h'"
| pop_overflowed:
    "reached b s h \<Longrightarrow> pop_lim frames s h = (Inl RecursionError, s', h')
       \<Longrightarrow> reached True s' h'"

text \<open>\<^verbatim>\<open>pop\<close> called \<open>n\<close> times in a row, each time with \<open>frames\<close> left.\<close>

fun pop_n_lim ::
  "nat \<Rightarrow> nat \<Rightarrow> ('a::linorder) store \<Rightarrow> DHeap \<Rightarrow> (error + 'a list) \<times> 'a store \<times> DHeap" where
  "pop_n_lim frames 0 s h = (Inr [], s, h)"
| "pop_n_lim frames (Suc n) s h =
     (case pop_lim frames s h of
        (Inl e, s', h') \<Rightarrow> (Inl e, s', h')
      | (Inr v, s', h') \<Rightarrow>
          (case pop_n_lim frames n s' h' of
             (Inl e, s'', h'') \<Rightarrow> (Inl e, s'', h'')
           | (Inr vs, s'', h'') \<Rightarrow> (Inr (v # vs), s'', h'')))"

text \<open>
  The specification's description of construction from a sequence, under the recursion
  limit: each element is inserted by \<^verbatim>\<open>push\<close>, one at a time and in order, and the
  first \<^verbatim>\<open>push\<close> that raises ends it.
\<close>

fun push_all_lim ::
  "nat \<Rightarrow> ('a::linorder) store \<Rightarrow> DHeap \<Rightarrow> 'a list \<Rightarrow> (error + unit) \<times> 'a store \<times> DHeap" where
  "push_all_lim frames s h [] = (Inr (), s, h)"
| "push_all_lim frames s h (v # vs) =
     (case push_lim frames s h v of
        (Inl e, s', h') \<Rightarrow> (Inl e, s', h')
      | (Inr u, s', h') \<Rightarrow> push_all_lim frames s' h' vs)"

text \<open>
  Two runs used as examples below. In the first a max heap of branching factor 2 is
  constructed from a list of the caller's with 9 frames left, then 1000 is pushed and the
  root popped. In the second the list \<open>[5, 4, 3, 2, 1]\<close> is made a max heap of
  branching factor 1 by \<^verbatim>\<open>heapify\<close>, 9 is pushed with only 3 frames left, and then
  0 is pushed with 9 frames left.
\<close>

definition run_heap :: DHeap where
  "run_heap = \<lparr>heap_array = 1, last_index = 5, max_heap = True, branching_factor = 2\<rparr>"

definition run_built :: "int store" where
  "run_built = snd (the (DHeap_init_lim 9 (store_of [1, 1, 5, 10, - 23, 105]) (Some 0) True 2))"

definition run_pushed :: "int store" where
  "run_pushed = fst (snd (push_lim 9 run_built run_heap 1000))"

definition run_popped :: "int store" where
  "run_popped = fst (snd (pop_lim 9 run_pushed (run_heap\<lparr>last_index := 6\<rparr>)))"

definition chain_heap :: DHeap where
  "chain_heap = \<lparr>heap_array = 0, last_index = 4, max_heap = True, branching_factor = 1\<rparr>"

definition chain_store :: "int store" where
  "chain_store = snd (heapify_lim 9 (store_of [5, 4, 3, 2, 1]) 0 True 1)"

definition chain_overflowed :: "int store" where
  "chain_overflowed = fst (snd (push_lim 3 chain_store chain_heap 9))"

definition chain_after :: "int store" where
  "chain_after = fst (snd (push_lim 9 chain_overflowed (chain_heap\<lparr>last_index := 5\<rparr>) 0))"

text \<open>
  Two more heaps: the max heap that the constructor builds from \<open>[1, 2, 3]\<close> with
  branching factor \<open>-2\<close>, and the one it builds from
  \<open>[-10, 0, 5, -2, 5, 1024, -999]\<close> with branching factor 2.
\<close>

definition neg_heap :: DHeap where
  "neg_heap = \<lparr>heap_array = 1, last_index = 2, max_heap = True, branching_factor = - 2\<rparr>"

definition neg_built :: "int store" where
  "neg_built = snd (the (DHeap_init_lim 9 (store_of [1, 2, 3]) (Some 0) True (- 2)))"

definition dual_heap :: DHeap where
  "dual_heap = \<lparr>heap_array = 1, last_index = 6, max_heap = True, branching_factor = 2\<rparr>"

definition dual_built :: "int store" where
  "dual_built
     = snd (the (DHeap_init_lim 9 (store_of [- 10, 0, 5, - 2, 5, 1024, - 999]) (Some 0) True 2))"

text \<open>
  A heap of the size at which the default recursion limit is met: the max heap of
  branching factor 1 that the constructor builds, with 1000 frames left, from the
  descending list \<open>[1199, 1198, \<dots>, 0]\<close>, and the store after \<^verbatim>\<open>push(5000)\<close> has
  been called on it with 1000 frames left.
\<close>

definition big_list :: "int list" where
  "big_list = rev (map int [0..<1200])"

definition big_heap :: DHeap where
  "big_heap = \<lparr>heap_array = 1, last_index = 1199, max_heap = True, branching_factor = 1\<rparr>"

definition big_built :: "int store" where
  "big_built = snd (the (DHeap_init_lim 1000 (store_of big_list) (Some 0) True 1))"

definition big_overflowed :: "int store" where
  "big_overflowed = fst (snd (push_lim 1000 big_built big_heap 5000))"

section \<open>Facts about the methods\<close>

subsection \<open>Orderings, the store and the primitives within range\<close>

lemma better_at_least: "better mh a b \<Longrightarrow> at_least mh a b"
  by (auto simp: better_def at_least_def)

lemma not_better_iff: "(\<not> better mh a b) = at_least mh b a"
  by (auto simp: better_def at_least_def)

lemma at_least_refl: "at_least mh a a"
  by (simp add: at_least_def)

lemma at_least_trans: "at_least mh a b \<Longrightarrow> at_least mh b c \<Longrightarrow> at_least mh a c"
  by (auto simp: at_least_def)

lemma better_at_least_trans: "better mh a b \<Longrightarrow> at_least mh b c \<Longrightarrow> better mh a c"
  by (auto simp: better_def at_least_def)

lemma at_least_better_trans: "at_least mh a b \<Longrightarrow> better mh b c \<Longrightarrow> better mh a c"
  by (auto simp: better_def at_least_def)

lemma better_irrefl: "\<not> better mh a a"
  by (simp add: better_def)

lemma put_cells [simp]: "cells (put s r xs) r' = (if r' = r then xs else cells s r')"
  by (simp add: put_def)

lemma put_next_ref [simp]: "next_ref (put s r xs) = next_ref s"
  by (simp add: put_def)

lemma put_same [simp]: "put s r (cells s r) = s"
  by (simp add: put_def)

lemma put_put [simp]: "put (put s r xs) r ys = put s r ys"
  by (simp add: put_def)

lemma getitem_in_range:
  "0 \<le> i \<Longrightarrow> i < int (length xs) \<Longrightarrow> getitem xs i = Inr (item xs i)"
  by (simp add: getitem_def norm_index_nonneg item_def)

lemma setitem_in_range:
  "0 \<le> i \<Longrightarrow> i < int (length xs) \<Longrightarrow> setitem xs i v = Inr (xs[nat i := v])"
  by (simp add: setitem_def norm_index_nonneg)

lemma compare_in_range:
  "0 \<le> i \<Longrightarrow> i < int (length (cells s (heap_array h))) \<Longrightarrow>
   0 \<le> j \<Longrightarrow> j < int (length (cells s (heap_array h))) \<Longrightarrow>
   compare s h i j
     = Inr (better (max_heap h) (item (cells s (heap_array h)) i) (item (cells s (heap_array h)) j))"
  by (simp add: compare_def getitem_in_range better_def)

lemma swap_in_range:
  "0 \<le> i \<Longrightarrow> i < int (length (cells s (heap_array h))) \<Longrightarrow>
   0 \<le> j \<Longrightarrow> j < int (length (cells s (heap_array h))) \<Longrightarrow>
   swap s h i j = (Inr (), put s (heap_array h) (swapped (cells s (heap_array h)) i j))"
  by (simp add: swap_def Let_def getitem_in_range setitem_in_range swapped_def)

lemma length_swapped [simp]: "length (swapped xs i j) = length xs"
  by (simp add: swapped_def)

lemma item_swapped:
  "0 \<le> i \<Longrightarrow> i < int (length xs) \<Longrightarrow> 0 \<le> j \<Longrightarrow> j < int (length xs) \<Longrightarrow> 0 \<le> k \<Longrightarrow>
   item (swapped xs i j) k = (if k = j then item xs i else if k = i then item xs j else item xs k)"
  by (auto simp: swapped_def item_def nth_list_update)

lemma mset_swapped:
  "0 \<le> i \<Longrightarrow> i < int (length xs) \<Longrightarrow> 0 \<le> j \<Longrightarrow> j < int (length xs) \<Longrightarrow>
   mset (swapped xs i j) = mset xs"
  by (simp add: swapped_def item_def mset_swap)

lemma drop_swapped:
  "0 \<le> i \<Longrightarrow> 0 \<le> j \<Longrightarrow> i < n \<Longrightarrow> j < n \<Longrightarrow> drop (nat n) (swapped xs i j) = drop (nat n) xs"
  by (simp add: swapped_def drop_update_cancel)

lemma par_child:
  "1 \<le> d \<Longrightarrow> 1 \<le> i \<Longrightarrow> i \<le> d \<Longrightarrow> par d (j * d + i) = j"
proof -
  assume a: "1 \<le> d" "1 \<le> i" "i \<le> d"
  have "(j * d + i - 1) div d = ((i - 1) + j * d) div d" by (simp add: algebra_simps)
  also have "\<dots> = (i - 1) div d + j" using a by (subst div_mult_self1) auto
  also have "(i - 1) div d = 0" using a by (intro div_pos_pos_trivial) auto
  finally show ?thesis by (simp add: par_def)
qed

lemma child_of_par:
  assumes "1 \<le> d" "0 < c"
  shows "\<exists>i. 1 \<le> i \<and> i \<le> d \<and> c = par d c * d + i"
proof -
  have "c - 1 = (c - 1) div d * d + (c - 1) mod d" by simp
  moreover have "0 \<le> (c - 1) mod d" "(c - 1) mod d < d" using assms by auto
  ultimately show ?thesis
    by (intro exI[of _ "(c - 1) mod d + 1"]) (auto simp: par_def)
qed

lemma par_nonneg: "1 \<le> d \<Longrightarrow> 0 < c \<Longrightarrow> 0 \<le> par d c"
  by (simp add: par_def pos_imp_zdiv_nonneg_iff)

lemma par_less: "1 \<le> d \<Longrightarrow> 0 < c \<Longrightarrow> par d c < c"
proof -
  assume a: "1 \<le> d" "0 < c"
  have "(c - 1) div d \<le> (c - 1) div 1" using a by (intro zdiv_mono2) auto
  then show ?thesis by (simp add: par_def)
qed

lemma child_greater: "1 \<le> (d::int) \<Longrightarrow> 0 \<le> j \<Longrightarrow> 1 \<le> i \<Longrightarrow> j < j * d + i"
proof -
  assume a: "1 \<le> d" "0 \<le> j" "1 \<le> i"
  have "j * 1 \<le> j * d" by (rule mult_left_mono) (use a in auto)
  with a show ?thesis by simp
qed

subsection \<open>The loop of sift-down\<close>

lemma sift_down_loop_spec:
  fixes s :: "('a::linorder) store"
  assumes "1 \<le> branching_factor h" "0 \<le> index" "1 \<le> i"
    and "last_index h < int (length (cells s (heap_array h)))"
    and "0 \<le> np0" "np0 < int (length (cells s (heap_array h)))"
  shows "\<exists>np. sift_down_loop s h index i np0 = Inr np
      \<and> 0 \<le> np \<and> np < int (length (cells s (heap_array h)))
      \<and> (np = np0 \<or> (\<exists>j. i \<le> j \<and> j \<le> branching_factor h
              \<and> np = index * branching_factor h + j \<and> np \<le> last_index h))
      \<and> (np \<noteq> np0 \<longrightarrow>
            better (max_heap h) (item (cells s (heap_array h)) np) (item (cells s (heap_array h)) np0))
      \<and> (\<forall>j. i \<le> j \<and> j \<le> branching_factor h \<and> index * branching_factor h + j \<le> last_index h
            \<longrightarrow> at_least (max_heap h) (item (cells s (heap_array h)) np)
                  (item (cells s (heap_array h)) (index * branching_factor h + j)))
      \<and> (np \<noteq> np0 \<longrightarrow> (\<forall>j. i \<le> j \<and> index * branching_factor h + j < np
            \<longrightarrow> better (max_heap h) (item (cells s (heap_array h)) np)
                  (item (cells s (heap_array h)) (index * branching_factor h + j))))"
  using assms
proof (induction s h index i np0 rule: sift_down_loop.induct)
  case (1 s h index i np0)
  let ?d = "branching_factor h"
  let ?xs = "cells s (heap_array h)"
  let ?mh = "max_heap h"
  let ?c = "index * ?d + i"
  note pre = "1.prems"
  show ?case
  proof (cases "i \<le> ?d")
    case False
    then have "sift_down_loop s h index i np0 = Inr np0"
      by (simp add: sift_down_loop.simps)
    with False pre show ?thesis by auto
  next
    case le: True
    have cpos: "index < ?c" using pre by (intro child_greater) auto
    show ?thesis
    proof (cases "?c \<le> last_index h")
      case out: False
      have eq: "sift_down_loop s h index i np0 = sift_down_loop s h index (i + 1) np0"
        using le out by (simp add: sift_down_loop.simps[of s h index i] Let_def)
      from "1.IH"(2)[OF le refl out] pre
      obtain np where np: "sift_down_loop s h index (i + 1) np0 = Inr np"
        "0 \<le> np" "np < int (length ?xs)"
        "np = np0 \<or> (\<exists>j. i + 1 \<le> j \<and> j \<le> ?d \<and> np = index * ?d + j \<and> np \<le> last_index h)"
        "np \<noteq> np0 \<longrightarrow> better ?mh (item ?xs np) (item ?xs np0)"
        "\<forall>j. i + 1 \<le> j \<and> j \<le> ?d \<and> index * ?d + j \<le> last_index h
            \<longrightarrow> at_least ?mh (item ?xs np) (item ?xs (index * ?d + j))"
        "np \<noteq> np0 \<longrightarrow> (\<forall>j. i + 1 \<le> j \<and> index * ?d + j < np
            \<longrightarrow> better ?mh (item ?xs np) (item ?xs (index * ?d + j)))"
        by auto
      have a: "np = np0 \<or> (\<exists>j. i \<le> j \<and> j \<le> ?d \<and> np = index * ?d + j \<and> np \<le> last_index h)"
        using np(4) by force
      have b: "\<forall>j. i \<le> j \<and> j \<le> ?d \<and> index * ?d + j \<le> last_index h
            \<longrightarrow> at_least ?mh (item ?xs np) (item ?xs (index * ?d + j))"
      proof (intro allI impI)
        fix j assume j: "i \<le> j \<and> j \<le> ?d \<and> index * ?d + j \<le> last_index h"
        with out have "i + 1 \<le> j" by auto
        with j np(6) show "at_least ?mh (item ?xs np) (item ?xs (index * ?d + j))" by auto
      qed
      have c: "np \<noteq> np0 \<longrightarrow> (\<forall>j. i \<le> j \<and> index * ?d + j < np
            \<longrightarrow> better ?mh (item ?xs np) (item ?xs (index * ?d + j)))"
      proof (intro allI impI)
        fix j assume ne: "np \<noteq> np0" and j: "i \<le> j \<and> index * ?d + j < np"
        from ne np(4) have "np \<le> last_index h" by auto
        with j out have "i + 1 \<le> j" by auto
        with j np(7) ne show "better ?mh (item ?xs np) (item ?xs (index * ?d + j))" by auto
      qed
      from eq np(1,2,3,5) a b c show ?thesis by auto
    next
      case inr: True
      have crange: "0 \<le> ?c" "?c < int (length ?xs)" using cpos pre inr by auto
      define b where "b = better ?mh (item ?xs ?c) (item ?xs np0)"
      have cmp: "compare s h ?c np0 = Inr b"
        using crange pre by (simp add: compare_in_range b_def)
      define np1 where "np1 = (if b then ?c else np0)"
      have eq: "sift_down_loop s h index i np0 = sift_down_loop s h index (i + 1) np1"
        using le inr cmp by (simp add: sift_down_loop.simps[of s h index i] Let_def np1_def)
      have np1r: "0 \<le> np1" "np1 < int (length ?xs)" using crange pre by (auto simp: np1_def)
      from "1.IH"(1)[OF le refl inr cmp] pre np1r
      obtain np where np: "sift_down_loop s h index (i + 1) np1 = Inr np"
        "0 \<le> np" "np < int (length ?xs)"
        "np = np1 \<or> (\<exists>j. i + 1 \<le> j \<and> j \<le> ?d \<and> np = index * ?d + j \<and> np \<le> last_index h)"
        "np \<noteq> np1 \<longrightarrow> better ?mh (item ?xs np) (item ?xs np1)"
        "\<forall>j. i + 1 \<le> j \<and> j \<le> ?d \<and> index * ?d + j \<le> last_index h
            \<longrightarrow> at_least ?mh (item ?xs np) (item ?xs (index * ?d + j))"
        "np \<noteq> np1 \<longrightarrow> (\<forall>j. i + 1 \<le> j \<and> index * ?d + j < np
            \<longrightarrow> better ?mh (item ?xs np) (item ?xs (index * ?d + j)))"
        unfolding np1_def[symmetric] by auto
      have np1_np0: "np1 \<noteq> np0 \<longrightarrow> better ?mh (item ?xs np1) (item ?xs np0)"
        by (auto simp: np1_def b_def)
      have np1_c: "at_least ?mh (item ?xs np1) (item ?xs ?c)"
        by (auto simp: np1_def b_def at_least_refl not_better_iff)
      have np_np1: "at_least ?mh (item ?xs np) (item ?xs np1)"
        using np(5) by (cases "np = np1") (auto simp: at_least_refl better_at_least)
      have a: "np = np0 \<or> (\<exists>j. i \<le> j \<and> j \<le> ?d \<and> np = index * ?d + j \<and> np \<le> last_index h)"
      proof (cases "np = np1")
        case True
        then show ?thesis using le inr by (auto simp: np1_def)
      next
        case False
        with np(4) show ?thesis by force
      qed
      have strict: "np \<noteq> np0 \<longrightarrow> better ?mh (item ?xs np) (item ?xs np0)"
      proof
        assume ne: "np \<noteq> np0"
        show "better ?mh (item ?xs np) (item ?xs np0)"
        proof (cases "np = np1")
          case True
          with ne np1_np0 show ?thesis by auto
        next
          case False
          with np(5) have bt: "better ?mh (item ?xs np) (item ?xs np1)" by simp
          show ?thesis
          proof (cases "np1 = np0")
            case True
            with bt show ?thesis by simp
          next
            case False
            with np1_np0 have "at_least ?mh (item ?xs np1) (item ?xs np0)"
              by (simp add: better_at_least)
            with bt show ?thesis by (rule better_at_least_trans)
          qed
        qed
      qed
      have b: "\<forall>j. i \<le> j \<and> j \<le> ?d \<and> index * ?d + j \<le> last_index h
            \<longrightarrow> at_least ?mh (item ?xs np) (item ?xs (index * ?d + j))"
      proof (intro allI impI)
        fix j assume j: "i \<le> j \<and> j \<le> ?d \<and> index * ?d + j \<le> last_index h"
        show "at_least ?mh (item ?xs np) (item ?xs (index * ?d + j))"
        proof (cases "j = i")
          case True
          with np_np1 np1_c show ?thesis by (auto intro: at_least_trans)
        next
          case False
          with j have "i + 1 \<le> j" by auto
          with j np(6) show ?thesis by auto
        qed
      qed
      have c: "np \<noteq> np0 \<longrightarrow> (\<forall>j. i \<le> j \<and> index * ?d + j < np
            \<longrightarrow> better ?mh (item ?xs np) (item ?xs (index * ?d + j)))"
      proof (intro allI impI)
        fix j assume ne: "np \<noteq> np0" and j: "i \<le> j \<and> index * ?d + j < np"
        show "better ?mh (item ?xs np) (item ?xs (index * ?d + j))"
        proof (cases "j = i")
          case ji: True
          with j have lt: "?c < np" by simp
          show ?thesis
          proof (cases "np = np1")
            case True
            with lt ne have "\<not> b" by (auto simp: np1_def)
            then have "at_least ?mh (item ?xs np0) (item ?xs ?c)"
              by (simp add: b_def not_better_iff)
            moreover from strict ne have "better ?mh (item ?xs np) (item ?xs np0)" by simp
            ultimately show ?thesis using ji by (auto intro: better_at_least_trans)
          next
            case False
            with np(5) have "better ?mh (item ?xs np) (item ?xs np1)" by simp
            with np1_c ji show ?thesis by (auto intro: better_at_least_trans)
          qed
        next
          case False
          with j have j1: "i + 1 \<le> j" by auto
          have "np \<noteq> np1"
          proof
            assume e: "np = np1"
            with ne have "np = ?c" by (auto simp: np1_def split: if_splits)
            moreover have "?c < index * ?d + j" using j1 by simp
            ultimately show False using j by simp
          qed
          with np(7) j j1 show ?thesis by auto
        qed
      qed
      from eq np(1,2,3) a strict b c show ?thesis by auto
    qed
  qed
qed

subsection \<open>Sifting down restores the heap order\<close>

lemma sift_down_loop_leaf:
  fixes s :: "('a::linorder) store"
  shows "1 \<le> i \<Longrightarrow> last_index h < index * branching_factor h + i \<Longrightarrow>
     sift_down_loop s h index i np0 = Inr np0"
proof (induction s h index i np0 rule: sift_down_loop.induct)
  case (1 s h index i np0)
  show ?case
  proof (cases "i \<le> branching_factor h")
    case False
    then show ?thesis by (simp add: sift_down_loop.simps)
  next
    case True
    have out: "\<not> index * branching_factor h + i \<le> last_index h" using "1.prems" by simp
    have "sift_down_loop s h index (i + 1) np0 = Inr np0"
      using "1.IH"(2)[OF True refl out] "1.prems" by simp
    with True out show ?thesis
      by (simp add: sift_down_loop.simps[of s h index i] Let_def)
  qed
qed

lemma hd_except_done:
  assumes d: "1 \<le> d"
    and ex: "hd_except d mh n xs k j"
    and ch: "\<forall>i. 1 \<le> i \<and> i \<le> d \<and> j * d + i < n \<longrightarrow> at_least mh (item xs j) (item xs (j * d + i))"
  shows "hp_from d mh n xs k"
  unfolding hp_from_def
proof (intro allI impI)
  fix c assume c: "0 < c \<and> c < n \<and> k \<le> par d c"
  show "at_least mh (item xs (par d c)) (item xs c)"
  proof (cases "par d c = j")
    case False
    with ex c show ?thesis by (auto simp: hd_except_def)
  next
    case True
    from child_of_par[OF d, of c] c obtain i where "1 \<le> i" "i \<le> d" "c = par d c * d + i" by auto
    with True ch c show ?thesis by auto
  qed
qed

lemma hd_except_swap:
  assumes d: "1 \<le> d" and j0: "0 \<le> j"
    and n: "n \<le> int (length xs)"
    and ex: "hd_except d mh n xs k j"
    and np: "1 \<le> i0" "i0 \<le> d" "np = j * d + i0" "np < n"
    and bt: "better mh (item xs np) (item xs j)"
    and ch: "\<forall>i. 1 \<le> i \<and> i \<le> d \<and> j * d + i < n \<longrightarrow> at_least mh (item xs np) (item xs (j * d + i))"
  shows "hd_except d mh n (swapped xs j np) k np"
proof -
  let ?ys = "swapped xs j np"
  have par_np: "par d np = j" using d np by (simp add: par_child)
  have j_np: "j < np" using d j0 np by (simp add: child_greater)
  have rng: "0 \<le> j" "j < int (length xs)" "0 \<le> np" "np < int (length xs)"
    using j0 j_np np n by auto
  have it: "\<And>c. 0 \<le> c \<Longrightarrow> item ?ys c
      = (if c = np then item xs j else if c = j then item xs np else item xs c)"
    using rng by (simp add: item_swapped)
  have first: "\<forall>c. 0 < c \<and> c < n \<and> k \<le> par d c \<and> par d c \<noteq> np
           \<longrightarrow> at_least mh (item ?ys (par d c)) (item ?ys c)"
  proof (intro allI impI)
    fix c assume c: "0 < c \<and> c < n \<and> k \<le> par d c \<and> par d c \<noteq> np"
    then have c0: "0 < c" by simp
    have p0: "0 \<le> par d c" using d c0 by (rule par_nonneg)
    have pl: "par d c < c" using d c0 by (rule par_less)
    show "at_least mh (item ?ys (par d c)) (item ?ys c)"
    proof (cases "c = np")
      case True
      with par_np it[of np] it[of j] rng j_np bt show ?thesis
        by (simp add: better_at_least)
    next
      case cnp: False
      show ?thesis
      proof (cases "c = j")
        case True
        with c have jpos: "0 < j" and kp: "k \<le> par d j" by auto
        have pj: "par d j < j" using d jpos by (rule par_less)
        have "at_least mh (item xs (par d j)) (item xs np)"
          using ex jpos kp np par_np j_np j0 by (auto simp: hd_except_def)
        moreover have "item ?ys (par d j) = item xs (par d j)"
          using it[of "par d j"] pj j_np par_nonneg[OF d jpos] by simp
        moreover have "item ?ys j = item xs np" using it[of j] j0 j_np by simp
        ultimately show ?thesis using True by simp
      next
        case cj: False
        have yc: "item ?ys c = item xs c" using it[of c] c0 cnp cj by simp
        show ?thesis
        proof (cases "par d c = j")
          case True
          from child_of_par[OF d c0] obtain i where "1 \<le> i" "i \<le> d" "c = par d c * d + i"
            by auto
          with True ch c have "at_least mh (item xs np) (item xs c)" by auto
          moreover have "item ?ys j = item xs np" using it[of j] j0 j_np by simp
          ultimately show ?thesis using True yc by simp
        next
          case False
          with c have "item ?ys (par d c) = item xs (par d c)" using it[of "par d c"] p0 by simp
          moreover have "at_least mh (item xs (par d c)) (item xs c)"
            using ex c False by (auto simp: hd_except_def)
          ultimately show ?thesis using yc by simp
        qed
      qed
    qed
  qed
  have second: "0 < np \<and> k \<le> par d np
           \<longrightarrow> (\<forall>c. 0 < c \<and> c < n \<and> par d c = np \<longrightarrow> at_least mh (item ?ys (par d np)) (item ?ys c))"
  proof (intro allI impI)
    fix c assume a: "0 < np \<and> k \<le> par d np" and c: "0 < c \<and> c < n \<and> par d c = np"
    then have c0: "0 < c" by simp
    have "np < c" using par_less[OF d c0] c by simp
    then have yc: "item ?ys c = item xs c" using it[of c] c0 j_np by simp
    have "item ?ys (par d np) = item xs np" using it[of j] par_np j0 j_np by simp
    moreover have "at_least mh (item xs (par d c)) (item xs c)"
      using ex c a par_np j_np by (auto simp: hd_except_def)
    ultimately show "at_least mh (item ?ys (par d np)) (item ?ys c)" using yc c by simp
  qed
  from first second show ?thesis unfolding hd_except_def by blast
qed

lemma sift_down_spec:
  fixes s :: "('a::linorder) store"
  assumes "1 \<le> branching_factor h" "0 \<le> index"
    and "last_index h < int (length (cells s (heap_array h)))"
  shows "\<exists>xs'. sift_down s h index = (Inr (), put s (heap_array h) xs')
      \<and> length xs' = length (cells s (heap_array h))
      \<and> mset xs' = mset (cells s (heap_array h))
      \<and> drop (nat (last_index h + 1)) xs' = drop (nat (last_index h + 1)) (cells s (heap_array h))
      \<and> (\<forall>k. hd_except (branching_factor h) (max_heap h) (last_index h + 1)
                 (cells s (heap_array h)) k index
            \<longrightarrow> hp_from (branching_factor h) (max_heap h) (last_index h + 1) xs' k)"
  using assms
proof (induction s h index rule: sift_down.induct)
  case (1 s h index)
  let ?d = "branching_factor h"
  let ?xs = "cells s (heap_array h)"
  let ?mh = "max_heap h"
  let ?n = "last_index h + 1"
  note pre = "1.prems"
  show ?case
  proof (cases "index \<le> last_index h")
    case False
    have "last_index h < index * ?d + 1" using child_greater[of ?d index 1] pre False by simp
    then have lp: "sift_down_loop s h index 1 index = Inr index"
      by (intro sift_down_loop_leaf) auto
    then have sd: "sift_down s h index = (Inr (), s)" by (simp add: sift_down.simps)
    have "\<forall>k. hd_except ?d ?mh ?n ?xs k index \<longrightarrow> hp_from ?d ?mh ?n ?xs k"
    proof (intro allI impI)
      fix k assume "hd_except ?d ?mh ?n ?xs k index"
      then show "hp_from ?d ?mh ?n ?xs k"
      proof (rule hd_except_done[OF pre(1)], intro allI impI)
        fix i assume "1 \<le> i \<and> i \<le> ?d \<and> index * ?d + i < ?n"
        moreover have "index < index * ?d + i" using pre calculation by (intro child_greater) auto
        ultimately show "at_least ?mh (item ?xs index) (item ?xs (index * ?d + i))"
          using False by simp
      qed
    qed
    with sd show ?thesis by (intro exI[of _ ?xs]) simp
  next
    case inr: True
    from sift_down_loop_spec[of h index 1 s index] pre inr
    obtain np where np: "sift_down_loop s h index 1 index = Inr np"
      "0 \<le> np" "np < int (length ?xs)"
      "np = index \<or> (\<exists>j. 1 \<le> j \<and> j \<le> ?d \<and> np = index * ?d + j \<and> np \<le> last_index h)"
      "np \<noteq> index \<longrightarrow> better ?mh (item ?xs np) (item ?xs index)"
      "\<forall>j. 1 \<le> j \<and> j \<le> ?d \<and> index * ?d + j \<le> last_index h
            \<longrightarrow> at_least ?mh (item ?xs np) (item ?xs (index * ?d + j))"
      by auto
    show ?thesis
    proof (cases "np = index")
      case True
      with np(1) have sd: "sift_down s h index = (Inr (), s)" by (simp add: sift_down.simps)
      have "\<forall>k. hd_except ?d ?mh ?n ?xs k index \<longrightarrow> hp_from ?d ?mh ?n ?xs k"
      proof (intro allI impI)
        fix k assume "hd_except ?d ?mh ?n ?xs k index"
        then show "hp_from ?d ?mh ?n ?xs k"
          using np(6) True by (intro hd_except_done[OF pre(1)]) auto
      qed
      with sd show ?thesis by (intro exI[of _ ?xs]) simp
    next
      case ne: False
      with np(4) obtain i0 where i0: "1 \<le> i0" "i0 \<le> ?d" "np = index * ?d + i0" "np \<le> last_index h"
        by auto
      let ?ys = "swapped ?xs index np"
      let ?s' = "put s (heap_array h) ?ys"
      have sw: "swap s h index np = (Inr (), ?s')"
        using pre inr np by (intro swap_in_range) auto
      have sd: "sift_down s h index = sift_down ?s' h np"
        using np(1) ne sw by (simp add: sift_down.simps[of s h index])
      have "\<exists>xs'. sift_down ?s' h np = (Inr (), put ?s' (heap_array h) xs')
        \<and> length xs' = length (cells ?s' (heap_array h))
        \<and> mset xs' = mset (cells ?s' (heap_array h))
        \<and> drop (nat ?n) xs' = drop (nat ?n) (cells ?s' (heap_array h))
        \<and> (\<forall>k. hd_except ?d ?mh ?n (cells ?s' (heap_array h)) k np \<longrightarrow> hp_from ?d ?mh ?n xs' k)"
        using pre np(2) by (intro "1.IH"[OF np(1) ne sw[symmetric] refl]) auto
      then obtain xs' where xs': "sift_down ?s' h np = (Inr (), put s (heap_array h) xs')"
        "length xs' = length ?xs" "mset xs' = mset ?ys" "drop (nat ?n) xs' = drop (nat ?n) ?ys"
        "\<forall>k. hd_except ?d ?mh ?n ?ys k np \<longrightarrow> hp_from ?d ?mh ?n xs' k"
        by auto
      have m: "mset ?ys = mset ?xs" using pre inr np by (intro mset_swapped) auto
      have dr: "drop (nat ?n) ?ys = drop (nat ?n) ?xs"
        using pre inr i0 np(2) by (intro drop_swapped) auto
      have hpres: "\<forall>k. hd_except ?d ?mh ?n ?xs k index \<longrightarrow> hp_from ?d ?mh ?n xs' k"
      proof (intro allI impI)
        fix k assume ex: "hd_except ?d ?mh ?n ?xs k index"
        have "hd_except ?d ?mh ?n ?ys k np"
        proof (rule hd_except_swap[OF pre(1) pre(2) _ ex i0(1) i0(2) i0(3)])
          show "?n \<le> int (length ?xs)" using pre by simp
          show "np < ?n" using i0 by simp
          show "better ?mh (item ?xs np) (item ?xs index)" using np(5) ne by simp
          show "\<forall>i. 1 \<le> i \<and> i \<le> ?d \<and> index * ?d + i < ?n
                  \<longrightarrow> at_least ?mh (item ?xs np) (item ?xs (index * ?d + i))"
            using np(6) by auto
        qed
        with xs'(5) show "hp_from ?d ?mh ?n xs' k" by simp
      qed
      from sd xs' m dr hpres show ?thesis by (intro exI[of _ xs']) simp
    qed
  qed
qed

subsection \<open>What validate_heap checks\<close>

lemma validate_heap_from_leaf:
  fixes s :: "('a::linorder) store"
  shows "0 \<le> i \<Longrightarrow> last_index h < parent * branching_factor h + 1 + i \<Longrightarrow>
     validate_heap_from s h parent i = Some (Inr True)"
proof (induction "nat (branching_factor h - i)" arbitrary: i)
  case 0
  then show ?case by (subst validate_heap_from.simps) simp
next
  case (Suc m)
  then have "m = nat (branching_factor h - (i + 1))" by linarith
  from Suc.hyps(1)[OF this] Suc.prems
  have "validate_heap_from s h parent (i + 1) = Some (Inr True)" by simp
  with Suc.prems show ?case by (subst validate_heap_from.simps) (simp add: Let_def)
qed

lemma validate_heap_unfold:
  fixes s :: "('a::linorder) store"
  assumes "1 \<le> branching_factor h" "0 \<le> parent"
    and "last_index h < int (length (cells s (heap_array h)))"
  shows "validate_heap s h parent =
     (if parent * branching_factor h + 1 \<le> last_index h then
        (if better (max_heap h) (item (cells s (heap_array h)) (parent * branching_factor h + 1))
              (item (cells s (heap_array h)) parent)
         then Some (Inr False)
         else validate_heap s h (parent * branching_factor h + 1))
      else Some (Inr True))"
proof (cases "parent * branching_factor h + 1 \<le> last_index h")
  case False
  then have "validate_heap_from s h parent 0 = Some (Inr True)"
    by (intro validate_heap_from_leaf) auto
  with False show ?thesis by (simp add: validate_heap_def)
next
  case True
  have "parent < parent * branching_factor h + 1"
    using assms child_greater[of "branching_factor h" parent 1] by simp
  with True assms have
    "compare s h (parent * branching_factor h + 1) parent
       = Inr (better (max_heap h) (item (cells s (heap_array h)) (parent * branching_factor h + 1))
              (item (cells s (heap_array h)) parent))"
    by (intro compare_in_range) auto
  with True assms show ?thesis
    unfolding validate_heap_def
    by (subst validate_heap_from.simps) (simp add: Let_def)
qed

lemma gap_validates:
  "validate_heap (store_of [5, 3, 9 :: int]) gap_heap 0 = Some (Inr True)"
  by (simp add: validate_heap_def validate_heap_from.simps compare_def getitem_def norm_index_def
        store_of_def gap_heap_def)

lemma gap_violates:
  "\<not> heap_property (store_of [5, 3, 9 :: int]) gap_heap"
proof
  assume "heap_property (store_of [5, 3, 9 :: int]) gap_heap"
  then have "0 \<le> (0::int) \<and> 0 < len gap_heap \<and> 0 \<le> (1::int) \<and> 1 < branching_factor gap_heap
            \<and> 0 * branching_factor gap_heap + 1 + 1 < len gap_heap
        \<longrightarrow> at_least (max_heap gap_heap) (item (cells (store_of [5, 3, 9 :: int]) (heap_array gap_heap)) 0)
              (item (cells (store_of [5, 3, 9 :: int]) (heap_array gap_heap))
                 (0 * branching_factor gap_heap + 1 + 1))"
    unfolding heap_property_def by blast
  then show False
    by (simp add: gap_heap_def store_of_def len_def at_least_def item_def)
qed

subsection \<open>What the methods leave untouched\<close>

lemma rearranged_refl [simp]: "rearranged s r s"
  by (simp add: rearranged_def)

lemma rearranged_trans: "rearranged s r s' \<Longrightarrow> rearranged s' r s'' \<Longrightarrow> rearranged s r s''"
  by (simp add: rearranged_def)

lemma rearranged_length: "rearranged s r s' \<Longrightarrow> length (cells s' r') = length (cells s r')"
  by (cases "r' = r") (auto simp: rearranged_def dest: mset_eq_length)

lemma rearranged_other: "rearranged s r s' \<Longrightarrow> r' \<noteq> r \<Longrightarrow> cells s' r' = cells s r'"
  by (simp add: rearranged_def)

lemma rearranged_mset: "rearranged s r s' \<Longrightarrow> mset (cells s' r') = mset (cells s r')"
  by (cases "r' = r") (auto simp: rearranged_def)

lemma rearranged_next_ref: "rearranged s r s' \<Longrightarrow> next_ref s' = next_ref s"
  by (simp add: rearranged_def)

lemma norm_index_less: "norm_index n i = Some k \<Longrightarrow> k < n"
  by (auto simp: norm_index_def split: if_splits)

lemma swap_rearranged: "swap s h i j = (res, s') \<Longrightarrow> rearranged s (heap_array h) s'"
proof -
  assume a: "swap s h i j = (res, s')"
  let ?xs = "cells s (heap_array h)"
  show ?thesis
  proof (cases "norm_index (length ?xs) i")
    case None
    with a show ?thesis
      by (auto simp: swap_def Let_def getitem_def setitem_def split: option.splits)
  next
    case ki: (Some ki)
    show ?thesis
    proof (cases "norm_index (length ?xs) j")
      case None
      with a show ?thesis
        by (auto simp: swap_def Let_def getitem_def setitem_def split: option.splits)
    next
      case kj: (Some kj)
      from ki kj have lt: "ki < length ?xs" "kj < length ?xs" by (auto dest: norm_index_less)
      from a ki kj have s': "s' = put s (heap_array h) (?xs[ki := ?xs ! kj, kj := ?xs ! ki])"
        by (simp add: swap_def Let_def getitem_def setitem_def)
      have "mset (?xs[ki := ?xs ! kj, kj := ?xs ! ki]) = mset ?xs"
        using lt by (simp add: mset_swap)
      with s' show ?thesis by (simp add: rearranged_def)
    qed
  qed
qed

lemma sift_down_rearranged:
  fixes s :: "('a::linorder) store"
  shows "sift_down s h index = (res, s') \<Longrightarrow> rearranged s (heap_array h) s'"
proof (induction s h index arbitrary: res s' rule: sift_down.induct)
  case (1 s h index)
  show ?case
  proof (cases "sift_down_loop s h index 1 index")
    case (Inl e)
    with "1.prems" show ?thesis by (simp add: sift_down.simps[of s h index])
  next
    case (Inr np)
    show ?thesis
    proof (cases "np = index")
      case True
      with Inr "1.prems" show ?thesis by (simp add: sift_down.simps[of s h index])
    next
      case False
      obtain r1 s1 where sw: "swap s h index np = (r1, s1)" by (cases "swap s h index np")
      have re1: "rearranged s (heap_array h) s1" using sw by (rule swap_rearranged)
      show ?thesis
      proof (cases r1)
        case (Inl e)
        with Inr False sw "1.prems" have "s' = s1" by (simp add: sift_down.simps[of s h index])
        with re1 show ?thesis by simp
      next
        case (Inr u)
        with \<open>sift_down_loop s h index 1 index = Inr np\<close> False sw "1.prems"
        have "sift_down s1 h np = (res, s')" by (simp add: sift_down.simps[of s h index])
        from "1.IH"[OF \<open>sift_down_loop s h index 1 index = Inr np\<close> False sw[symmetric] Inr this]
        have "rearranged s1 (heap_array h) s'" .
        with re1 show ?thesis by (rule rearranged_trans)
      qed
    qed
  qed
qed

lemma sift_up_rearranged_snd:
  fixes s :: "('a::linorder) store"
  assumes ret: "sift_up s h index = Some y"
  shows "rearranged s (heap_array h) (snd y)"
proof (rule sift_up.raw_induct[where P = "\<lambda>s h index y. rearranged s (heap_array h) (snd y)",
         OF _ ret], goal_cases)
  case (1 f s h index y)
  note IH = 1(1) and body = 1(2)
  show ?case
  proof (cases "branching_factor h = 0")
    case True
    with body show ?thesis by auto
  next
    case bf: False
    let ?p = "(index - 1) div branching_factor h"
    show ?thesis
    proof (cases "0 \<le> ?p")
      case False
      with bf body show ?thesis by (auto simp: Let_def)
    next
      case p: True
      show ?thesis
      proof (cases "compare s h index ?p")
        case (Inl e)
        with bf p body show ?thesis by (auto simp: Let_def)
      next
        case (Inr b)
        show ?thesis
        proof (cases b)
          case False
          with Inr bf p body show ?thesis by (auto simp: Let_def)
        next
          case True
          obtain r1 s1 where sw: "swap s h index ?p = (r1, s1)" by (cases "swap s h index ?p")
          have re1: "rearranged s (heap_array h) s1" using sw by (rule swap_rearranged)
          show ?thesis
          proof (cases r1)
            case (Inl e)
            with Inr True bf p sw body have "y = (Inl e, s1)" by (auto simp: Let_def)
            with re1 show ?thesis by simp
          next
            case u: (Inr u)
            with Inr True bf p sw body have "f s1 h ?p = Some y"
              by (auto simp: Let_def)
            from IH[OF this] have "rearranged s1 (heap_array h) (snd y)" .
            with re1 show ?thesis by (rule rearranged_trans)
          qed
        qed
      qed
    qed
  qed
qed

lemma sift_up_rearranged:
  fixes s :: "('a::linorder) store"
  shows "sift_up s h index = Some (res, s') \<Longrightarrow> rearranged s (heap_array h) s'"
  using sift_up_rearranged_snd[of s h index "(res, s')"] by simp

lemma heapify_loop_rearranged:
  fixes s :: "('a::linorder) store"
  shows "heapify_loop s h start = (res, s') \<Longrightarrow> rearranged s (heap_array h) s'"
proof (induction s h start arbitrary: res s' rule: heapify_loop.induct)
  case (1 s h start)
  show ?case
  proof (cases "0 \<le> start")
    case False
    with "1.prems" show ?thesis by (simp add: heapify_loop.simps[of s h start])
  next
    case True
    obtain r1 s1 where sd: "sift_down s h start = (r1, s1)" by (cases "sift_down s h start")
    have re1: "rearranged s (heap_array h) s1" using sd by (rule sift_down_rearranged)
    show ?thesis
    proof (cases r1)
      case (Inl e)
      with True sd "1.prems" have "s' = s1" by (simp add: heapify_loop.simps[of s h start])
      with re1 show ?thesis by simp
    next
      case (Inr u)
      with True sd "1.prems" have "heapify_loop s1 h (start - 1) = (res, s')"
        by (simp add: heapify_loop.simps[of s h start])
      from "1.IH"[OF True sd[symmetric] Inr this] re1 show ?thesis
        by (blast intro: rearranged_trans)
    qed
  qed
qed

lemma heapsort_loop_rearranged:
  fixes s :: "('a::linorder) store"
  shows "heapsort_loop s heap = (res, s') \<Longrightarrow> rearranged s (heap_array heap) s'"
proof (induction s heap arbitrary: res s' rule: heapsort_loop.induct)
  case (1 s heap)
  let ?h1 = "heap\<lparr>last_index := last_index heap - 1\<rparr>"
  show ?case
  proof (cases "0 \<le> last_index heap")
    case False
    with "1.prems" show ?thesis by (simp add: heapsort_loop.simps[of s heap])
  next
    case True
    obtain r1 s1 where sw: "swap s heap 0 (last_index heap) = (r1, s1)"
      by (cases "swap s heap 0 (last_index heap)")
    have re1: "rearranged s (heap_array heap) s1" using sw by (rule swap_rearranged)
    show ?thesis
    proof (cases r1)
      case (Inl e)
      with True sw "1.prems" have "s' = s1" by (simp add: heapsort_loop.simps[of s heap])
      with re1 show ?thesis by simp
    next
      case u1: (Inr u1)
      obtain r2 s2 where sd: "sift_down s1 ?h1 0 = (r2, s2)" by (cases "sift_down s1 ?h1 0")
      have re2: "rearranged s1 (heap_array heap) s2"
        using sift_down_rearranged[OF sd] by simp
      show ?thesis
      proof (cases r2)
        case (Inl e)
        with True sw u1 sd "1.prems" have "s' = s2" by (simp add: heapsort_loop.simps[of s heap])
        with re1 re2 show ?thesis by (blast intro: rearranged_trans)
      next
        case u2: (Inr u2)
        with True sw u1 sd "1.prems" have "heapsort_loop s2 ?h1 = (res, s')"
          by (simp add: heapsort_loop.simps[of s heap])
        from "1.IH"[OF True sw[symmetric] u1 sd[symmetric] u2 this]
        have "rearranged s2 (heap_array heap) s'" by simp
        with re1 re2 show ?thesis by (blast intro: rearranged_trans)
      qed
    qed
  qed
qed

subsection \<open>Sifting up restores the heap order\<close>

lemma hu_except_done:
  assumes "hu_except d mh n xs j"
    and "0 < j \<and> j < n \<longrightarrow> at_least mh (item xs (par d j)) (item xs j)"
  shows "hp_from d mh n xs 0"
  using assms unfolding hu_except_def hp_from_def by metis

lemma hu_except_swap:
  assumes d: "1 \<le> d" and j: "0 < j" "j < n" and n: "n \<le> int (length xs)"
    and ex: "hu_except d mh n xs j"
    and bt: "better mh (item xs j) (item xs (par d j))"
  shows "hu_except d mh n (swapped xs j (par d j)) (par d j)"
proof -
  let ?p = "par d j"
  let ?ys = "swapped xs j ?p"
  have p0: "0 \<le> ?p" using d j by (simp add: par_nonneg)
  have pj: "?p < j" using d j by (simp add: par_less)
  have it: "\<And>c. 0 \<le> c \<Longrightarrow> item ?ys c
      = (if c = ?p then item xs j else if c = j then item xs ?p else item xs c)"
    using p0 pj j n by (simp add: item_swapped)
  have pair: "\<And>c. 0 < c \<Longrightarrow> c < n \<Longrightarrow> c \<noteq> j \<Longrightarrow> at_least mh (item xs (par d c)) (item xs c)"
    using ex by (simp add: hu_except_def)
  have kids: "\<And>c. 0 < c \<Longrightarrow> c < n \<Longrightarrow> par d c = j \<Longrightarrow> at_least mh (item xs ?p) (item xs c)"
    using ex j by (simp add: hu_except_def)
  have first: "\<forall>c. 0 < c \<and> c < n \<and> c \<noteq> ?p \<longrightarrow> at_least mh (item ?ys (par d c)) (item ?ys c)"
  proof (intro allI impI)
    fix c assume c: "0 < c \<and> c < n \<and> c \<noteq> ?p"
    then have c0: "0 < c" by simp
    have q0: "0 \<le> par d c" using d c0 by (rule par_nonneg)
    have ql: "par d c < c" using d c0 by (rule par_less)
    show "at_least mh (item ?ys (par d c)) (item ?ys c)"
    proof (cases "c = j")
      case True
      then show ?thesis using it[of j] it[of ?p] p0 pj j bt by (simp add: better_at_least)
    next
      case cj: False
      have yc: "item ?ys c = item xs c" using it[of c] c cj by simp
      show ?thesis
      proof (cases "par d c = ?p")
        case True
        have "at_least mh (item xs ?p) (item xs c)" using pair[of c] c cj True by simp
        with bt have "at_least mh (item xs j) (item xs c)"
          by (blast intro: better_at_least at_least_trans)
        then show ?thesis using it[of ?p] p0 True yc by simp
      next
        case qp: False
        show ?thesis
        proof (cases "par d c = j")
          case True
          then show ?thesis using kids[of c] c it[of j] j pj yc by simp
        next
          case False
          then show ?thesis using pair[of c] c cj qp it[of "par d c"] q0 yc by simp
        qed
      qed
    qed
  qed
  have second: "0 < ?p \<longrightarrow> (\<forall>c. 0 < c \<and> c < n \<and> par d c = ?p
                     \<longrightarrow> at_least mh (item ?ys (par d ?p)) (item ?ys c))"
  proof (intro allI impI)
    fix c assume pp: "0 < ?p" and c: "0 < c \<and> c < n \<and> par d c = ?p"
    have gp0: "0 \<le> par d ?p" using d pp by (rule par_nonneg)
    have gpl: "par d ?p < ?p" using d pp by (rule par_less)
    have ygp: "item ?ys (par d ?p) = item xs (par d ?p)"
      using it[of "par d ?p"] gp0 gpl pj by simp
    have gp: "at_least mh (item xs (par d ?p)) (item xs ?p)"
      using pair[of ?p] pp pj j by simp
    show "at_least mh (item ?ys (par d ?p)) (item ?ys c)"
    proof (cases "c = j")
      case True
      then show ?thesis using it[of j] j pj ygp gp by simp
    next
      case False
      have "c \<noteq> ?p" using par_less[OF d, of c] c by auto
      then have "item ?ys c = item xs c" using it[of c] c False by simp
      moreover have "at_least mh (item xs ?p) (item xs c)" using pair[of c] c False by simp
      ultimately show ?thesis using ygp gp by (auto intro: at_least_trans)
    qed
  qed
  from first second show ?thesis unfolding hu_except_def by blast
qed

lemma sift_up_spec:
  fixes s :: "('a::linorder) store"
  assumes "1 \<le> branching_factor h" "0 \<le> index"
    and "index < int (length (cells s (heap_array h)))"
  shows "\<exists>xs'. sift_up s h index = Some (Inr (), put s (heap_array h) xs')
      \<and> mset xs' = mset (cells s (heap_array h))
      \<and> (\<forall>n. index < n \<and> n \<le> int (length (cells s (heap_array h)))
              \<and> hu_except (branching_factor h) (max_heap h) n (cells s (heap_array h)) index
            \<longrightarrow> hp_from (branching_factor h) (max_heap h) n xs' 0)"
  using assms
proof (induction "nat index" arbitrary: s index rule: less_induct)
  case less
  let ?d = "branching_factor h"
  let ?xs = "cells s (heap_array h)"
  let ?mh = "max_heap h"
  let ?p = "(index - 1) div ?d"
  note pre = less.prems
  have d0: "?d \<noteq> 0" using pre by simp
  have pp: "?p = par ?d index" by (simp add: par_def)
  show ?case
  proof (cases "0 < index")
    case False
    with pre have i0: "index = 0" by simp
    have "(- 1) div ?d < 0" using pre by (simp add: div_neg_pos_less0)
    with i0 d0 have su: "sift_up s h index = Some (Inr (), s)"
      by (subst sift_up.simps) (simp add: Let_def)
    have "\<forall>n. hu_except ?d ?mh n ?xs index \<longrightarrow> hp_from ?d ?mh n ?xs 0"
      using i0 by (auto intro: hu_except_done)
    with su show ?thesis by (intro exI[of _ ?xs]) simp
  next
    case pos: True
    have p0: "0 \<le> ?p" unfolding pp using pre pos by (intro par_nonneg) auto
    have pl: "?p < index" unfolding pp using pre pos by (intro par_less) auto
    have cmp: "compare s h index ?p = Inr (better ?mh (item ?xs index) (item ?xs ?p))"
      using pre p0 pl by (intro compare_in_range) auto
    show ?thesis
    proof (cases "better ?mh (item ?xs index) (item ?xs ?p)")
      case False
      with d0 p0 cmp have su: "sift_up s h index = Some (Inr (), s)"
        by (subst sift_up.simps) (simp add: Let_def)
      have "\<forall>n. hu_except ?d ?mh n ?xs index \<longrightarrow> hp_from ?d ?mh n ?xs 0"
        using False by (auto intro!: hu_except_done simp: not_better_iff pp)
      with su show ?thesis by (intro exI[of _ ?xs]) simp
    next
      case bt: True
      let ?ys = "swapped ?xs index ?p"
      let ?s' = "put s (heap_array h) ?ys"
      have sw: "swap s h index ?p = (Inr (), ?s')"
        using pre p0 pl by (intro swap_in_range) auto
      have su: "sift_up s h index = sift_up ?s' h ?p"
        using d0 p0 cmp bt sw by (subst sift_up.simps) (simp add: Let_def)
      have "nat ?p < nat index" using p0 pl by simp
      from less.hyps[OF this pre(1) p0, of ?s'] pl pre
      obtain xs' where xs': "sift_up ?s' h ?p = Some (Inr (), put s (heap_array h) xs')"
        "mset xs' = mset ?ys"
        "\<forall>n. ?p < n \<and> n \<le> int (length ?xs) \<and> hu_except ?d ?mh n ?ys ?p
              \<longrightarrow> hp_from ?d ?mh n xs' 0"
        by auto
      have m: "mset ?ys = mset ?xs" using pre p0 pl by (intro mset_swapped) auto
      have "\<forall>n. index < n \<and> n \<le> int (length ?xs) \<and> hu_except ?d ?mh n ?xs index
            \<longrightarrow> hp_from ?d ?mh n xs' 0"
      proof (intro allI impI)
        fix n assume n: "index < n \<and> n \<le> int (length ?xs) \<and> hu_except ?d ?mh n ?xs index"
        have "hu_except ?d ?mh n (swapped ?xs index (par ?d index)) (par ?d index)"
          using pre pos n bt by (intro hu_except_swap) (auto simp: pp)
        with xs'(3) n pl show "hp_from ?d ?mh n xs' 0" by (auto simp: pp)
      qed
      with su xs' m show ?thesis by (intro exI[of _ xs']) simp
    qed
  qed
qed

subsection \<open>The heap property in terms of parents\<close>

lemma heap_property_iff:
  assumes d: "1 \<le> branching_factor h"
  shows "heap_property s h
     = hp_from (branching_factor h) (max_heap h) (len h) (cells s (heap_array h)) 0"
proof
  let ?d = "branching_factor h" and ?xs = "cells s (heap_array h)"
  assume hp: "heap_property s h"
  show "hp_from ?d (max_heap h) (len h) ?xs 0"
    unfolding hp_from_def
  proof (intro allI impI)
    fix c assume c: "0 < c \<and> c < len h \<and> 0 \<le> par ?d c"
    then have c0: "0 < c" by simp
    from child_of_par[OF d c0] obtain i where i: "1 \<le> i" "i \<le> ?d" "c = par ?d c * ?d + i"
      by auto
    have pl: "par ?d c < c" using d c0 by (rule par_less)
    have "0 \<le> par ?d c \<and> par ?d c < len h \<and> 0 \<le> i - 1 \<and> i - 1 < ?d
            \<and> par ?d c * ?d + (i - 1) + 1 < len h"
      using c i pl by auto
    with hp have "at_least (max_heap h) (item ?xs (par ?d c)) (item ?xs (par ?d c * ?d + (i - 1) + 1))"
      unfolding heap_property_def by blast
    with i show "at_least (max_heap h) (item ?xs (par ?d c)) (item ?xs c)" by simp
  qed
next
  let ?d = "branching_factor h" and ?xs = "cells s (heap_array h)"
  assume hp: "hp_from ?d (max_heap h) (len h) ?xs 0"
  show "heap_property s h"
    unfolding heap_property_def
  proof (intro allI impI)
    fix i k
    assume a: "0 \<le> i \<and> i < len h \<and> 0 \<le> k \<and> k < ?d \<and> i * ?d + k + 1 < len h"
    have p: "par ?d (i * ?d + (k + 1)) = i" using d a by (intro par_child) auto
    have "i < i * ?d + (k + 1)" using d a by (intro child_greater) auto
    with a have "0 < i * ?d + (k + 1)" by simp
    moreover have "i * ?d + (k + 1) < len h" using a by simp
    moreover have "0 \<le> par ?d (i * ?d + (k + 1))" using p a by simp
    ultimately have "at_least (max_heap h) (item ?xs (par ?d (i * ?d + (k + 1))))
        (item ?xs (i * ?d + (k + 1)))"
      using hp unfolding hp_from_def by blast
    with p show "at_least (max_heap h) (item ?xs i) (item ?xs (i * ?d + k + 1))"
      by (simp add: add.assoc)
  qed
qed

lemma heap_property_trivial: "branching_factor h < 1 \<Longrightarrow> heap_property s h"
  unfolding heap_property_def by auto

lemma hp_from_root:
  assumes d: "1 \<le> d" and hp: "hp_from d mh n xs 0"
  shows "0 \<le> c \<Longrightarrow> c < n \<Longrightarrow> at_least mh (item xs 0) (item xs c)"
proof (induction "nat c" arbitrary: c rule: less_induct)
  case less
  show ?case
  proof (cases "c = 0")
    case True
    then show ?thesis by (simp add: at_least_refl)
  next
    case False
    with less.prems have c0: "0 < c" by simp
    have p0: "0 \<le> par d c" using d c0 by (rule par_nonneg)
    have pl: "par d c < c" using d c0 by (rule par_less)
    have "at_least mh (item xs 0) (item xs (par d c))"
      using p0 pl less.prems by (intro less.hyps) auto
    moreover have "at_least mh (item xs (par d c)) (item xs c)"
      using hp c0 less.prems p0 by (simp add: hp_from_def)
    ultimately show ?thesis by (rule at_least_trans)
  qed
qed

lemma root_extreme:
  assumes "1 \<le> branching_factor h" "storage_fits s h" "heap_property s h"
    and "x \<in> set (cells s (heap_array h))"
  shows "at_least (max_heap h) (item (cells s (heap_array h)) 0) x"
proof -
  let ?xs = "cells s (heap_array h)"
  from assms(4) obtain k where k: "k < length ?xs" "x = ?xs ! k" by (auto simp: in_set_conv_nth)
  have "at_least (max_heap h) (item ?xs 0) (item ?xs (int k))"
    using assms k
    by (intro hp_from_root[of "branching_factor h" _ "len h"])
       (auto simp: heap_property_iff storage_fits_def len_def)
  with k show ?thesis by (simp add: item_def)
qed

lemma sift_down_no_children:
  fixes s :: "('a::linorder) store"
  assumes "branching_factor h < 1"
  shows "sift_down s h index = (Inr (), s)"
proof -
  have "sift_down_loop s h index 1 index = Inr index"
    using assms by (simp add: sift_down_loop.simps)
  then show ?thesis by (simp add: sift_down.simps)
qed

subsection \<open>push and pop\<close>

lemma item_append_old: "0 \<le> c \<Longrightarrow> c < int (length xs) \<Longrightarrow> item (xs @ ys) c = item xs c"
  by (auto simp: item_def nth_append)

lemma item_take: "0 \<le> c \<Longrightarrow> c < n \<Longrightarrow> item (take (nat n) xs) c = item xs c"
  by (simp add: item_def)

lemma push_shape:
  fixes s :: "('a::linorder) store"
  assumes "push s h v = Some (res, s', h')"
  shows "h' = h\<lparr>last_index := last_index h + 1\<rparr>
       \<and> rearranged (put s (heap_array h) (cells s (heap_array h) @ [v])) (heap_array h) s'"
proof -
  let ?h1 = "h\<lparr>last_index := last_index h + 1\<rparr>"
  let ?s1 = "put s (heap_array h) (cells s (heap_array h) @ [v])"
  from assms have "sift_up ?s1 ?h1 (last_index h + 1) = Some (res, s')" and "h' = ?h1"
    by (auto simp: push_def Let_def split: option.splits)
  with sift_up_rearranged[of ?s1 ?h1 "last_index h + 1" res s'] show ?thesis by simp
qed

lemma push_storage_fits:
  fixes s :: "('a::linorder) store"
  assumes "push s h v = Some (res, s', h')" "storage_fits s h"
  shows "storage_fits s' h'"
  using push_shape[OF assms(1)] assms(2)
    rearranged_length[of "put s (heap_array h) (cells s (heap_array h) @ [v])" "heap_array h" s'
      "heap_array h"]
  by (auto simp: storage_fits_def)

lemma push_spec:
  fixes s :: "('a::linorder) store"
  assumes d: "1 \<le> branching_factor h" and fits: "storage_fits s h"
  shows "\<exists>xs'. push s h v = Some (Inr (), put s (heap_array h) xs', h\<lparr>last_index := last_index h + 1\<rparr>)
      \<and> mset xs' = add_mset v (mset (cells s (heap_array h)))
      \<and> (heap_property s h
            \<longrightarrow> heap_property (put s (heap_array h) xs') (h\<lparr>last_index := last_index h + 1\<rparr>))"
proof -
  let ?d = "branching_factor h" and ?mh = "max_heap h" and ?r = "heap_array h"
  let ?xs = "cells s ?r"
  let ?h1 = "h\<lparr>last_index := last_index h + 1\<rparr>"
  let ?s1 = "put s ?r (?xs @ [v])"
  let ?n = "last_index h + 1"
  have len: "int (length ?xs) = ?n" using fits by (simp add: storage_fits_def)
  have n0: "0 \<le> ?n" using len by linarith
  from sift_up_spec[of ?h1 ?n ?s1] d len n0
  obtain xs' where xs': "sift_up ?s1 ?h1 ?n = Some (Inr (), put s ?r xs')"
    "mset xs' = mset (?xs @ [v])"
    "\<forall>n. ?n < n \<and> n \<le> int (length (?xs @ [v])) \<and> hu_except ?d ?mh n (?xs @ [v]) ?n
        \<longrightarrow> hp_from ?d ?mh n xs' 0"
    by auto
  have p: "push s h v = Some (Inr (), put s ?r xs', ?h1)"
    using xs'(1) by (simp add: push_def Let_def)
  have "heap_property s h \<longrightarrow> heap_property (put s ?r xs') ?h1"
  proof
    assume "heap_property s h"
    then have hp: "hp_from ?d ?mh ?n ?xs 0" using d by (simp add: heap_property_iff len_def)
    have "hu_except ?d ?mh (?n + 1) (?xs @ [v]) ?n"
      unfolding hu_except_def
    proof (intro conjI allI impI)
      fix c assume c: "0 < c \<and> c < ?n + 1 \<and> c \<noteq> ?n"
      then have c0: "0 < c" and cn: "c < ?n" by auto
      have p0: "0 \<le> par ?d c" using d c0 by (rule par_nonneg)
      have pl: "par ?d c < c" using d c0 by (rule par_less)
      have "at_least ?mh (item ?xs (par ?d c)) (item ?xs c)"
        using hp c0 cn p0 by (simp add: hp_from_def)
      then show "at_least ?mh (item (?xs @ [v]) (par ?d c)) (item (?xs @ [v]) c)"
        using c0 cn p0 pl len by (simp add: item_append_old)
    next
      fix c assume "0 < ?n" and c: "0 < c \<and> c < ?n + 1 \<and> par ?d c = ?n"
      then have "par ?d c < c" using d by (intro par_less) auto
      with c show "at_least ?mh (item (?xs @ [v]) (par ?d ?n)) (item (?xs @ [v]) c)" by simp
    qed
    with xs'(3) len have "hp_from ?d ?mh (?n + 1) xs' 0" by auto
    then show "heap_property (put s ?r xs') ?h1"
      using d by (simp add: heap_property_iff len_def)
  qed
  with p xs'(2) show ?thesis by (intro exI[of _ xs']) simp
qed

lemma pop_empty:
  fixes s :: "('a::linorder) store"
  assumes "storage_fits s h" "len h = 0"
  shows "pop s h = (Inl IndexError, s, h)"
  using assms
  by (simp add: pop_def peek_def getitem_def norm_index_def storage_fits_def len_def)

lemma pop_nonempty:
  fixes s :: "('a::linorder) store"
  assumes fits: "storage_fits s h" and ne: "len h \<noteq> 0"
  shows "\<exists>xs'. pop s h = (Inr (item (cells s (heap_array h)) 0), put s (heap_array h) xs',
                          h\<lparr>last_index := last_index h - 1\<rparr>)
      \<and> add_mset (item (cells s (heap_array h)) 0) (mset xs') = mset (cells s (heap_array h))
      \<and> (1 \<le> branching_factor h \<and> heap_property s h
            \<longrightarrow> heap_property (put s (heap_array h) xs') (h\<lparr>last_index := last_index h - 1\<rparr>))"
proof -
  let ?d = "branching_factor h" and ?mh = "max_heap h" and ?r = "heap_array h"
  let ?xs = "cells s ?r"
  let ?li = "last_index h"
  let ?h1 = "h\<lparr>last_index := ?li - 1\<rparr>"
  have len: "int (length ?xs) = ?li + 1" using fits by (simp add: storage_fits_def)
  have li0: "0 \<le> ?li" using len ne by (simp add: len_def)
  have pk: "peek s h = Inr (item ?xs 0)"
    using len li0 by (simp add: peek_def getitem_in_range)
  let ?ys = "swapped ?xs 0 ?li"
  let ?s1 = "put s ?r ?ys"
  have sw: "swap s h 0 ?li = (Inr (), ?s1)" using len li0 by (intro swap_in_range) auto
  have ylast: "?ys ! nat ?li = item ?xs 0"
    using item_swapped[of 0 ?xs ?li ?li] len li0 by (simp add: item_def)
  let ?zs = "take (nat ?li) ?ys"
  have nli: "nat ?li = length ?ys - 1" "Suc (nat ?li) = length ?ys" using len li0 by auto
  have lp: "list_pop ?ys ?li = Inr (item ?xs 0, ?zs)"
    using len li0 ylast by (simp add: list_pop_def norm_index_nonneg)
  let ?s2 = "put s ?r ?zs"
  have popeq: "pop s h = (case sift_down ?s2 ?h1 0 of
                   (Inl e, s3) \<Rightarrow> (Inl e, s3, ?h1)
                 | (Inr u, s3) \<Rightarrow> (Inr (item ?xs 0), s3, ?h1))"
    using pk sw lp by (simp add: pop_def Let_def)
  have ms: "add_mset (item ?xs 0) (mset ?zs) = mset ?xs"
  proof -
    have "0 < int (length ?ys)" using len li0 by simp
    then have ne': "?ys \<noteq> []" by (cases ?ys) simp_all
    have "?zs = butlast ?ys" using nli by (simp add: butlast_conv_take)
    moreover have "last ?ys = item ?xs 0" using ylast ne' nli by (simp add: last_conv_nth)
    moreover have "mset (butlast ?ys) + {#last ?ys#} = mset ?ys"
      using ne' by (metis append_butlast_last_id mset.simps(2) mset_append add_mset_add_single mset.simps(1))
    moreover have "mset ?ys = mset ?xs" using len li0 by (intro mset_swapped) auto
    ultimately show ?thesis by simp
  qed
  show ?thesis
  proof (cases "1 \<le> ?d")
    case False
    then have "sift_down ?s2 ?h1 0 = (Inr (), ?s2)" by (intro sift_down_no_children) simp
    with popeq ms False show ?thesis by (intro exI[of _ ?zs]) simp
  next
    case d: True
    have len2: "last_index ?h1 < int (length (cells ?s2 (heap_array ?h1)))"
      using len li0 by simp
    have d1: "1 \<le> branching_factor ?h1" using d by simp
    from sift_down_spec[OF d1 order_refl len2]
    obtain xs' where xs': "sift_down ?s2 ?h1 0 = (Inr (), put s ?r xs')"
      "mset xs' = mset ?zs"
      "\<forall>k. hd_except ?d ?mh ?li ?zs k 0 \<longrightarrow> hp_from ?d ?mh ?li xs' k"
      by auto
    have "heap_property s h \<longrightarrow> heap_property (put s ?r xs') ?h1"
    proof
      assume "heap_property s h"
      then have hp: "hp_from ?d ?mh (?li + 1) ?xs 0" using d by (simp add: heap_property_iff len_def)
      have "hd_except ?d ?mh ?li ?zs 0 0"
        unfolding hd_except_def
      proof (intro conjI allI impI)
        fix c assume c: "0 < c \<and> c < ?li \<and> 0 \<le> par ?d c \<and> par ?d c \<noteq> 0"
        then have c0: "0 < c" by simp
        have pl: "par ?d c < c" using d c0 by (rule par_less)
        have "item ?zs c = item ?ys c" "item ?zs (par ?d c) = item ?ys (par ?d c)"
          using c pl by (simp_all add: item_take)
        moreover have "item ?ys c = item ?xs c" "item ?ys (par ?d c) = item ?xs (par ?d c)"
          using c pl len li0 by (simp_all add: item_swapped)
        moreover have "at_least ?mh (item ?xs (par ?d c)) (item ?xs c)"
          using hp c by (simp add: hp_from_def)
        ultimately show "at_least ?mh (item ?zs (par ?d c)) (item ?zs c)" by simp
      qed simp
      with xs'(3) have "hp_from ?d ?mh ?li xs' 0" by simp
      then show "heap_property (put s ?r xs') ?h1" using d by (simp add: heap_property_iff len_def)
    qed
    with popeq xs' ms show ?thesis by (intro exI[of _ xs']) simp
  qed
qed

lemma pop_storage_fits:
  fixes s :: "('a::linorder) store"
  assumes "pop s h = (res, s', h')" "storage_fits s h"
  shows "storage_fits s' h'"
proof (cases "len h = 0")
  case True
  with assms pop_empty[of s h] show ?thesis by simp
next
  case False
  from pop_nonempty[OF assms(2) False] assms(1) obtain xs' where
    "s' = put s (heap_array h) xs'" "h' = h\<lparr>last_index := last_index h - 1\<rparr>"
    "add_mset (item (cells s (heap_array h)) 0) (mset xs') = mset (cells s (heap_array h))"
    by auto
  moreover from this(3) have "Suc (length xs') = length (cells s (heap_array h))"
    by (metis size_add_mset size_mset)
  ultimately show ?thesis using assms(2) by (auto simp: storage_fits_def)
qed

subsection \<open>The invariant of a heap object\<close>

lemma push_preserves:
  fixes s :: "('a::linorder) store"
  assumes p: "push s h v = Some (res, s', h')"
    and fits: "storage_fits s h" and hp: "heap_property s h"
  shows "storage_fits s' h' \<and> heap_property s' h'"
proof (cases "1 \<le> branching_factor h")
  case True
  from push_spec[OF True fits, of v] p hp have "heap_property s' h'" by auto
  with push_storage_fits[OF p fits] show ?thesis by simp
next
  case False
  from push_shape[OF p] False have "branching_factor h' < 1" by simp
  then have "heap_property s' h'" by (rule heap_property_trivial)
  with push_storage_fits[OF p fits] show ?thesis by simp
qed

lemma pop_preserves:
  fixes s :: "('a::linorder) store"
  assumes p: "pop s h = (res, s', h')"
    and fits: "storage_fits s h" and hp: "heap_property s h"
  shows "storage_fits s' h' \<and> heap_property s' h'"
proof (cases "len h = 0")
  case True
  with pop_empty[OF fits True] p fits hp show ?thesis by simp
next
  case ne: False
  from pop_nonempty[OF fits ne] p obtain xs' where
    x: "s' = put s (heap_array h) xs'" "h' = h\<lparr>last_index := last_index h - 1\<rparr>"
    "1 \<le> branching_factor h \<and> heap_property s h \<longrightarrow> heap_property s' h'"
    by auto
  have "heap_property s' h'"
  proof (cases "1 \<le> branching_factor h")
    case True
    with x hp show ?thesis by simp
  next
    case False
    with x have "branching_factor h' < 1" by simp
    then show ?thesis by (rule heap_property_trivial)
  qed
  with pop_storage_fits[OF p fits] show ?thesis by simp
qed

lemma DHeap_new_valid:
  "DHeap_new s mh bf = (s0, h0) \<Longrightarrow>
     storage_fits s0 h0 \<and> heap_property s0 h0 \<and> heap_array h0 = next_ref s
     \<and> cells s0 (heap_array h0) = [] \<and> max_heap h0 = mh \<and> branching_factor h0 = bf
     \<and> last_index h0 = - 1
     \<and> next_ref s0 = Suc (next_ref s) \<and> (\<forall>r. r \<noteq> next_ref s \<longrightarrow> cells s0 r = cells s r)"
  by (auto simp: DHeap_new_def storage_fits_def heap_property_def len_def)

lemma init_loop_post:
  fixes s :: "('a::linorder) store"
  assumes ret: "init_loop s h src i = Some y"
  shows "src \<noteq> heap_array h \<and> storage_fits s h \<and> heap_property s h \<longrightarrow> init_post s h src i y"
proof (rule init_loop.raw_induct[where P = "\<lambda>s h src i y.
         src \<noteq> heap_array h \<and> storage_fits s h \<and> heap_property s h \<longrightarrow> init_post s h src i y",
         OF _ ret], goal_cases)
  case (1 f s h src i y)
  note IH = 1(1) and body = 1(2)
  show ?case
  proof
    assume pre: "src \<noteq> heap_array h \<and> storage_fits s h \<and> heap_property s h"
    show "init_post s h src i y"
    proof (cases "i < length (cells s src)")
      case False
      with body have "y = (Inr (), s, h)" by simp
      with pre False show ?thesis by (simp add: init_post_def)
    next
      case lt: True
      let ?v = "cells s src ! i"
      from lt body obtain r1 s1 h1 where p: "push s h ?v = Some (r1, s1, h1)"
        by (auto split: option.splits)
      from push_shape[OF p] have h1: "h1 = h\<lparr>last_index := last_index h + 1\<rparr>"
        and re: "rearranged (put s (heap_array h) (cells s (heap_array h) @ [?v])) (heap_array h) s1"
        by auto
      from push_preserves[OF p] pre have v1: "storage_fits s1 h1" "heap_property s1 h1" by auto
      have fr: "next_ref s1 = next_ref s" "\<forall>r. r \<noteq> heap_array h \<longrightarrow> cells s1 r = cells s r"
        using re by (auto simp: rearranged_def)
      have ms: "mset (cells s1 (heap_array h)) = add_mset ?v (mset (cells s (heap_array h)))"
        using re by (simp add: rearranged_def)
      show ?thesis
      proof (cases r1)
        case (Inl e)
        with lt p body have "y = (Inl e, s1, h1)" by simp
        with h1 v1 fr show ?thesis by (simp add: init_post_def)
      next
        case (Inr u)
        with lt p body have "f s1 h1 src (Suc i) = Some y" by simp
        from IH[OF this] pre h1 v1 have post: "init_post s1 h1 src (Suc i) y" by simp
        have src1: "cells s1 src = cells s src" using fr pre by simp
        have "drop i (cells s src) = ?v # drop (Suc i) (cells s src)"
          using lt by (simp add: Cons_nth_drop_Suc)
        with post h1 fr ms src1 show ?thesis
          by (auto simp: init_post_def)
      qed
    qed
  qed
qed

lemma init_loop_returns:
  fixes s :: "('a::linorder) store"
  assumes "1 \<le> branching_factor h" "storage_fits s h" "src \<noteq> heap_array h"
  shows "\<exists>s' h'. init_loop s h src i = Some (Inr (), s', h')"
  using assms
proof (induction "length (cells s src) - i" arbitrary: s h i)
  case 0
  then show ?case by (subst init_loop.simps) simp
next
  case (Suc m)
  let ?v = "cells s src ! i"
  from Suc.hyps(2) have lt: "i < length (cells s src)" by simp
  from push_spec[OF Suc.prems(1,2), of ?v] obtain xs' where
    p: "push s h ?v = Some (Inr (), put s (heap_array h) xs', h\<lparr>last_index := last_index h + 1\<rparr>)"
    by auto
  let ?s1 = "put s (heap_array h) xs'" and ?h1 = "h\<lparr>last_index := last_index h + 1\<rparr>"
  have src1: "cells ?s1 src = cells s src" using Suc.prems(3) by simp
  have m: "m = length (cells ?s1 src) - Suc i" using Suc.hyps(2) src1 by simp
  have f1: "storage_fits ?s1 ?h1" using push_storage_fits[OF p Suc.prems(2)] .
  have "\<exists>s' h'. init_loop ?s1 ?h1 src (Suc i) = Some (Inr (), s', h')"
    by (rule Suc.hyps(1)[OF m _ f1]) (use Suc.prems in auto)
  then obtain s' h' where "init_loop ?s1 ?h1 src (Suc i) = Some (Inr (), s', h')" by blast
  with lt p show ?case by (subst init_loop.simps) simp
qed

subsection \<open>heapify\<close>

lemma par_mono: "1 \<le> d \<Longrightarrow> c \<le> c' \<Longrightarrow> par d c \<le> par d c'"
  by (simp add: par_def zdiv_mono1)

lemma hp_from_mono: "hp_from d mh n xs k \<Longrightarrow> k \<le> k' \<Longrightarrow> hp_from d mh n xs k'"
  by (auto simp: hp_from_def)

lemma hp_from_neg:
  assumes "1 \<le> d" "k \<le> 0" "hp_from d mh n xs k"
  shows "hp_from d mh n xs 0"
  unfolding hp_from_def
proof (intro allI impI)
  fix c assume c: "0 < c \<and> c < n \<and> 0 \<le> par d c"
  with assms(2) have "0 < c \<and> c < n \<and> k \<le> par d c" by simp
  with assms(3) show "at_least mh (item xs (par d c)) (item xs c)"
    unfolding hp_from_def by blast
qed

lemma heapify_loop_no_children:
  fixes s :: "('a::linorder) store"
  shows "branching_factor h < 1 \<Longrightarrow> heapify_loop s h start = (Inr (), s)"
proof (induction s h start rule: heapify_loop.induct)
  case (1 s h start)
  show ?case
  proof (cases "0 \<le> start")
    case False
    then show ?thesis by (simp add: heapify_loop.simps)
  next
    case True
    have sd: "sift_down s h start = (Inr (), s)" using "1.prems" by (rule sift_down_no_children)
    from "1.IH"[OF True sd[symmetric] refl "1.prems"] True sd show ?thesis
      by (simp add: heapify_loop.simps[of s h start])
  qed
qed

lemma heapify_loop_spec:
  fixes s :: "('a::linorder) store"
  assumes "1 \<le> branching_factor h"
    and "last_index h < int (length (cells s (heap_array h)))"
  shows "\<exists>xs'. heapify_loop s h start = (Inr (), put s (heap_array h) xs')
      \<and> mset xs' = mset (cells s (heap_array h))
      \<and> drop (nat (last_index h + 1)) xs' = drop (nat (last_index h + 1)) (cells s (heap_array h))
      \<and> (hp_from (branching_factor h) (max_heap h) (last_index h + 1)
              (cells s (heap_array h)) (start + 1)
            \<longrightarrow> hp_from (branching_factor h) (max_heap h) (last_index h + 1) xs' 0)"
  using assms
proof (induction s h start rule: heapify_loop.induct)
  case (1 s h start)
  let ?d = "branching_factor h" and ?mh = "max_heap h" and ?r = "heap_array h"
  let ?xs = "cells s ?r" and ?n = "last_index h + 1"
  note pre = "1.prems"
  show ?case
  proof (cases "0 \<le> start")
    case False
    then have "heapify_loop s h start = (Inr (), s)" by (simp add: heapify_loop.simps)
    moreover have "hp_from ?d ?mh ?n ?xs (start + 1) \<longrightarrow> hp_from ?d ?mh ?n ?xs 0"
      using pre(1) False hp_from_neg[of ?d "start + 1" ?mh ?n ?xs] by simp
    ultimately show ?thesis by (intro exI[of _ ?xs]) simp
  next
    case st: True
    from sift_down_spec[OF pre(1) st pre(2)]
    obtain ys where ys: "sift_down s h start = (Inr (), put s ?r ys)"
      "length ys = length ?xs" "mset ys = mset ?xs"
      "drop (nat ?n) ys = drop (nat ?n) ?xs"
      "\<forall>k. hd_except ?d ?mh ?n ?xs k start \<longrightarrow> hp_from ?d ?mh ?n ys k"
      by auto
    let ?s1 = "put s ?r ys"
    have "\<exists>xs'. heapify_loop ?s1 h (start - 1) = (Inr (), put ?s1 (heap_array h) xs')
      \<and> mset xs' = mset (cells ?s1 (heap_array h))
      \<and> drop (nat ?n) xs' = drop (nat ?n) (cells ?s1 (heap_array h))
      \<and> (hp_from ?d ?mh ?n (cells ?s1 (heap_array h)) (start - 1 + 1)
            \<longrightarrow> hp_from ?d ?mh ?n xs' 0)"
      by (rule "1.IH"[OF st ys(1)[symmetric] refl pre(1)]) (use pre ys in simp)
    then obtain xs' where xs': "heapify_loop ?s1 h (start - 1) = (Inr (), put s ?r xs')"
      "mset xs' = mset ys" "drop (nat ?n) xs' = drop (nat ?n) ys"
      "hp_from ?d ?mh ?n ys start \<longrightarrow> hp_from ?d ?mh ?n xs' 0"
      by auto
    have eq: "heapify_loop s h start = heapify_loop ?s1 h (start - 1)"
      using st ys(1) by (simp add: heapify_loop.simps[of s h start])
    have "hp_from ?d ?mh ?n ?xs (start + 1) \<longrightarrow> hp_from ?d ?mh ?n xs' 0"
    proof
      assume hp: "hp_from ?d ?mh ?n ?xs (start + 1)"
      have "hd_except ?d ?mh ?n ?xs start start"
        unfolding hd_except_def
      proof (intro conjI allI impI)
        fix c assume "0 < c \<and> c < ?n \<and> start \<le> par ?d c \<and> par ?d c \<noteq> start"
        with hp show "at_least ?mh (item ?xs (par ?d c)) (item ?xs c)"
          by (simp add: hp_from_def)
      next
        fix c assume a: "0 < start \<and> start \<le> par ?d start"
        then have "par ?d start < start" using pre(1) by (intro par_less) auto
        with a show "at_least ?mh (item ?xs (par ?d start)) (item ?xs c)" by simp
      qed
      with ys(5) xs'(4) show "hp_from ?d ?mh ?n xs' 0" by simp
    qed
    with eq xs' ys show ?thesis by (intro exI[of _ xs']) simp
  qed
qed

lemma heapify_spec:
  fixes s :: "('a::linorder) store"
  assumes r: "r < next_ref s" and bf: "bf \<noteq> 0"
  shows "\<exists>xs' s'. heapify s r mh bf
        = (Inr \<lparr>heap_array = r, last_index = int (length (cells s r)) - 1,
                max_heap = mh, branching_factor = bf\<rparr>, s')
      \<and> cells s' r = xs' \<and> mset xs' = mset (cells s r)
      \<and> next_ref s' = Suc (next_ref s)
      \<and> (\<forall>r'. r' \<noteq> r \<and> r' \<noteq> next_ref s \<longrightarrow> cells s' r' = cells s r')
      \<and> heap_property s' \<lparr>heap_array = r, last_index = int (length (cells s r)) - 1,
                max_heap = mh, branching_factor = bf\<rparr>"
proof -
  let ?s0 = "s\<lparr>cells := (cells s)(next_ref s := []), next_ref := Suc (next_ref s)\<rparr>"
  let ?heap = "\<lparr>heap_array = r, last_index = int (length (cells s r)) - 1,
                max_heap = mh, branching_factor = bf\<rparr>"
  let ?start = "(last_index ?heap - 1) div bf"
  have rn: "r \<noteq> next_ref s" using r by simp
  have c0: "cells ?s0 r = cells s r" using rn by simp
  have hf: "heapify s r mh bf = (case heapify_loop ?s0 ?heap ?start of
              (Inl e, s1) \<Rightarrow> (Inl e, s1) | (Inr u, s1) \<Rightarrow> (Inr ?heap, s1))"
    using bf rn by (simp add: heapify_def DHeap_new_def Let_def split: prod.splits sum.splits)
  show ?thesis
  proof (cases "1 \<le> bf")
    case False
    then have "heapify_loop ?s0 ?heap ?start = (Inr (), ?s0)"
      by (intro heapify_loop_no_children) simp
    moreover have "heap_property ?s0 ?heap" using False by (intro heap_property_trivial) simp
    ultimately show ?thesis using hf c0 by simp
  next
    case d: True
    have d1: "1 \<le> branching_factor ?heap" using d by simp
    have l1: "last_index ?heap < int (length (cells ?s0 (heap_array ?heap)))" using c0 by simp
    from heapify_loop_spec[OF d1 l1, of ?start]
    obtain xs' where xs': "heapify_loop ?s0 ?heap ?start = (Inr (), put ?s0 r xs')"
      "mset xs' = mset (cells s r)"
      "hp_from bf mh (int (length (cells s r))) (cells s r) (?start + 1)
         \<longrightarrow> hp_from bf mh (int (length (cells s r))) xs' 0"
      using c0 by auto
    have "hp_from bf mh (int (length (cells s r))) (cells s r) (?start + 1)"
      unfolding hp_from_def
    proof (intro allI impI)
      fix c assume c: "0 < c \<and> c < int (length (cells s r)) \<and> ?start + 1 \<le> par bf c"
      then have "par bf c \<le> par bf (int (length (cells s r)) - 1)"
        using d by (intro par_mono) auto
      with c show "at_least mh (item (cells s r) (par bf c)) (item (cells s r) c)"
        by (simp add: par_def)
    qed
    with xs'(3) have "hp_from bf mh (int (length (cells s r))) xs' 0" by simp
    then have "heap_property (put ?s0 r xs') ?heap"
      using d by (simp add: heap_property_iff len_def)
    with hf xs' show ?thesis by (intro exI[of _ xs'] exI[of _ "put ?s0 r xs'"]) simp
  qed
qed

lemma DHeap_init_from_post:
  fixes s :: "('a::linorder) store"
  assumes src: "src < next_ref s"
    and ret: "DHeap_init s (Some src) mh bf = Some (res, s')"
  shows "cells s' src = cells s src
     \<and> (\<forall>h. res = Inr h \<longrightarrow> heap_array h = next_ref s \<and> max_heap h = mh \<and> branching_factor h = bf
            \<and> storage_fits s' h \<and> heap_property s' h
            \<and> mset (cells s' (heap_array h)) = mset (cells s src))"
proof -
  obtain s0 h0 where new: "DHeap_new s mh bf = (s0, h0)" by (cases "DHeap_new s mh bf")
  from DHeap_new_valid[OF new] have n:
    "storage_fits s0 h0" "heap_property s0 h0" "heap_array h0 = next_ref s"
    "cells s0 (heap_array h0) = []" "max_heap h0 = mh" "branching_factor h0 = bf"
    "\<forall>r. r \<noteq> next_ref s \<longrightarrow> cells s0 r = cells s r"
    by auto
  from ret new obtain r1 s1 h1 where lp: "init_loop s0 h0 src 0 = Some (r1, s1, h1)"
    and res: "res = (case r1 of Inl e \<Rightarrow> Inl e | Inr u \<Rightarrow> Inr h1)" and s': "s' = s1"
    by (auto simp: DHeap_init_def split: option.splits sum.splits)
  have ne: "src \<noteq> heap_array h0" using src n(3) by simp
  from init_loop_post[OF lp] ne n have "init_post s0 h0 src 0 (r1, s1, h1)" by simp
  then have post: "heap_array h1 = heap_array h0" "max_heap h1 = mh" "branching_factor h1 = bf"
    "\<forall>r. r \<noteq> heap_array h0 \<longrightarrow> cells s1 r = cells s0 r"
    "storage_fits s1 h1" "heap_property s1 h1"
    "r1 = Inr () \<longrightarrow> mset (cells s1 (heap_array h0)) = mset (cells s0 src)"
    using n by (auto simp: init_post_def)
  have c: "cells s0 src = cells s src" using n(7) src by simp
  have "cells s1 src = cells s src" using post(4) ne c by simp
  with res s' post n c show ?thesis by (auto split: sum.splits)
qed

lemma reachable_invariant:
  fixes s :: "('a::linorder) store"
  assumes "reachable s h"
  shows "storage_fits s h \<and> heap_property s h"
  using assms
proof (induction rule: reachable.induct)
  case (by_constructor s mh bf h s')
  then show ?case
    by (auto simp: DHeap_init_def split: prod.splits dest: DHeap_new_valid)
next
  case (by_constructor_from src s mh bf h s')
  from DHeap_init_from_post[OF this] show ?case by simp
next
  case (by_heapify r s mh bf h s')
  have bf: "bf \<noteq> 0" using by_heapify(2)
    by (auto simp: heapify_def DHeap_new_def Let_def)
  from heapify_spec[OF by_heapify(1) bf, of mh] by_heapify(2)
  have "heap_property s' h" "h = \<lparr>heap_array = r, last_index = int (length (cells s r)) - 1,
                max_heap = mh, branching_factor = bf\<rparr>"
    "mset (cells s' r) = mset (cells s r)"
    by auto
  moreover from this(3) have "length (cells s' r) = length (cells s r)" by (rule mset_eq_length)
  ultimately show ?case by (simp add: storage_fits_def)
next
  case (after_push s h v res s' h')
  then show ?case using push_preserves by blast
next
  case (after_pop s h res' s' h')
  then show ?case using pop_preserves by blast
qed

subsection \<open>The loop of the constructor\<close>

lemma init_loop_is_push_all:
  fixes s :: "('a::linorder) store"
  assumes "src \<noteq> heap_array h"
  shows "init_loop s h src i = push_all s h (drop i (cells s src))"
  using assms
proof (induction "length (cells s src) - i" arbitrary: s h i)
  case 0
  then show ?case by (subst init_loop.simps) simp
next
  case (Suc m)
  let ?v = "cells s src ! i"
  from Suc.hyps(2) have lt: "i < length (cells s src)" by simp
  then have dr: "drop i (cells s src) = ?v # drop (Suc i) (cells s src)"
    by (simp add: Cons_nth_drop_Suc)
  show ?case
  proof (cases "push s h ?v")
    case None
    with lt dr show ?thesis by (subst init_loop.simps) simp
  next
    case (Some y)
    obtain r1 s1 h1 where y: "y = (r1, s1, h1)" by (cases y)
    from push_shape[OF Some[unfolded y]] Suc.prems
    have h1: "heap_array h1 = heap_array h" and c1: "cells s1 src = cells s src"
      by (auto simp: rearranged_def)
    show ?thesis
    proof (cases r1)
      case (Inl e)
      with Some y lt dr show ?thesis by (subst init_loop.simps) simp
    next
      case (Inr u)
      have "m = length (cells s1 src) - Suc i" using Suc.hyps(2) c1 by simp
      from Suc.hyps(1)[OF this] Suc.prems h1 c1
      have "init_loop s1 h1 src (Suc i) = push_all s1 h1 (drop (Suc i) (cells s src))" by simp
      with Some y Inr lt dr show ?thesis by (subst init_loop.simps) simp
    qed
  qed
qed

subsection \<open>Popping everything\<close>

lemma sorted_by_at_least:
  assumes "sorted_wrt (at_least mh) ys" "mset ys = mset xs"
  shows "ys = (if mh then rev (sort xs) else sort xs)"
proof (cases mh)
  case True
  with assms(1) have "sorted_wrt (\<lambda>a b. a \<ge> b) ys" by (simp add: at_least_def[abs_def])
  then have "sorted (rev ys)" by (simp add: sorted_wrt_rev)
  moreover have "mset (rev ys) = mset xs" using assms(2) by simp
  ultimately have "sort xs = rev ys" by (intro properties_for_sort) auto
  then have "rev (sort xs) = ys" by simp
  with True show ?thesis by simp
next
  case False
  with assms(1) have "sorted ys" by (simp add: at_least_def[abs_def])
  with assms(2) have "sort xs = ys" by (intro properties_for_sort) auto
  with False show ?thesis by simp
qed

lemma pop_n_spec:
  fixes s :: "('a::linorder) store"
  assumes "1 \<le> branching_factor h" "storage_fits s h" "heap_property s h"
    and "n = nat (len h)"
  shows "\<exists>ys s' h'. pop_n n s h = (Inr ys, s', h') \<and> len h' = 0
      \<and> heap_array h' = heap_array h
      \<and> mset ys = mset (cells s (heap_array h))
      \<and> sorted_wrt (at_least (max_heap h)) ys"
  using assms
proof (induction n arbitrary: s h)
  case 0
  then have "int (length (cells s (heap_array h))) \<le> 0" by (simp add: storage_fits_def len_def)
  then have "cells s (heap_array h) = []" by simp
  with 0 show ?case by (simp add: storage_fits_def len_def)
next
  case (Suc n)
  let ?xs = "cells s (heap_array h)"
  let ?root = "item ?xs 0"
  let ?h1 = "h\<lparr>last_index := last_index h - 1\<rparr>"
  have ne: "len h \<noteq> 0" using Suc.prems(4) by auto
  from pop_nonempty[OF Suc.prems(2) ne] Suc.prems(1,3)
  obtain xs' where p: "pop s h = (Inr ?root, put s (heap_array h) xs', ?h1)"
    and ms: "add_mset ?root (mset xs') = mset ?xs"
    and hp1: "heap_property (put s (heap_array h) xs') ?h1"
    by auto
  let ?s1 = "put s (heap_array h) xs'"
  have f1: "storage_fits ?s1 ?h1" using pop_storage_fits[OF p Suc.prems(2)] .
  have n1: "n = nat (len ?h1)" using Suc.prems(4) by (simp add: len_def)
  have d1: "1 \<le> branching_factor ?h1" using Suc.prems(1) by simp
  from Suc.IH[OF d1 f1 hp1 n1]
  obtain ys s' h' where r: "pop_n n ?s1 ?h1 = (Inr ys, s', h')" "len h' = 0"
    "heap_array h' = heap_array h" "mset ys = mset xs'"
    "sorted_wrt (at_least (max_heap h)) ys"
    by auto
  have "\<forall>y\<in>set ys. at_least (max_heap h) ?root y"
  proof
    fix y assume "y \<in> set ys"
    then have "y \<in># mset xs'" using r(4) by (metis set_mset_mset)
    then have "y \<in># mset ?xs" using ms by (metis union_single_eq_member insert_iff set_mset_add_mset_insert)
    then have "y \<in> set ?xs" by simp
    with root_extreme[OF Suc.prems(1,2,3)] show "at_least (max_heap h) ?root y" by simp
  qed
  with r(5) have "sorted_wrt (at_least (max_heap h)) (?root # ys)" by simp
  moreover have "mset (?root # ys) = mset ?xs" using r(4) ms by simp
  moreover have "pop_n (Suc n) s h = (Inr (?root # ys), s', h')" using p r(1) by simp
  ultimately show ?case using r(2,3) by blast
qed

subsection \<open>heapsort\<close>

lemma at_least_flip: "at_least (\<not> mh) a b = at_least mh b a"
  by (auto simp: at_least_def)

lemma mset_take_from_drop:
  assumes "mset zs = mset ys" "drop k zs = drop k ys"
  shows "mset (take k zs) = mset (take k ys)"
proof -
  have "mset (take k zs) + mset (drop k zs) = mset (take k ys) + mset (drop k ys)"
    using assms(1) by (metis append_take_drop_id mset_append)
  with assms(2) show ?thesis by simp
qed

lemma take_swapped:
  "0 \<le> i \<Longrightarrow> 0 \<le> j \<Longrightarrow> i < n \<Longrightarrow> j < n \<Longrightarrow> n \<le> int (length xs) \<Longrightarrow>
   mset (take (nat n) (swapped xs i j)) = mset (take (nat n) xs)"
proof -
  assume a: "0 \<le> i" "0 \<le> j" "i < n" "j < n" "n \<le> int (length xs)"
  have "drop (nat n) (swapped xs i j) = drop (nat n) xs" using a by (intro drop_swapped) auto
  moreover have "mset (swapped xs i j) = mset xs" using a by (intro mset_swapped) auto
  ultimately show ?thesis by (rule mset_take_from_drop[rotated])
qed

lemma heapsort_loop_spec:
  fixes s :: "('a::linorder) store"
  assumes "1 \<le> branching_factor heap" "- 1 \<le> last_index heap"
    and "last_index heap < int (length (cells s (heap_array heap)))"
    and "hp_from (branching_factor heap) (max_heap heap) (last_index heap + 1)
           (cells s (heap_array heap)) 0"
    and "sorted_wrt (at_least (\<not> max_heap heap))
           (drop (nat (last_index heap + 1)) (cells s (heap_array heap)))"
    and "\<forall>a\<in>set (take (nat (last_index heap + 1)) (cells s (heap_array heap))).
         \<forall>b\<in>set (drop (nat (last_index heap + 1)) (cells s (heap_array heap))).
           at_least (max_heap heap) b a"
  shows "\<exists>xs'. heapsort_loop s heap = (Inr (), put s (heap_array heap) xs')
      \<and> mset xs' = mset (cells s (heap_array heap))
      \<and> sorted_wrt (at_least (\<not> max_heap heap)) xs'"
  using assms
proof (induction s heap rule: heapsort_loop.induct)
  case (1 s heap)
  let ?d = "branching_factor heap" and ?mh = "max_heap heap" and ?r = "heap_array heap"
  let ?xs = "cells s ?r" and ?li = "last_index heap"
  let ?n = "?li + 1"
  note pre = "1.prems"
  show ?case
  proof (cases "0 \<le> ?li")
    case False
    with pre(2) have "?li = - 1" by simp
    with pre(5) have "sorted_wrt (at_least (\<not> ?mh)) ?xs" by simp
    moreover have "heapsort_loop s heap = (Inr (), s)"
      using False by (simp add: heapsort_loop.simps)
    ultimately show ?thesis by (intro exI[of _ ?xs]) simp
  next
    case li0: True
    let ?h1 = "heap\<lparr>last_index := ?li - 1\<rparr>"
    let ?ys = "swapped ?xs 0 ?li"
    let ?s1 = "put s ?r ?ys"
    have nn: "nat ?n = Suc (nat ?li)" using li0 by simp
    have sw: "swap s heap 0 ?li = (Inr (), ?s1)" using li0 pre(3) by (intro swap_in_range) auto
    have d1: "1 \<le> branching_factor ?h1" using pre(1) by simp
    have l1: "last_index ?h1 < int (length (cells ?s1 (heap_array ?h1)))" using pre(3) by simp
    from sift_down_spec[OF d1 order_refl l1]
    obtain zs where zs: "sift_down ?s1 ?h1 0 = (Inr (), put s ?r zs)"
      "length zs = length ?xs" "mset zs = mset ?ys"
      "drop (nat ?li) zs = drop (nat ?li) ?ys"
      "\<forall>k. hd_except ?d ?mh ?li ?ys k 0 \<longrightarrow> hp_from ?d ?mh ?li zs k"
      by auto
    let ?s2 = "put s ?r zs"
    have eq: "heapsort_loop s heap = heapsort_loop ?s2 ?h1"
      using li0 sw zs(1) by (simp add: heapsort_loop.simps[of s heap])
    have ne: "?xs \<noteq> []" using li0 pre(3) by auto
    have isw: "\<And>k. 0 \<le> k \<Longrightarrow> item ?ys k
        = (if k = ?li then item ?xs 0 else if k = 0 then item ?xs ?li else item ?xs k)"
      using li0 pre(3) ne by (simp add: item_swapped)
    have root: "?ys ! nat ?li = item ?xs 0"
      using item_swapped[of 0 ?xs ?li ?li] li0 pre(3) ne by (simp add: item_def)
    have dys: "drop (nat ?li) ?ys = item ?xs 0 # drop (nat ?n) ?xs"
    proof -
      have "nat ?li < length ?ys" using li0 pre(3) by simp
      then have "drop (nat ?li) ?ys = ?ys ! nat ?li # drop (Suc (nat ?li)) ?ys"
        by (simp add: Cons_nth_drop_Suc)
      moreover have "drop (nat ?n) ?ys = drop (nat ?n) ?xs"
        using li0 by (intro drop_swapped) auto
      ultimately show ?thesis using root nn by simp
    qed
    have root_in: "item ?xs 0 \<in> set (take (nat ?n) ?xs)"
    proof -
      have "0 < length (take (nat ?n) ?xs)" using li0 pre(3) by simp
      then have "take (nat ?n) ?xs ! 0 \<in> set (take (nat ?n) ?xs)" by (rule nth_mem)
      then show ?thesis using nn by (simp add: item_def)
    qed
    have heap_in: "\<And>a. a \<in> set (take (nat ?n) ?xs) \<Longrightarrow> at_least ?mh (item ?xs 0) a"
    proof -
      fix a assume "a \<in> set (take (nat ?n) ?xs)"
      then obtain k where k: "k < length (take (nat ?n) ?xs)" "a = take (nat ?n) ?xs ! k"
        by (auto simp: in_set_conv_nth)
      then have "int k < ?n" using li0 by auto
      with hp_from_root[OF pre(1) pre(4), of "int k"]
      have "at_least ?mh (item ?xs 0) (item ?xs (int k))" by simp
      with k show "at_least ?mh (item ?xs 0) a" by (simp add: item_def)
    qed
    have sub: "set (take (nat ?li) zs) \<subseteq> set (take (nat ?n) ?xs)"
    proof -
      have "mset (take (nat ?li) zs) = mset (take (nat ?li) ?ys)"
        using zs(3,4) by (rule mset_take_from_drop)
      then have "set (take (nat ?li) zs) = set (take (nat ?li) ?ys)" by (rule mset_eq_setD)
      also have "\<dots> \<subseteq> set (take (nat ?n) ?ys)" by (intro set_take_subset_set_take) simp
      also have "mset (take (nat ?n) ?ys) = mset (take (nat ?n) ?xs)"
        using li0 pre(3) by (intro take_swapped) auto
      then have "set (take (nat ?n) ?ys) = set (take (nat ?n) ?xs)" by (rule mset_eq_setD)
      finally show ?thesis .
    qed
    have hp1: "hp_from ?d ?mh ?li zs 0"
    proof -
      have "hd_except ?d ?mh ?li ?ys 0 0"
        unfolding hd_except_def
      proof (intro conjI allI impI)
        fix c assume c: "0 < c \<and> c < ?li \<and> 0 \<le> par ?d c \<and> par ?d c \<noteq> 0"
        then have c0: "0 < c" by simp
        have pl: "par ?d c < c" using pre(1) c0 by (rule par_less)
        have "item ?ys c = item ?xs c" "item ?ys (par ?d c) = item ?xs (par ?d c)"
          using c pl isw[of c] isw[of "par ?d c"] by simp_all
        moreover have "at_least ?mh (item ?xs (par ?d c)) (item ?xs c)"
          using pre(4) c by (simp add: hp_from_def)
        ultimately show "at_least ?mh (item ?ys (par ?d c)) (item ?ys c)" by simp
      qed simp
      with zs(5) show ?thesis by simp
    qed
    have tail1: "sorted_wrt (at_least (\<not> ?mh)) (drop (nat ?li) zs)"
    proof -
      have "\<forall>b\<in>set (drop (nat ?n) ?xs). at_least (\<not> ?mh) (item ?xs 0) b"
        using pre(6) root_in by (auto simp: at_least_flip)
      with pre(5) show ?thesis using zs(4) dys by simp
    qed
    have bnd1: "\<forall>a\<in>set (take (nat ?li) zs). \<forall>b\<in>set (drop (nat ?li) zs). at_least ?mh b a"
    proof (intro ballI)
      fix a b assume a: "a \<in> set (take (nat ?li) zs)" and b: "b \<in> set (drop (nat ?li) zs)"
      from a sub have a': "a \<in> set (take (nat ?n) ?xs)" by blast
      from b zs(4) dys have "b = item ?xs 0 \<or> b \<in> set (drop (nat ?n) ?xs)" by auto
      then show "at_least ?mh b a"
      proof
        assume "b = item ?xs 0"
        with heap_in[OF a'] show ?thesis by simp
      next
        assume "b \<in> set (drop (nat ?n) ?xs)"
        with pre(6) a' show ?thesis by blast
      qed
    qed
    have "\<exists>xs'. heapsort_loop ?s2 ?h1 = (Inr (), put ?s2 (heap_array ?h1) xs')
      \<and> mset xs' = mset (cells ?s2 (heap_array ?h1))
      \<and> sorted_wrt (at_least (\<not> max_heap ?h1)) xs'"
    proof (rule "1.IH"[OF li0 sw[symmetric] refl zs(1)[symmetric] refl])
      show "1 \<le> branching_factor ?h1" by (rule d1)
      show "- 1 \<le> last_index ?h1" using li0 by simp
      show "last_index ?h1 < int (length (cells ?s2 (heap_array ?h1)))"
        using pre(3) zs(2) by simp
      show "hp_from (branching_factor ?h1) (max_heap ?h1) (last_index ?h1 + 1)
              (cells ?s2 (heap_array ?h1)) 0"
        using hp1 by simp
      show "sorted_wrt (at_least (\<not> max_heap ?h1))
              (drop (nat (last_index ?h1 + 1)) (cells ?s2 (heap_array ?h1)))"
        using tail1 by simp
      show "\<forall>a\<in>set (take (nat (last_index ?h1 + 1)) (cells ?s2 (heap_array ?h1))).
            \<forall>b\<in>set (drop (nat (last_index ?h1 + 1)) (cells ?s2 (heap_array ?h1))).
              at_least (max_heap ?h1) b a"
        using bnd1 by simp
    qed
    then obtain xs' where xs': "heapsort_loop ?s2 ?h1 = (Inr (), put s ?r xs')"
      "mset xs' = mset zs" "sorted_wrt (at_least (\<not> ?mh)) xs'"
      by auto
    have "mset ?ys = mset ?xs" using li0 pre(3) by (intro mset_swapped) auto
    with eq xs' zs(3) show ?thesis by (intro exI[of _ xs']) simp
  qed
qed

subsection \<open>BinaryHeap, method by method\<close>

lemma to_DHeap_simps [simp]:
  "heap_array (to_DHeap b) = bin_heap_array b"
  "last_index (to_DHeap b) = bin_last_index b"
  "max_heap (to_DHeap b) = bin_max_heap b"
  "branching_factor (to_DHeap b) = 2"
  by (simp_all add: to_DHeap_def)

lemma to_DHeap_last_index [simp]:
  "to_DHeap (b\<lparr>bin_last_index := k\<rparr>) = (to_DHeap b)\<lparr>last_index := k\<rparr>"
  by (simp add: to_DHeap_def)

lemma to_DHeap_bin_gap_heap: "to_DHeap bin_gap_heap = gap_heap"
  by (simp add: to_DHeap_def bin_gap_heap_def gap_heap_def)

lemma bin_compare_eq: "bin_compare s b i j = compare s (to_DHeap b) i j"
  unfolding bin_compare_def compare_def to_DHeap_simps by (rule refl)

lemma bin_swap_eq: "bin_swap s b i j = swap s (to_DHeap b) i j"
  unfolding bin_swap_def swap_def to_DHeap_simps by (rule refl)

lemma bin_sift_up_eq:
  fixes s :: "('a::linorder) store"
  shows "sift_up s (to_DHeap b) index = Some (bin_sift_up s b index)"
proof (induction s b index rule: bin_sift_up.induct)
  case (1 s h index)
  show ?case
  proof (cases "0 \<le> (index - 1) div 2")
    case False
    then show ?thesis
      by (subst sift_up.simps, subst bin_sift_up.simps) (simp add: Let_def)
  next
    case p: True
    show ?thesis
    proof (cases "bin_compare s h index ((index - 1) div 2)")
      case (Inl e)
      with p show ?thesis
        by (subst sift_up.simps, subst bin_sift_up.simps)
           (simp add: Let_def bin_compare_eq[symmetric])
    next
      case (Inr c)
      show ?thesis
      proof (cases c)
        case False
        with p Inr show ?thesis
          by (subst sift_up.simps, subst bin_sift_up.simps)
             (simp add: Let_def bin_compare_eq[symmetric])
      next
        case True
        obtain r1 s1 where sw: "bin_swap s h index ((index - 1) div 2) = (r1, s1)"
          by (cases "bin_swap s h index ((index - 1) div 2)")
        show ?thesis
        proof (cases r1)
          case (Inl e)
          with p Inr True sw show ?thesis
            by (subst sift_up.simps, subst bin_sift_up.simps)
               (simp add: Let_def bin_compare_eq[symmetric] bin_swap_eq[symmetric])
        next
          case u: (Inr u)
          from "1.IH"[OF refl p Inr True sw[symmetric] u]
          have "sift_up s1 (to_DHeap h) ((index - 1) div 2)
                  = Some (bin_sift_up s1 h ((index - 1) div 2))" .
          with p Inr True sw u show ?thesis
            by (subst sift_up.simps, subst bin_sift_up.simps)
               (simp add: Let_def bin_compare_eq[symmetric] bin_swap_eq[symmetric])
        qed
      qed
    qed
  qed
qed

lemma sift_down_loop_two:
  fixes s :: "('a::linorder) store"
  shows "sift_down_loop s (to_DHeap b) index 1 index
     = (case bin_pick s b (index * 2 + 1) index of
          Inl e \<Rightarrow> Inl e
        | Inr np1 \<Rightarrow> bin_pick s b (index * 2 + 2) np1)"
proof -
  have three: "\<And>np. sift_down_loop s (to_DHeap b) index 3 np = Inr np"
    by (simp add: sift_down_loop.simps)
  have two: "\<And>np. sift_down_loop s (to_DHeap b) index 2 np = bin_pick s b (index * 2 + 2) np"
    by (subst sift_down_loop.simps)
       (auto simp: Let_def bin_pick_def bin_compare_eq three split: sum.splits)
  show ?thesis
    by (subst sift_down_loop.simps)
       (auto simp: Let_def bin_pick_def bin_compare_eq two split: sum.splits)
qed

lemma bin_sift_down_eq:
  fixes s :: "('a::linorder) store"
  shows "bin_sift_down s b index = sift_down s (to_DHeap b) index"
proof (induction s b index rule: bin_sift_down.induct)
  case (1 s h index)
  show ?case
  proof (cases "bin_pick s h (index * 2 + 1) index")
    case (Inl e)
    then show ?thesis
      by (subst bin_sift_down.simps, subst sift_down.simps)
         (simp add: Let_def sift_down_loop_two)
  next
    case np1: (Inr np1)
    show ?thesis
    proof (cases "bin_pick s h (index * 2 + 2) np1")
      case (Inl e)
      with np1 show ?thesis
        by (subst bin_sift_down.simps, subst sift_down.simps)
           (simp add: Let_def sift_down_loop_two)
    next
      case np: (Inr np)
      show ?thesis
      proof (cases "np = index")
        case True
        with np1 np show ?thesis
          by (subst bin_sift_down.simps, subst sift_down.simps)
             (simp add: Let_def sift_down_loop_two)
      next
        case ne: False
        obtain r1 s1 where sw: "bin_swap s h index np = (r1, s1)"
          by (cases "bin_swap s h index np")
        show ?thesis
        proof (cases r1)
          case (Inl e)
          with np1 np ne sw show ?thesis
            by (subst bin_sift_down.simps, subst sift_down.simps)
               (simp add: Let_def sift_down_loop_two bin_swap_eq[symmetric])
        next
          case u: (Inr u)
          from "1.IH"[OF refl refl np1 np ne sw[symmetric] u]
          have "bin_sift_down s1 h np = sift_down s1 (to_DHeap h) np" .
          with np1 np ne sw u show ?thesis
            by (subst bin_sift_down.simps, subst sift_down.simps)
               (simp add: Let_def sift_down_loop_two bin_swap_eq[symmetric])
        qed
      qed
    qed
  qed
qed

lemma as_DHeap_simp [simp]: "as_DHeap (r, s', b') = (r, s', to_DHeap b')"
  by (simp add: as_DHeap_def)

lemma bin_push_eq:
  fixes s :: "('a::linorder) store"
  shows "push s (to_DHeap b) v = Some (as_DHeap (bin_push s b v))"
proof -
  let ?b1 = "b\<lparr>bin_last_index := bin_last_index b + 1\<rparr>"
  let ?s1 = "put s (bin_heap_array b) (cells s (bin_heap_array b) @ [v])"
  have "sift_up ?s1 (to_DHeap ?b1) (bin_last_index b + 1)
          = Some (bin_sift_up ?s1 ?b1 (bin_last_index b + 1))"
    by (rule bin_sift_up_eq)
  then show ?thesis
    by (cases "bin_sift_up ?s1 ?b1 (bin_last_index b + 1)")
       (simp add: push_def bin_push_def Let_def)
qed

lemma bin_peek_eq: "bin_peek s b = peek s (to_DHeap b)"
  by (simp add: bin_peek_def peek_def)

lemma bin_len_eq: "bin_len b = len (to_DHeap b)"
  by (simp add: bin_len_def len_def)

lemma bin_pop_eq:
  fixes s :: "('a::linorder) store"
  shows "pop s (to_DHeap b) = as_DHeap (bin_pop s b)"
proof (cases "bin_peek s b")
  case (Inl e)
  then show ?thesis by (simp add: pop_def bin_pop_def bin_peek_eq[symmetric])
next
  case pk: (Inr v)
  obtain r1 s1 where sw: "bin_swap s b 0 (bin_last_index b) = (r1, s1)"
    by (cases "bin_swap s b 0 (bin_last_index b)")
  show ?thesis
  proof (cases r1)
    case (Inl e)
    with pk sw show ?thesis
      by (simp add: pop_def bin_pop_def bin_peek_eq[symmetric] bin_swap_eq[symmetric])
  next
    case u: (Inr u)
    show ?thesis
    proof (cases "list_pop (cells s1 (bin_heap_array b)) (bin_last_index b)")
      case (Inl e)
      with pk sw u show ?thesis
        by (simp add: pop_def bin_pop_def bin_peek_eq[symmetric] bin_swap_eq[symmetric])
    next
      case (Inr p)
      obtain w xs where p: "p = (w, xs)" by (cases p)
      obtain r2 s2 where sd: "bin_sift_down (put s1 (bin_heap_array b) xs)
           (b\<lparr>bin_last_index := bin_last_index b - 1\<rparr>) 0 = (r2, s2)"
        by (cases "bin_sift_down (put s1 (bin_heap_array b) xs)
           (b\<lparr>bin_last_index := bin_last_index b - 1\<rparr>) 0")
      then have sd': "sift_down (put s1 (bin_heap_array b) xs)
           ((to_DHeap b)\<lparr>last_index := bin_last_index b - 1\<rparr>) 0 = (r2, s2)"
        by (simp add: bin_sift_down_eq)
      from pk sw u Inr p sd sd' show ?thesis
        by (cases r2)
           (simp_all add: pop_def bin_pop_def bin_peek_eq[symmetric] bin_swap_eq[symmetric] Let_def)
    qed
  qed
qed

lemma bin_validate_forth:
  fixes s :: "('a::linorder) store"
  assumes ret: "bin_validate_heap_from s b parent i = Some y"
  shows "validate_heap_from s (to_DHeap b) parent i = Some y"
proof (rule bin_validate_heap_from.raw_induct[where P = "\<lambda>s b parent i y.
         validate_heap_from s (to_DHeap b) parent i = Some y", OF _ ret], goal_cases)
  case (1 f s b parent i y)
  note IH = 1(1) and body = 1(2)
  show ?case
  proof (cases "i < 2")
    case False
    with body show ?thesis by (subst validate_heap_from.simps) simp
  next
    case lt: True
    show ?thesis
    proof (cases "parent * 2 + 1 + i \<le> bin_last_index b")
      case False
      with lt body have "f s b parent (i + 1) = Some y" by (simp add: Let_def)
      from IH[OF this] lt False show ?thesis
        by (subst validate_heap_from.simps) (simp add: Let_def)
    next
      case inr: True
      show ?thesis
      proof (cases "bin_compare s b (parent * 2 + 1 + i) parent")
        case (Inl e)
        with lt inr body show ?thesis
          by (subst validate_heap_from.simps) (auto simp: Let_def bin_compare_eq[symmetric])
      next
        case (Inr c)
        show ?thesis
        proof (cases c)
          case True
          with lt inr Inr body show ?thesis
            by (subst validate_heap_from.simps) (auto simp: Let_def bin_compare_eq[symmetric])
        next
          case False
          with lt inr Inr body have "f s b (parent * 2 + 1 + i) 0 = Some y"
            by (simp add: Let_def)
          from IH[OF this] lt inr Inr False show ?thesis
            by (subst validate_heap_from.simps) (simp add: Let_def bin_compare_eq[symmetric])
        qed
      qed
    qed
  qed
qed

lemma bin_validate_back:
  fixes s :: "('a::linorder) store"
  assumes ret: "validate_heap_from s h parent i = Some y"
  shows "\<forall>b. h = to_DHeap b \<longrightarrow> bin_validate_heap_from s b parent i = Some y"
proof (rule validate_heap_from.raw_induct[where P = "\<lambda>s h parent i y.
         \<forall>b. h = to_DHeap b \<longrightarrow> bin_validate_heap_from s b parent i = Some y", OF _ ret],
       goal_cases)
  case (1 f s h parent i y)
  note IH = 1(1) and body = 1(2)
  show ?case
  proof (intro allI impI)
    fix b assume h: "h = to_DHeap b"
    show "bin_validate_heap_from s b parent i = Some y"
    proof (cases "i < 2")
      case False
      with body h show ?thesis by (subst bin_validate_heap_from.simps) simp
    next
      case lt: True
      show ?thesis
      proof (cases "parent * 2 + 1 + i \<le> bin_last_index b")
        case False
        with lt body h have "f s h parent (i + 1) = Some y" by (simp add: Let_def)
        from IH[OF this] h lt False show ?thesis
          by (subst bin_validate_heap_from.simps) (simp add: Let_def)
      next
        case inr: True
        show ?thesis
        proof (cases "bin_compare s b (parent * 2 + 1 + i) parent")
          case (Inl e)
          with lt inr body h show ?thesis
            by (subst bin_validate_heap_from.simps) (auto simp: Let_def bin_compare_eq[symmetric])
        next
          case (Inr c)
          show ?thesis
          proof (cases c)
            case True
            with lt inr Inr body h show ?thesis
              by (subst bin_validate_heap_from.simps)
                 (auto simp: Let_def bin_compare_eq[symmetric])
          next
            case False
            with lt inr Inr body h have "f s h (parent * 2 + 1 + i) 0 = Some y"
              by (simp add: Let_def bin_compare_eq[symmetric])
            from IH[OF this] h lt inr Inr False show ?thesis
              by (subst bin_validate_heap_from.simps) (simp add: Let_def)
          qed
        qed
      qed
    qed
  qed
qed

lemma bin_validate_heap_eq:
  fixes s :: "('a::linorder) store"
  shows "bin_validate_heap s b parent = validate_heap s (to_DHeap b) parent"
proof (cases "bin_validate_heap_from s b parent 0")
  case (Some y)
  from bin_validate_forth[OF this] Some show ?thesis
    by (simp add: bin_validate_heap_def validate_heap_def)
next
  case None
  have "validate_heap_from s (to_DHeap b) parent 0 = None"
  proof (cases "validate_heap_from s (to_DHeap b) parent 0")
    case (Some y)
    from bin_validate_back[OF this] None show ?thesis by simp
  qed simp
  with None show ?thesis by (simp add: bin_validate_heap_def validate_heap_def)
qed

lemma bin_init_forth:
  fixes s :: "('a::linorder) store"
  assumes ret: "bin_init_loop s b src i = Some y"
  shows "init_loop s (to_DHeap b) src i = Some (as_DHeap y)"
proof (rule bin_init_loop.raw_induct[where P = "\<lambda>s b src i y.
         init_loop s (to_DHeap b) src i = Some (as_DHeap y)", OF _ ret], goal_cases)
  case (1 f s b src i y)
  note IH = 1(1) and body = 1(2)
  show ?case
  proof (cases "i < length (cells s src)")
    case False
    with body show ?thesis by (subst init_loop.simps) auto
  next
    case lt: True
    obtain r1 s1 b1 where p: "bin_push s b (cells s src ! i) = (r1, s1, b1)"
      by (cases "bin_push s b (cells s src ! i)")
    then have p': "push s (to_DHeap b) (cells s src ! i) = Some (r1, s1, to_DHeap b1)"
      by (simp add: bin_push_eq)
    show ?thesis
    proof (cases r1)
      case (Inl e)
      with lt p body have "y = (Inl e, s1, b1)" by simp
      with lt p' Inl show ?thesis by (subst init_loop.simps) simp
    next
      case (Inr u)
      with lt p body have "f s1 b1 src (Suc i) = Some y" by simp
      from IH[OF this] lt p' Inr show ?thesis by (subst init_loop.simps) simp
    qed
  qed
qed

lemma bin_init_back:
  fixes s :: "('a::linorder) store"
  assumes ret: "init_loop s h src i = Some z"
  shows "\<forall>b. h = to_DHeap b \<longrightarrow> (\<exists>y. bin_init_loop s b src i = Some y \<and> z = as_DHeap y)"
proof (rule init_loop.raw_induct[where P = "\<lambda>s h src i z.
         \<forall>b. h = to_DHeap b \<longrightarrow> (\<exists>y. bin_init_loop s b src i = Some y \<and> z = as_DHeap y)",
         OF _ ret], goal_cases)
  case (1 f s h src i z)
  note IH = 1(1) and body = 1(2)
  show ?case
  proof (intro allI impI)
    fix b assume h: "h = to_DHeap b"
    show "\<exists>y. bin_init_loop s b src i = Some y \<and> z = as_DHeap y"
    proof (cases "i < length (cells s src)")
      case False
      with body h show ?thesis by (subst bin_init_loop.simps) auto
    next
      case lt: True
      obtain r1 s1 b1 where p: "bin_push s b (cells s src ! i) = (r1, s1, b1)"
        by (cases "bin_push s b (cells s src ! i)")
      then have p': "push s h (cells s src ! i) = Some (r1, s1, to_DHeap b1)"
        using h by (simp add: bin_push_eq)
      show ?thesis
      proof (cases r1)
        case (Inl e)
        with lt p' body have "z = (Inl e, s1, to_DHeap b1)" by simp
        with lt p Inl show ?thesis by (subst bin_init_loop.simps) simp
      next
        case (Inr u)
        with lt p' body have "f s1 (to_DHeap b1) src (Suc i) = Some z" by simp
        from IH[OF this] obtain y where "bin_init_loop s1 b1 src (Suc i) = Some y" "z = as_DHeap y"
          by blast
        with lt p Inr show ?thesis by (subst bin_init_loop.simps) simp
      qed
    qed
  qed
qed

lemma bin_init_loop_eq:
  fixes s :: "('a::linorder) store"
  shows "init_loop s (to_DHeap b) src i = map_option as_DHeap (bin_init_loop s b src i)"
proof (cases "bin_init_loop s b src i")
  case (Some y)
  from bin_init_forth[OF this] Some show ?thesis by simp
next
  case None
  have "init_loop s (to_DHeap b) src i = None"
  proof (cases "init_loop s (to_DHeap b) src i")
    case (Some z)
    from bin_init_back[OF this] None show ?thesis by auto
  qed simp
  with None show ?thesis by simp
qed

lemma made_DHeap_simps [simp]:
  "made_DHeap (Inl e, s') = (Inl e, s')"
  "made_DHeap (Inr b, s') = (Inr (to_DHeap b), s')"
  by (simp_all add: made_DHeap_def)

lemma BinaryHeap_new_eq:
  "DHeap_new s mh 2 = (fst (BinaryHeap_new s mh), to_DHeap (snd (BinaryHeap_new s mh)))"
  by (simp add: DHeap_new_def BinaryHeap_new_def to_DHeap_def)

lemma BinaryHeap_init_eq:
  fixes s :: "('a::linorder) store"
  shows "DHeap_init s c mh 2 = map_option made_DHeap (BinaryHeap_init s c mh)"
proof (cases c)
  case None
  then show ?thesis
    by (simp add: DHeap_init_def BinaryHeap_init_def BinaryHeap_new_eq case_prod_unfold)
next
  case (Some src)
  let ?s0 = "fst (BinaryHeap_new s mh)" and ?b0 = "snd (BinaryHeap_new s mh)"
  have d: "DHeap_init s c mh 2
      = (case init_loop ?s0 (to_DHeap ?b0) src 0 of
           None \<Rightarrow> None
         | Some (Inl e, s1, h1) \<Rightarrow> Some (Inl e, s1)
         | Some (Inr u, s1, h1) \<Rightarrow> Some (Inr h1, s1))"
    using Some by (simp add: DHeap_init_def BinaryHeap_new_eq)
  have b: "BinaryHeap_init s c mh
      = (case bin_init_loop ?s0 ?b0 src 0 of
           None \<Rightarrow> None
         | Some (Inl e, s1, h1) \<Rightarrow> Some (Inl e, s1)
         | Some (Inr u, s1, h1) \<Rightarrow> Some (Inr h1, s1))"
    using Some by (simp add: BinaryHeap_init_def case_prod_unfold)
  show ?thesis
    unfolding d b bin_init_loop_eq
    by (cases "bin_init_loop ?s0 ?b0 src 0") (auto split: sum.splits)
qed

lemma bin_heapify_loop_eq:
  fixes s :: "('a::linorder) store"
  shows "bin_heapify_loop s b start = heapify_loop s (to_DHeap b) start"
proof (induction s b start rule: bin_heapify_loop.induct)
  case (1 s h start)
  show ?case
  proof (cases "0 \<le> start")
    case False
    then show ?thesis by (simp add: bin_heapify_loop.simps heapify_loop.simps)
  next
    case True
    obtain r1 s1 where sd: "bin_sift_down s h start = (r1, s1)" by (cases "bin_sift_down s h start")
    then have sd': "sift_down s (to_DHeap h) start = (r1, s1)" by (simp add: bin_sift_down_eq)
    show ?thesis
    proof (cases r1)
      case (Inl e)
      with True sd sd' show ?thesis
        by (simp add: bin_heapify_loop.simps[of s h start] heapify_loop.simps[of s "to_DHeap h" start])
    next
      case (Inr u)
      from "1.IH"[OF True sd[symmetric] Inr] True sd sd' Inr show ?thesis
        by (simp add: bin_heapify_loop.simps[of s h start] heapify_loop.simps[of s "to_DHeap h" start])
    qed
  qed
qed

lemma bin_heapify_eq:
  fixes s :: "('a::linorder) store"
  shows "heapify s r mh 2 = made_DHeap (bin_heapify s r mh)"
proof -
  let ?s0 = "s\<lparr>cells := (cells s)(next_ref s := []), next_ref := Suc (next_ref s)\<rparr>"
  let ?b = "\<lparr>bin_heap_array = r, bin_last_index = int (length (cells ?s0 r)) - 1,
             bin_max_heap = mh\<rparr>"
  let ?st = "(int (length (cells ?s0 r)) - 1 - 1) div 2"
  have hb: "to_DHeap ?b = \<lparr>heap_array = r, last_index = int (length (cells ?s0 r)) - 1,
                           max_heap = mh, branching_factor = 2\<rparr>"
    by (simp add: to_DHeap_def)
  obtain r1 s1 where l: "bin_heapify_loop ?s0 ?b ?st = (r1, s1)"
    by (cases "bin_heapify_loop ?s0 ?b ?st")
  then have l': "heapify_loop ?s0 (to_DHeap ?b) ?st = (r1, s1)" by (simp add: bin_heapify_loop_eq)
  have b: "bin_heapify s r mh = (case r1 of Inl e \<Rightarrow> (Inl e, s1) | Inr u \<Rightarrow> (Inr ?b, s1))"
    using l by (simp add: bin_heapify_def BinaryHeap_new_def Let_def split: sum.splits)
  have d: "heapify s r mh 2
      = (case r1 of Inl e \<Rightarrow> (Inl e, s1) | Inr u \<Rightarrow> (Inr (to_DHeap ?b), s1))"
    using l' unfolding hb by (simp add: heapify_def DHeap_new_def Let_def split: sum.splits)
  show ?thesis unfolding b d by (cases r1) simp_all
qed

lemma bin_heapsort_loop_eq:
  fixes s :: "('a::linorder) store"
  shows "bin_heapsort_loop s b = heapsort_loop s (to_DHeap b)"
proof (induction s b rule: bin_heapsort_loop.induct)
  case (1 s heap)
  let ?h1 = "heap\<lparr>bin_last_index := bin_last_index heap - 1\<rparr>"
  show ?case
  proof (cases "0 \<le> bin_last_index heap")
    case False
    then show ?thesis by (simp add: bin_heapsort_loop.simps heapsort_loop.simps)
  next
    case True
    obtain r1 s1 where sw: "bin_swap s heap 0 (bin_last_index heap) = (r1, s1)"
      by (cases "bin_swap s heap 0 (bin_last_index heap)")
    then have sw': "swap s (to_DHeap heap) 0 (bin_last_index heap) = (r1, s1)"
      by (simp add: bin_swap_eq)
    show ?thesis
    proof (cases r1)
      case (Inl e)
      with True sw sw' show ?thesis
        by (simp add: bin_heapsort_loop.simps[of s heap] heapsort_loop.simps[of s "to_DHeap heap"])
    next
      case u1: (Inr u1)
      obtain r2 s2 where sd: "bin_sift_down s1 ?h1 0 = (r2, s2)"
        by (cases "bin_sift_down s1 ?h1 0")
      then have sd': "sift_down s1 ((to_DHeap heap)\<lparr>last_index := bin_last_index heap - 1\<rparr>) 0
                        = (r2, s2)"
        by (simp add: bin_sift_down_eq)
      show ?thesis
      proof (cases r2)
        case (Inl e)
        with True sw sw' u1 sd sd' show ?thesis
          by (simp add: bin_heapsort_loop.simps[of s heap]
                heapsort_loop.simps[of s "to_DHeap heap"])
      next
        case u2: (Inr u2)
        from "1.IH"[OF True sw[symmetric] u1 sd[symmetric] u2] True sw sw' u1 sd sd' u2
        show ?thesis
          by (simp add: bin_heapsort_loop.simps[of s heap]
                heapsort_loop.simps[of s "to_DHeap heap"])
      qed
    qed
  qed
qed

lemma bin_heapsort_eq:
  fixes s :: "('a::linorder) store"
  shows "bin_heapsort s r ascending = heapsort s r ascending"
proof (cases "bin_heapify s r ascending")
  case (Pair r1 s1)
  then have "heapify s r ascending 2 = made_DHeap (r1, s1)" by (simp add: bin_heapify_eq)
  with Pair show ?thesis
    by (cases r1) (simp_all add: bin_heapsort_def heapsort_def bin_heapsort_loop_eq)
qed

subsection \<open>Programs\<close>

lemma BinaryHeap_call_eq:
  fixes s :: "('a::linorder) store"
  shows "DHeap_call s (to_DHeap b) c = map_option as_DHeap (BinaryHeap_call s b c)"
proof (cases c)
  case (Push v)
  then show ?thesis by (cases "bin_push s b v") (simp add: bin_push_eq)
next
  case Pop
  then show ?thesis by (cases "bin_pop s b") (simp add: bin_pop_eq)
next
  case Peek
  then show ?thesis by (simp add: bin_peek_eq)
next
  case Len
  then show ?thesis by (simp add: bin_len_eq)
next
  case (Validate_heap p)
  then show ?thesis
    by (cases "bin_validate_heap s b p") (simp_all add: bin_validate_heap_eq[symmetric])
next
  case (Heapify r mh)
  obtain r1 s1 where "bin_heapify s r mh = (r1, s1)" by (cases "bin_heapify s r mh")
  with Heapify show ?thesis by (cases r1) (simp_all add: bin_heapify_eq)
next
  case (Heapsort r asc)
  then show ?thesis by (cases "bin_heapsort s r asc") (simp add: bin_heapsort_eq[symmetric])
qed

lemma BinaryHeap_calls_eq:
  fixes s :: "('a::linorder) store"
  shows "DHeap_calls s (to_DHeap b) cs = map_option as_DHeap (BinaryHeap_calls s b cs)"
proof (induction cs arbitrary: s b)
  case Nil
  show ?case by simp
next
  case (Cons c cs)
  show ?case
  proof (cases "BinaryHeap_call s b c")
    case None
    then show ?thesis using BinaryHeap_call_eq[of s b c] by simp
  next
    case (Some y)
    obtain ob s1 b1 where y: "y = (ob, s1, b1)" by (cases y)
    with Some have d: "DHeap_call s (to_DHeap b) c = Some (ob, s1, to_DHeap b1)"
      using BinaryHeap_call_eq[of s b c] by simp
    show ?thesis
    proof (cases "BinaryHeap_calls s1 b1 cs")
      case None
      with Some y d Cons.IH[of s1 b1] show ?thesis by simp
    next
      case (Some z)
      obtain obs s2 b2 where "z = (obs, s2, b2)" by (cases z)
      with Some \<open>BinaryHeap_call s b c = Some y\<close> y d Cons.IH[of s1 b1] show ?thesis by simp
    qed
  qed
qed

subsection \<open>The methods under the recursion limit\<close>

lemma swap_lim_simps [simp]:
  "swap_lim 0 s h i j = (Inl RecursionError, s)"
  "swap_lim (Suc n) s h i j = swap s h i j"
  by (simp_all add: swap_lim_def)

lemma compare_lim_simps [simp]:
  "compare_lim 0 s h i j = Inl RecursionError"
  "compare_lim (Suc n) s h i j = compare s h i j"
  by (simp_all add: compare_lim_def)

lemma peek_lim_simps [simp]:
  "peek_lim 0 s h = Inl RecursionError"
  "peek_lim (Suc n) s h = peek s h"
  by (simp_all add: peek_lim_def)

lemma sift_down_loop_lim_Suc:
  fixes s :: "('a::linorder) store"
  shows "sift_down_loop_lim (Suc n) s h index i np = sift_down_loop s h index i np"
proof (induction s h index i np rule: sift_down_loop.induct)
  case (1 s h index i np)
  show ?case
  proof (cases "i \<le> branching_factor h")
    case False
    then show ?thesis
      by (simp add: sift_down_loop_lim.simps[of _ s h index i] sift_down_loop.simps[of s h index i])
  next
    case le: True
    show ?thesis
    proof (cases "index * branching_factor h + i \<le> last_index h")
      case False
      from "1.IH"(2)[OF le refl False] le False show ?thesis
        by (simp add: sift_down_loop_lim.simps[of _ s h index i]
              sift_down_loop.simps[of s h index i])
    next
      case True
      show ?thesis
      proof (cases "compare s h (index * branching_factor h + i) np")
        case (Inl e)
        with le True show ?thesis
          by (simp add: sift_down_loop_lim.simps[of _ s h index i]
                sift_down_loop.simps[of s h index i])
      next
        case (Inr b)
        from "1.IH"(1)[OF le refl True Inr] le True Inr show ?thesis
          by (simp add: sift_down_loop_lim.simps[of _ s h index i]
                sift_down_loop.simps[of s h index i])
      qed
    qed
  qed
qed

lemma sift_down_loop_lim_0:
  fixes s :: "('a::linorder) store"
  shows "sift_down_loop_lim 0 s h index i np = r \<Longrightarrow> r \<noteq> Inl RecursionError
     \<Longrightarrow> sift_down_loop s h index i np = r"
proof (induction s h index i np rule: sift_down_loop.induct)
  case (1 s h index i np)
  show ?case
  proof (cases "i \<le> branching_factor h")
    case False
    with "1.prems" show ?thesis
      by (simp add: sift_down_loop_lim.simps[of 0 s h index i] sift_down_loop.simps[of s h index i])
  next
    case le: True
    show ?thesis
    proof (cases "index * branching_factor h + i \<le> last_index h")
      case False
      with le "1.prems" have "sift_down_loop_lim 0 s h index (i + 1) np = r"
        by (simp add: sift_down_loop_lim.simps[of 0 s h index i])
      from "1.IH"(2)[OF le refl False this "1.prems"(2)] le False show ?thesis
        by (simp add: sift_down_loop.simps[of s h index i])
    next
      case True
      with le "1.prems" show ?thesis
        by (simp add: sift_down_loop_lim.simps[of 0 s h index i])
    qed
  qed
qed

lemma sift_down_loop_lim_agrees:
  fixes s :: "('a::linorder) store"
  shows "sift_down_loop_lim n s h index i np = r \<Longrightarrow> r \<noteq> Inl RecursionError
     \<Longrightarrow> sift_down_loop s h index i np = r"
  by (cases n) (simp_all add: sift_down_loop_lim_0 sift_down_loop_lim_Suc)

lemma sift_down_loop_lim_leaf:
  fixes s :: "('a::linorder) store"
  shows "1 \<le> i \<Longrightarrow> last_index h < index * branching_factor h + i \<Longrightarrow>
     sift_down_loop_lim n s h index i np0 = Inr np0"
proof (induction n s h index i np0 rule: sift_down_loop_lim.induct)
  case (1 n s h index i np)
  show ?case
  proof (cases "i \<le> branching_factor h")
    case False
    then show ?thesis by (simp add: sift_down_loop_lim.simps[of n s h index i])
  next
    case le: True
    from "1.prems" have nc: "\<not> index * branching_factor h + i \<le> last_index h" by simp
    from "1.IH"(2)[OF le refl nc] "1.prems" le nc show ?thesis
      by (simp add: sift_down_loop_lim.simps[of n s h index i])
  qed
qed

lemma sift_up_lim_agrees:
  fixes s :: "('a::linorder) store"
  shows "sift_up_lim n s h index = (r, s') \<Longrightarrow> r \<noteq> Inl RecursionError
     \<Longrightarrow> sift_up s h index = Some (r, s')"
proof (induction n arbitrary: s index)
  case 0
  then show ?case by simp
next
  case (Suc n)
  let ?p = "(index - 1) div branching_factor h"
  show ?case
  proof (cases "branching_factor h = 0")
    case True
    with Suc.prems show ?thesis by (subst sift_up.simps) auto
  next
    case bf: False
    show ?thesis
    proof (cases "0 \<le> ?p")
      case False
      with bf Suc.prems show ?thesis by (subst sift_up.simps) (auto simp: Let_def)
    next
      case p: True
      show ?thesis
      proof (cases n)
        case 0
        with bf p Suc.prems show ?thesis by (auto simp: Let_def)
      next
        case n: (Suc m)
        show ?thesis
        proof (cases "compare s h index ?p")
          case (Inl e)
          with n bf p Suc.prems show ?thesis by (subst sift_up.simps) (auto simp: Let_def)
        next
          case (Inr b)
          show ?thesis
          proof (cases b)
            case False
            with Inr n bf p Suc.prems show ?thesis by (subst sift_up.simps) (auto simp: Let_def)
          next
            case True
            obtain r1 s1 where sw: "swap s h index ?p = (r1, s1)" by (cases "swap s h index ?p")
            show ?thesis
            proof (cases r1)
              case (Inl e)
              with True Inr n bf p sw Suc.prems show ?thesis
                by (subst sift_up.simps) (auto simp: Let_def)
            next
              case u: (Inr u)
              with True Inr n bf p sw Suc.prems have "sift_up_lim n s1 h ?p = (r, s')"
                by (auto simp: Let_def)
              from Suc.IH[OF this Suc.prems(2)] True Inr bf p sw u show ?thesis
                by (subst sift_up.simps) (auto simp: Let_def)
            qed
          qed
        qed
      qed
    qed
  qed
qed

lemma sift_down_lim_agrees:
  fixes s :: "('a::linorder) store"
  shows "sift_down_lim n s h index = (r, s') \<Longrightarrow> r \<noteq> Inl RecursionError
     \<Longrightarrow> sift_down s h index = (r, s')"
proof (induction n arbitrary: s index)
  case 0
  then show ?case by simp
next
  case (Suc n)
  show ?case
  proof (cases "sift_down_loop_lim n s h index 1 index")
    case (Inl e)
    with Suc.prems have e: "r = Inl e" "s' = s" by auto
    with Suc.prems(2) Inl have "sift_down_loop s h index 1 index = Inl e"
      by (intro sift_down_loop_lim_agrees[of n]) auto
    with e show ?thesis by (simp add: sift_down.simps[of s h index])
  next
    case (Inr np)
    then have lp: "sift_down_loop s h index 1 index = Inr np"
      by (intro sift_down_loop_lim_agrees[of n]) auto
    show ?thesis
    proof (cases "np = index")
      case True
      with Inr Suc.prems have "r = Inr ()" "s' = s" by auto
      with lp True show ?thesis by (simp add: sift_down.simps[of s h index])
    next
      case ne: False
      show ?thesis
      proof (cases n)
        case 0
        with Inr ne Suc.prems show ?thesis by auto
      next
        case n: (Suc m)
        obtain r1 s1 where sw: "swap s h index np = (r1, s1)" by (cases "swap s h index np")
        show ?thesis
        proof (cases r1)
          case (Inl e)
          with Inr ne n sw Suc.prems have "r = Inl e" "s' = s1" by auto
          with Inl lp ne sw show ?thesis by (simp add: sift_down.simps[of s h index])
        next
          case u: (Inr u)
          with Inr ne n sw Suc.prems have "sift_down_lim n s1 h np = (r, s')" by simp
          from Suc.IH[OF this Suc.prems(2)] lp ne sw u show ?thesis
            by (simp add: sift_down.simps[of s h index])
        qed
      qed
    qed
  qed
qed

lemma push_lim_agrees:
  fixes s :: "('a::linorder) store"
  assumes "push_lim n s h v = (r, s', h')" "r \<noteq> Inl RecursionError"
  shows "push s h v = Some (r, s', h')"
proof (cases n)
  case 0
  with assms show ?thesis by simp
next
  case (Suc m)
  let ?h1 = "h\<lparr>last_index := last_index h + 1\<rparr>"
  let ?s1 = "put s (heap_array h) (cells s (heap_array h) @ [v])"
  from assms Suc have "sift_up_lim m ?s1 ?h1 (last_index ?h1) = (r, s')" and h': "h' = ?h1"
    by (auto simp: Let_def split: prod.splits)
  from sift_up_lim_agrees[OF this(1) assms(2)] h' show ?thesis
    by (simp add: push_def Let_def)
qed

lemma pop_lim_agrees:
  fixes s :: "('a::linorder) store"
  assumes "pop_lim n s h = (r, s', h')" "r \<noteq> Inl RecursionError"
  shows "pop s h = (r, s', h')"
proof (cases n)
  case 0
  with assms show ?thesis by simp
next
  case n: (Suc m)
  show ?thesis
  proof (cases m)
    case 0
    with n assms show ?thesis by simp
  next
    case m: (Suc k)
    show ?thesis
    proof (cases "peek s h")
      case (Inl e)
      with n m assms have "r = Inl e" "s' = s" "h' = h" by auto
      with Inl show ?thesis by (simp add: pop_def)
    next
      case pk: (Inr ret_val)
      obtain r1 s1 where sw: "swap s h 0 (last_index h) = (r1, s1)"
        by (cases "swap s h 0 (last_index h)")
      show ?thesis
      proof (cases r1)
        case (Inl e)
        with pk sw n m assms have "r = Inl e" "s' = s1" "h' = h" by auto
        with Inl pk sw show ?thesis by (simp add: pop_def)
      next
        case u: (Inr u)
        show ?thesis
        proof (cases "list_pop (cells s1 (heap_array h)) (last_index h)")
          case (Inl e)
          with u pk sw n m assms have "r = Inl e" "s' = s1" "h' = h" by auto
          with Inl u pk sw show ?thesis by (simp add: pop_def)
        next
          case (Inr vxs)
          obtain v xs where vxs: "vxs = (v, xs)" by (cases vxs)
          let ?s2 = "put s1 (heap_array h) xs"
          let ?h1 = "h\<lparr>last_index := last_index h - 1\<rparr>"
          obtain r3 s3 where sd: "sift_down_lim m ?s2 ?h1 0 = (r3, s3)"
            by (cases "sift_down_lim m ?s2 ?h1 0")
          from Inr vxs u pk sw n m assms(1) sd
          have r: "(r, s', h') = (case r3 of Inl e \<Rightarrow> (Inl e, s3, ?h1)
                                   | Inr u \<Rightarrow> (Inr ret_val, s3, ?h1))"
            by (simp add: Let_def)
          with assms(2) have "r3 \<noteq> Inl RecursionError" by (cases r3) auto
          from sift_down_lim_agrees[OF sd this] Inr vxs u pk sw r show ?thesis
            by (simp add: pop_def Let_def)
        qed
      qed
    qed
  qed
qed

lemma getitem_error: "getitem xs i = Inl e \<Longrightarrow> e = IndexError"
  by (auto simp: getitem_def split: option.splits)

lemma compare_error: "compare s h i j = Inl e \<Longrightarrow> e = IndexError"
  by (auto simp: compare_def split: sum.splits dest: getitem_error)

lemma swap_error: "swap s h i j = (Inl e, s') \<Longrightarrow> e = IndexError"
  by (auto simp: swap_def Let_def setitem_def split: sum.splits option.splits dest: getitem_error)

lemma list_pop_error: "list_pop xs i = Inl e \<Longrightarrow> e = IndexError"
  by (auto simp: list_pop_def split: option.splits)

lemma sift_down_loop_error:
  fixes s :: "('a::linorder) store"
  shows "sift_down_loop s h index i np = Inl e \<Longrightarrow> e = IndexError"
proof (induction s h index i np rule: sift_down_loop.induct)
  case (1 s h index i np)
  show ?case
  proof (cases "i \<le> branching_factor h")
    case False
    with "1.prems" show ?thesis by (simp add: sift_down_loop.simps[of s h index i])
  next
    case le: True
    show ?thesis
    proof (cases "index * branching_factor h + i \<le> last_index h")
      case False
      with le "1.prems" have "sift_down_loop s h index (i + 1) np = Inl e"
        by (simp add: sift_down_loop.simps[of s h index i])
      from "1.IH"(2)[OF le refl False this] show ?thesis .
    next
      case True
      show ?thesis
      proof (cases "compare s h (index * branching_factor h + i) np")
        case (Inl e')
        with le True "1.prems" have "e = e'" by (simp add: sift_down_loop.simps[of s h index i])
        with compare_error[OF Inl] show ?thesis by simp
      next
        case (Inr b)
        with le True "1.prems" have
          "sift_down_loop s h index (i + 1) (if b then index * branching_factor h + i else np) = Inl e"
          by (simp add: sift_down_loop.simps[of s h index i])
        from "1.IH"(1)[OF le refl True Inr this] show ?thesis .
      qed
    qed
  qed
qed

subsection \<open>How many frames are enough\<close>

lemma depth_mono: "i \<le> j \<Longrightarrow> depth d i \<le> depth d j"
proof (induction d j arbitrary: i rule: depth.induct)
  case (1 d j)
  show ?case
  proof (cases "1 \<le> d \<and> 0 < i")
    case False
    then show ?thesis by (auto simp: depth.simps[of d i])
  next
    case True
    with "1.prems" have j: "1 \<le> d \<and> 0 < j" by simp
    have "(i - 1) div d \<le> (j - 1) div d" using "1.prems" True by (intro zdiv_mono1) auto
    from "1.IH"[OF j this] True j show ?thesis
      by (simp add: depth.simps[of d i] depth.simps[of d j])
  qed
qed

lemma levels_mono_index: "0 \<le> i \<Longrightarrow> i \<le> j \<Longrightarrow> levels d l j \<le> levels d l i"
proof (induction d l i arbitrary: j rule: levels.induct)
  case (1 d l i)
  show ?case
  proof (cases "1 \<le> d \<and> 0 \<le> j \<and> j * d + 1 \<le> l")
    case False
    then show ?thesis by (auto simp: levels.simps[of d l j])
  next
    case True
    have le: "i * d \<le> j * d" using "1.prems" True by (intro mult_right_mono) auto
    have "i * d + 1 \<le> l" using le True by linarith
    with True "1.prems" have c: "1 \<le> d \<and> 0 \<le> i \<and> i * d + 1 \<le> l" by simp
    have "0 \<le> i * d" using c by simp
    then have "0 \<le> i * d + 1" by simp
    from "1.IH"[OF c this, of "j * d + 1"] le True c show ?thesis
      by (simp add: levels.simps[of d l i] levels.simps[of d l j])
  qed
qed

lemma levels_mono_last: "l \<le> l' \<Longrightarrow> levels d l i \<le> levels d l' i"
proof (induction d l i rule: levels.induct)
  case (1 d l i)
  show ?case
  proof (cases "1 \<le> d \<and> 0 \<le> i \<and> i * d + 1 \<le> l")
    case False
    then show ?thesis by (auto simp: levels.simps[of d l i])
  next
    case True
    with "1.prems" have c': "1 \<le> d \<and> 0 \<le> i \<and> i * d + 1 \<le> l'" by simp
    from "1.IH"[OF True "1.prems"] True c' show ?thesis
      by (simp add: levels.simps[of d l i] levels.simps[of d l' i])
  qed
qed

lemma sift_up_lim_enough:
  fixes s :: "('a::linorder) store"
  shows "1 \<le> branching_factor h \<Longrightarrow> depth (branching_factor h) index + 1 \<le> n
     \<Longrightarrow> fst (sift_up_lim n s h index) \<noteq> Inl RecursionError"
proof (induction n arbitrary: s index)
  case 0
  then show ?case by simp
next
  case (Suc n)
  let ?d = "branching_factor h"
  let ?p = "(index - 1) div ?d"
  have bf: "?d \<noteq> 0" using Suc.prems by simp
  show ?case
  proof (cases "0 \<le> ?p")
    case False
    with bf show ?thesis by (simp add: Let_def)
  next
    case p: True
    then have i: "0 < index" using Suc.prems(1) by (simp add: pos_imp_zdiv_nonneg_iff)
    with Suc.prems have dp: "depth ?d ?p + 1 \<le> n" by (simp add: depth.simps[of ?d index])
    then obtain m where n: "n = Suc m" by (cases n) auto
    show ?thesis
    proof (cases "compare s h index ?p")
      case (Inl e)
      with compare_error[OF Inl] bf p n show ?thesis by (simp add: Let_def)
    next
      case (Inr b)
      show ?thesis
      proof (cases b)
        case False
        with Inr bf p n show ?thesis by (simp add: Let_def)
      next
        case True
        obtain r1 s1 where sw: "swap s h index ?p = (r1, s1)" by (cases "swap s h index ?p")
        show ?thesis
        proof (cases r1)
          case (Inl e)
          with swap_error[of s h index ?p e s1] sw True Inr bf p n show ?thesis
            by (simp add: Let_def)
        next
          case u: (Inr u)
          from Suc.IH[OF Suc.prems(1) dp, of s1] True Inr bf p n sw u show ?thesis
            by (simp add: Let_def)
        qed
      qed
    qed
  qed
qed

lemma sift_down_lim_enough:
  fixes s :: "('a::linorder) store"
  shows "0 \<le> index \<Longrightarrow> levels (branching_factor h) (last_index h) index + 1 \<le> n
     \<Longrightarrow> fst (sift_down_lim n s h index) \<noteq> Inl RecursionError"
proof (induction n arbitrary: s index)
  case 0
  then show ?case by simp
next
  case (Suc n)
  let ?d = "branching_factor h" and ?l = "last_index h"
  show ?case
  proof (cases "1 \<le> ?d \<and> index * ?d + 1 \<le> ?l")
    case False
    have "sift_down_loop_lim n s h index 1 index = Inr index"
    proof (cases "1 \<le> ?d")
      case False
      then show ?thesis by (simp add: sift_down_loop_lim.simps[of n s h index 1])
    next
      case True
      with False show ?thesis by (intro sift_down_loop_lim_leaf) auto
    qed
    then show ?thesis by simp
  next
    case c: True
    with Suc.prems have lv: "levels ?d ?l (index * ?d + 1) + 1 \<le> n"
      by (simp add: levels.simps[of ?d ?l index])
    then obtain m where n: "n = Suc m" by (cases n) auto
    have lpe: "sift_down_loop_lim n s h index 1 index = sift_down_loop s h index 1 index"
      unfolding n by (rule sift_down_loop_lim_Suc)
    show ?thesis
    proof (cases "sift_down_loop s h index 1 index")
      case (Inl e)
      with sift_down_loop_error[OF Inl] lpe show ?thesis by simp
    next
      case (Inr np)
      show ?thesis
      proof (cases "np = index")
        case True
        with Inr lpe show ?thesis by simp
      next
        case ne: False
        from sift_down_loop_result[OF Inr] ne obtain j where
          j: "1 \<le> j" "j \<le> ?d" "np = index * ?d + j" "np \<le> ?l" by auto
        have i0: "0 \<le> index * ?d" using Suc.prems(1) c by simp
        have np0: "0 \<le> np" using j i0 by simp
        have "levels ?d ?l np \<le> levels ?d ?l (index * ?d + 1)"
          using i0 j by (intro levels_mono_index) auto
        with lv have lv': "levels ?d ?l np + 1 \<le> n" by simp
        obtain r1 s1 where sw: "swap s h index np = (r1, s1)" by (cases "swap s h index np")
        show ?thesis
        proof (cases r1)
          case (Inl e)
          with swap_error[of s h index np e s1] sw Inr ne lpe n show ?thesis by simp
        next
          case u: (Inr u)
          from Suc.IH[OF np0 lv', of s1] Inr ne lpe n sw u show ?thesis by simp
        qed
      qed
    qed
  qed
qed

lemma push_lim_enough:
  fixes s :: "('a::linorder) store"
  assumes "1 \<le> branching_factor h" "depth (branching_factor h) (last_index h + 1) + 2 \<le> n"
  shows "fst (push_lim n s h v) \<noteq> Inl RecursionError"
proof -
  from assms(2) obtain m where n: "n = Suc m" by (cases n) auto
  let ?h1 = "h\<lparr>last_index := last_index h + 1\<rparr>"
  let ?s1 = "put s (heap_array h) (cells s (heap_array h) @ [v])"
  have "fst (sift_up_lim m ?s1 ?h1 (last_index ?h1)) \<noteq> Inl RecursionError"
    using assms n by (intro sift_up_lim_enough) auto
  then show ?thesis unfolding n by (auto simp: Let_def split: prod.splits)
qed

lemma push_lim_eq:
  fixes s :: "('a::linorder) store"
  assumes "1 \<le> branching_factor h" "depth (branching_factor h) (last_index h + 1) + 2 \<le> n"
  shows "push s h v = Some (push_lim n s h v)"
proof -
  obtain r s' h' where p: "push_lim n s h v = (r, s', h')" by (cases "push_lim n s h v")
  with push_lim_enough[OF assms, of s v] have "r \<noteq> Inl RecursionError" by simp
  from push_lim_agrees[OF p this] p show ?thesis by simp
qed

lemma pop_lim_enough:
  fixes s :: "('a::linorder) store"
  assumes "levels (branching_factor h) (last_index h - 1) 0 + 2 \<le> n"
  shows "fst (pop_lim n s h) \<noteq> Inl RecursionError"
proof -
  from assms obtain k where n: "n = Suc (Suc k)" by (cases n; cases "n - 1") auto
  show ?thesis
  proof (cases "peek s h")
    case (Inl e)
    with getitem_error[of "cells s (heap_array h)" 0 e] n show ?thesis by (simp add: peek_def)
  next
    case pk: (Inr ret_val)
    obtain r1 s1 where sw: "swap s h 0 (last_index h) = (r1, s1)"
      by (cases "swap s h 0 (last_index h)")
    show ?thesis
    proof (cases r1)
      case (Inl e)
      with swap_error[of s h 0 "last_index h" e s1] pk sw n show ?thesis by simp
    next
      case u: (Inr u)
      show ?thesis
      proof (cases "list_pop (cells s1 (heap_array h)) (last_index h)")
        case (Inl e)
        with list_pop_error[OF Inl] u pk sw n show ?thesis by simp
      next
        case (Inr vxs)
        obtain v xs where vxs: "vxs = (v, xs)" by (cases vxs)
        let ?s2 = "put s1 (heap_array h) xs"
        let ?h1 = "h\<lparr>last_index := last_index h - 1\<rparr>"
        have "fst (sift_down_lim (Suc k) ?s2 ?h1 0) \<noteq> Inl RecursionError"
          using assms n by (intro sift_down_lim_enough) auto
        with Inr vxs u pk sw n show ?thesis
          by (auto simp: Let_def split: prod.splits sum.splits)
      qed
    qed
  qed
qed

lemma pop_lim_eq:
  fixes s :: "('a::linorder) store"
  assumes "levels (branching_factor h) (last_index h - 1) 0 + 2 \<le> n"
  shows "pop_lim n s h = pop s h"
proof -
  obtain r s' h' where p: "pop_lim n s h = (r, s', h')" by (cases "pop_lim n s h")
  with pop_lim_enough[OF assms, of s] have "r \<noteq> Inl RecursionError" by simp
  from pop_lim_agrees[OF p this] p show ?thesis by simp
qed

subsection \<open>What the methods leave untouched, whatever their outcome\<close>

lemma sift_up_lim_rearranged:
  fixes s :: "('a::linorder) store"
  shows "sift_up_lim n s h index = (r, s') \<Longrightarrow> rearranged s (heap_array h) s'"
proof (induction n arbitrary: s index)
  case 0
  then show ?case by auto
next
  case (Suc n)
  let ?p = "(index - 1) div branching_factor h"
  show ?case
  proof (cases "branching_factor h \<noteq> 0 \<and> 0 \<le> ?p")
    case False
    with Suc.prems have "s' = s" by (auto simp: Let_def split: if_splits)
    then show ?thesis by simp
  next
    case c: True
    show ?thesis
    proof (cases "compare_lim n s h index ?p")
      case (Inl e)
      with c Suc.prems have "s' = s" by (auto simp: Let_def)
      then show ?thesis by simp
    next
      case (Inr b)
      show ?thesis
      proof (cases b)
        case False
        with Inr c Suc.prems have "s' = s" by (auto simp: Let_def)
        then show ?thesis by simp
      next
        case True
        show ?thesis
        proof (cases n)
          case 0
          with Inr show ?thesis by simp
        next
          case n: (Suc m)
          obtain r1 s1 where sw: "swap s h index ?p = (r1, s1)" by (cases "swap s h index ?p")
          have re1: "rearranged s (heap_array h) s1" using sw by (rule swap_rearranged)
          show ?thesis
          proof (cases r1)
            case (Inl e)
            with True Inr c n sw Suc.prems have "s' = s1" by (auto simp: Let_def)
            with re1 show ?thesis by simp
          next
            case u: (Inr u)
            with True Inr c n sw Suc.prems have "sift_up_lim n s1 h ?p = (r, s')"
              by (auto simp: Let_def)
            from Suc.IH[OF this] have "rearranged s1 (heap_array h) s'" .
            with re1 show ?thesis by (rule rearranged_trans)
          qed
        qed
      qed
    qed
  qed
qed

lemma sift_down_lim_rearranged:
  fixes s :: "('a::linorder) store"
  shows "sift_down_lim n s h index = (r, s') \<Longrightarrow> rearranged s (heap_array h) s'"
proof (induction n arbitrary: s index)
  case 0
  then show ?case by auto
next
  case (Suc n)
  show ?case
  proof (cases "sift_down_loop_lim n s h index 1 index")
    case (Inl e)
    with Suc.prems have "s' = s" by auto
    then show ?thesis by simp
  next
    case (Inr np)
    show ?thesis
    proof (cases "np = index")
      case True
      with Inr Suc.prems have "s' = s" by auto
      then show ?thesis by simp
    next
      case ne: False
      show ?thesis
      proof (cases n)
        case 0
        with Inr ne Suc.prems have "s' = s" by auto
        then show ?thesis by simp
      next
        case n: (Suc m)
        obtain r1 s1 where sw: "swap s h index np = (r1, s1)" by (cases "swap s h index np")
        have re1: "rearranged s (heap_array h) s1" using sw by (rule swap_rearranged)
        show ?thesis
        proof (cases r1)
          case (Inl e)
          with Inr ne n sw Suc.prems have "s' = s1" by auto
          with re1 show ?thesis by simp
        next
          case u: (Inr u)
          with Inr ne n sw Suc.prems have "sift_down_lim n s1 h np = (r, s')" by simp
          from Suc.IH[OF this] have "rearranged s1 (heap_array h) s'" .
          with re1 show ?thesis by (rule rearranged_trans)
        qed
      qed
    qed
  qed
qed

lemma push_lim_shape:
  fixes s :: "('a::linorder) store"
  assumes "push_lim n s h v = (r, s', h')"
  shows "(n = 0 \<and> r = Inl RecursionError \<and> s' = s \<and> h' = h)
       \<or> (0 < n \<and> h' = h\<lparr>last_index := last_index h + 1\<rparr>
          \<and> rearranged (put s (heap_array h) (cells s (heap_array h) @ [v])) (heap_array h) s')"
proof (cases n)
  case 0
  with assms show ?thesis by simp
next
  case (Suc m)
  let ?h1 = "h\<lparr>last_index := last_index h + 1\<rparr>"
  let ?s1 = "put s (heap_array h) (cells s (heap_array h) @ [v])"
  from assms Suc have "sift_up_lim m ?s1 ?h1 (last_index h + 1) = (r, s')" and "h' = ?h1"
    by (auto simp: Let_def split: prod.splits)
  with sift_up_lim_rearranged[of m ?s1 ?h1 "last_index h + 1" r s'] Suc show ?thesis by simp
qed

lemma push_lim_frame:
  fixes s :: "('a::linorder) store"
  assumes "push_lim n s h v = (r, s', h')"
  shows "heap_array h' = heap_array h \<and> max_heap h' = max_heap h
       \<and> branching_factor h' = branching_factor h
       \<and> last_index h' \<le> last_index h + 1
       \<and> (r = Inr () \<longrightarrow> last_index h' = last_index h + 1)
       \<and> next_ref s' = next_ref s
       \<and> (\<forall>r'. r' \<noteq> heap_array h \<longrightarrow> cells s' r' = cells s r')"
  using push_lim_shape[OF assms] by (auto simp: rearranged_def)

lemma push_lim_storage_fits:
  fixes s :: "('a::linorder) store"
  assumes "push_lim n s h v = (r, s', h')" "storage_fits s h"
  shows "storage_fits s' h'"
  using push_lim_shape[OF assms(1)] assms(2)
    rearranged_length[of "put s (heap_array h) (cells s (heap_array h) @ [v])" "heap_array h" s'
      "heap_array h"]
  by (auto simp: storage_fits_def)

lemma pop_steps:
  fixes s :: "('a::linorder) store"
  assumes fits: "storage_fits s h" and ne: "len h \<noteq> 0"
  shows "\<exists>zs. peek s h = Inr (item (cells s (heap_array h)) 0)
      \<and> swap s h 0 (last_index h)
          = (Inr (), put s (heap_array h) (swapped (cells s (heap_array h)) 0 (last_index h)))
      \<and> list_pop (swapped (cells s (heap_array h)) 0 (last_index h)) (last_index h)
          = Inr (item (cells s (heap_array h)) 0, zs)
      \<and> add_mset (item (cells s (heap_array h)) 0) (mset zs) = mset (cells s (heap_array h))
      \<and> int (length zs) = last_index h"
proof -
  let ?r = "heap_array h"
  let ?xs = "cells s ?r"
  let ?li = "last_index h"
  have len: "int (length ?xs) = ?li + 1" using fits by (simp add: storage_fits_def)
  have li0: "0 \<le> ?li" using len ne by (simp add: len_def)
  have pk: "peek s h = Inr (item ?xs 0)"
    using len li0 by (simp add: peek_def getitem_in_range)
  let ?ys = "swapped ?xs 0 ?li"
  have sw: "swap s h 0 ?li = (Inr (), put s ?r ?ys)" using len li0 by (intro swap_in_range) auto
  have ylast: "?ys ! nat ?li = item ?xs 0"
    using item_swapped[of 0 ?xs ?li ?li] len li0 by (simp add: item_def)
  let ?zs = "take (nat ?li) ?ys"
  have nli: "nat ?li = length ?ys - 1" "Suc (nat ?li) = length ?ys" using len li0 by auto
  have lp: "list_pop ?ys ?li = Inr (item ?xs 0, ?zs)"
    using len li0 ylast by (simp add: list_pop_def norm_index_nonneg)
  have ms: "add_mset (item ?xs 0) (mset ?zs) = mset ?xs"
  proof -
    have "0 < int (length ?ys)" using len li0 by simp
    then have ne': "?ys \<noteq> []" by (cases ?ys) simp_all
    have "?zs = butlast ?ys" using nli by (simp add: butlast_conv_take)
    moreover have "last ?ys = item ?xs 0" using ylast ne' nli by (simp add: last_conv_nth)
    moreover have "mset (butlast ?ys) + {#last ?ys#} = mset ?ys"
      using ne' by (metis append_butlast_last_id mset.simps(2) mset_append add_mset_add_single mset.simps(1))
    moreover have "mset ?ys = mset ?xs" using len li0 by (intro mset_swapped) auto
    ultimately show ?thesis by simp
  qed
  have "int (length ?zs) = ?li" using len li0 by simp
  with pk sw lp ms show ?thesis by (intro exI[of _ ?zs]) simp
qed

lemma pop_lim_overflow:
  fixes s :: "('a::linorder) store"
  assumes p: "pop_lim n s h = (Inl RecursionError, s', h')" and fits: "storage_fits s h"
  shows "(n < 2 \<and> s' = s \<and> h' = h)
       \<or> (2 \<le> n \<and> len h \<noteq> 0 \<and> h' = h\<lparr>last_index := last_index h - 1\<rparr>
          \<and> next_ref s' = next_ref s
          \<and> (\<forall>r'. r' \<noteq> heap_array h \<longrightarrow> cells s' r' = cells s r')
          \<and> add_mset (item (cells s (heap_array h)) 0) (mset (cells s' (heap_array h)))
              = mset (cells s (heap_array h))
          \<and> int (length (cells s' (heap_array h))) = last_index h)"
proof (cases n)
  case 0
  with p show ?thesis by simp
next
  case n: (Suc m)
  show ?thesis
  proof (cases m)
    case 0
    with n p show ?thesis by simp
  next
    case m: (Suc k)
    have ne: "len h \<noteq> 0"
    proof
      assume "len h = 0"
      have "peek s h = Inl IndexError"
        using fits \<open>len h = 0\<close>
        by (simp add: peek_def getitem_def norm_index_def storage_fits_def len_def)
      with n m have "pop_lim n s h = (Inl IndexError, s, h)" by simp
      with p show False by simp
    qed
    let ?r = "heap_array h"
    let ?xs = "cells s ?r"
    let ?li = "last_index h"
    let ?h1 = "h\<lparr>last_index := ?li - 1\<rparr>"
    from pop_steps[OF fits ne] obtain zs where st:
      "peek s h = Inr (item ?xs 0)"
      "swap s h 0 ?li = (Inr (), put s ?r (swapped ?xs 0 ?li))"
      "list_pop (swapped ?xs 0 ?li) ?li = Inr (item ?xs 0, zs)"
      "add_mset (item ?xs 0) (mset zs) = mset ?xs" "int (length zs) = ?li"
      by blast
    let ?s2 = "put s ?r zs"
    obtain r3 s3 where sd: "sift_down_lim m ?s2 ?h1 0 = (r3, s3)"
      by (cases "sift_down_lim m ?s2 ?h1 0")
    from st sd n m have "pop_lim n s h = (case r3 of Inl e \<Rightarrow> (Inl e, s3, ?h1)
                                   | Inr u \<Rightarrow> (Inr (item ?xs 0), s3, ?h1))"
      by (simp add: Let_def)
    with p have e: "s' = s3" "h' = ?h1" by (cases r3; simp)+
    from sift_down_lim_rearranged[OF sd] have re: "rearranged ?s2 ?r s3" by simp
    then have "mset (cells s3 ?r) = mset zs" "length (cells s3 ?r) = length zs"
      "next_ref s3 = next_ref s" "\<forall>r'. r' \<noteq> ?r \<longrightarrow> cells s3 r' = cells s r'"
      using rearranged_length[OF re, of ?r] by (auto simp: rearranged_def)
    with e st n m ne show ?thesis by simp
  qed
qed

lemma pop_lim_storage_fits:
  fixes s :: "('a::linorder) store"
  assumes p: "pop_lim n s h = (r, s', h')" and fits: "storage_fits s h"
  shows "storage_fits s' h'"
proof (cases "r = Inl RecursionError")
  case False
  from pop_lim_agrees[OF p False] have "pop s h = (r, s', h')" .
  from pop_storage_fits[OF this fits] show ?thesis .
next
  case True
  from pop_lim_overflow[OF p[unfolded True] fits] fits show ?thesis
    by (auto simp: storage_fits_def)
qed

lemma pop_fields:
  fixes s :: "('a::linorder) store"
  assumes "pop s h = (r, s', h')"
  shows "heap_array h' = heap_array h \<and> max_heap h' = max_heap h
       \<and> branching_factor h' = branching_factor h \<and> last_index h' \<le> last_index h"
  using assms by (auto simp: pop_def Let_def split: sum.splits prod.splits)

subsection \<open>The constructor and heapify under the recursion limit\<close>

lemma push_all_lim_frame:
  fixes s :: "('a::linorder) store"
  shows "push_all_lim n s h vs = (r, s', h') \<Longrightarrow>
       heap_array h' = heap_array h \<and> max_heap h' = max_heap h
       \<and> branching_factor h' = branching_factor h
       \<and> next_ref s' = next_ref s
       \<and> (\<forall>r'. r' \<noteq> heap_array h \<longrightarrow> cells s' r' = cells s r')"
proof (induction vs arbitrary: s h)
  case Nil
  then show ?case by simp
next
  case (Cons v vs)
  obtain r1 s1 h1 where p: "push_lim n s h v = (r1, s1, h1)" by (cases "push_lim n s h v")
  note f = push_lim_frame[OF p]
  show ?case
  proof (cases r1)
    case (Inl e)
    with p Cons.prems f show ?thesis by auto
  next
    case (Inr u)
    with p Cons.prems have "push_all_lim n s1 h1 vs = (r, s', h')" by simp
    from Cons.IH[OF this] f show ?thesis by auto
  qed
qed

lemma push_all_lim_agrees:
  fixes s :: "('a::linorder) store"
  shows "push_all_lim n s h vs = (r, s', h') \<Longrightarrow> r \<noteq> Inl RecursionError
     \<Longrightarrow> push_all s h vs = Some (r, s', h')"
proof (induction vs arbitrary: s h)
  case Nil
  then show ?case by simp
next
  case (Cons v vs)
  obtain r1 s1 h1 where p: "push_lim n s h v = (r1, s1, h1)" by (cases "push_lim n s h v")
  show ?case
  proof (cases r1)
    case (Inl e)
    with p Cons.prems have e: "r = Inl e" "s' = s1" "h' = h1" by auto
    with Cons.prems(2) Inl p have "push s h v = Some (Inl e, s1, h1)"
      by (intro push_lim_agrees[of n]) auto
    with e show ?thesis by simp
  next
    case (Inr u)
    with p have "push s h v = Some (Inr u, s1, h1)" by (intro push_lim_agrees[of n]) auto
    moreover from Inr p Cons.prems have "push_all_lim n s1 h1 vs = (r, s', h')" by simp
    from Cons.IH[OF this Cons.prems(2)] have "push_all s1 h1 vs = Some (r, s', h')" .
    ultimately show ?thesis by simp
  qed
qed

lemma push_all_lim_enough:
  fixes s :: "('a::linorder) store"
  shows "1 \<le> branching_factor h
     \<Longrightarrow> depth (branching_factor h) (last_index h + int (length vs)) + 2 \<le> n
     \<Longrightarrow> fst (push_all_lim n s h vs) \<noteq> Inl RecursionError"
proof (induction vs arbitrary: s h)
  case Nil
  then show ?case by simp
next
  case (Cons v vs)
  obtain r1 s1 h1 where p: "push_lim n s h v = (r1, s1, h1)" by (cases "push_lim n s h v")
  have "depth (branching_factor h) (last_index h + 1)
          \<le> depth (branching_factor h) (last_index h + int (length (v # vs)))"
    by (intro depth_mono) simp
  with Cons.prems have en: "depth (branching_factor h) (last_index h + 1) + 2 \<le> n" by simp
  from push_lim_enough[OF Cons.prems(1) en, of s v] p have r1: "r1 \<noteq> Inl RecursionError" by simp
  note f = push_lim_frame[OF p]
  show ?case
  proof (cases r1)
    case (Inl e)
    with p r1 show ?thesis by simp
  next
    case (Inr u)
    with f have li: "last_index h1 = last_index h + 1" "branching_factor h1 = branching_factor h"
      by simp_all
    have "fst (push_all_lim n s1 h1 vs) \<noteq> Inl RecursionError"
      using Cons.prems li by (intro Cons.IH) (simp_all add: algebra_simps)
    with Inr p show ?thesis by simp
  qed
qed

lemma init_loop_lim_is_push_all_lim:
  fixes s :: "('a::linorder) store"
  assumes "src \<noteq> heap_array h"
  shows "init_loop_lim n s h src i = Some (push_all_lim n s h (drop i (cells s src)))"
  using assms
proof (induction "length (cells s src) - i" arbitrary: s h i)
  case 0
  then show ?case by (subst init_loop_lim.simps) simp
next
  case (Suc m)
  let ?v = "cells s src ! i"
  from Suc.hyps(2) have lt: "i < length (cells s src)" by simp
  then have dr: "drop i (cells s src) = ?v # drop (Suc i) (cells s src)"
    by (simp add: Cons_nth_drop_Suc)
  obtain r1 s1 h1 where p: "push_lim n s h ?v = (r1, s1, h1)" by (cases "push_lim n s h ?v")
  from push_lim_frame[OF p] Suc.prems
  have h1: "heap_array h1 = heap_array h" and c1: "cells s1 src = cells s src" by auto
  show ?case
  proof (cases r1)
    case (Inl e)
    with p lt dr show ?thesis by (subst init_loop_lim.simps) simp
  next
    case (Inr u)
    have "m = length (cells s1 src) - Suc i" using Suc.hyps(2) c1 by simp
    from Suc.hyps(1)[OF this] Suc.prems h1 c1
    have "init_loop_lim n s1 h1 src (Suc i)
            = Some (push_all_lim n s1 h1 (drop (Suc i) (cells s src)))" by simp
    with p Inr lt dr show ?thesis by (subst init_loop_lim.simps) simp
  qed
qed

lemma DHeap_init_lim_from:
  fixes s :: "('a::linorder) store"
  assumes "src < next_ref s"
  shows "DHeap_init_lim (Suc n) s (Some src) mh bf
       = Some (case push_all_lim n (fst (DHeap_new s mh bf)) (snd (DHeap_new s mh bf)) (cells s src) of
                 (Inl e, s1, h1) \<Rightarrow> (Inl e, s1)
               | (Inr u, s1, h1) \<Rightarrow> (Inr h1, s1))"
proof -
  let ?s0 = "fst (DHeap_new s mh bf)" and ?h0 = "snd (DHeap_new s mh bf)"
  have ne: "src \<noteq> heap_array ?h0" using assms by (simp add: DHeap_new_def)
  have c0: "cells ?s0 src = cells s src" using assms by (simp add: DHeap_new_def)
  have "init_loop_lim n ?s0 ?h0 src 0 = Some (push_all_lim n ?s0 ?h0 (cells s src))"
    using init_loop_lim_is_push_all_lim[OF ne, of n ?s0 0] c0 by simp
  then show ?thesis by (simp add: case_prod_unfold split: sum.splits)
qed

lemma DHeap_init_lim_agrees:
  fixes s :: "('a::linorder) store"
  assumes ret: "DHeap_init_lim n s c mh bf = Some (r, s')" and r: "r \<noteq> Inl RecursionError"
    and src: "\<forall>src. c = Some src \<longrightarrow> src < next_ref s"
  shows "DHeap_init s c mh bf = Some (r, s')"
proof (cases n)
  case 0
  with ret r show ?thesis by simp
next
  case n: (Suc m)
  show ?thesis
  proof (cases c)
    case None
    with ret n show ?thesis by (simp add: DHeap_init_def split: prod.splits)
  next
    case (Some src')
    with src have lt: "src' < next_ref s" by simp
    let ?s0 = "fst (DHeap_new s mh bf)" and ?h0 = "snd (DHeap_new s mh bf)"
    have ne: "src' \<noteq> heap_array ?h0" using lt by (simp add: DHeap_new_def)
    have c0: "cells ?s0 src' = cells s src'" using lt by (simp add: DHeap_new_def)
    obtain r1 s1 h1 where pa: "push_all_lim m ?s0 ?h0 (cells s src') = (r1, s1, h1)"
      by (cases "push_all_lim m ?s0 ?h0 (cells s src')")
    from ret n Some DHeap_init_lim_from[OF lt, of m mh bf] pa
    have res: "(r, s') = (case r1 of Inl e \<Rightarrow> (Inl e, s1) | Inr u \<Rightarrow> (Inr h1, s1))"
      by (simp split: sum.splits)
    with r have "r1 \<noteq> Inl RecursionError" by (cases r1) auto
    from push_all_lim_agrees[OF pa this]
    have "init_loop ?s0 ?h0 src' 0 = Some (r1, s1, h1)"
      using init_loop_is_push_all[OF ne, of ?s0 0] c0 by simp
    with res Some show ?thesis by (cases r1) (auto simp: DHeap_init_def case_prod_unfold)
  qed
qed

lemma heapify_loop_lim_agrees:
  fixes s :: "('a::linorder) store"
  shows "heapify_loop_lim n s h start = (r, s') \<Longrightarrow> r \<noteq> Inl RecursionError
     \<Longrightarrow> heapify_loop s h start = (r, s')"
proof (induction n s h start rule: heapify_loop_lim.induct)
  case (1 n s h start)
  show ?case
  proof (cases "0 \<le> start")
    case False
    with "1.prems" have "r = Inr ()" "s' = s"
      by (auto simp: heapify_loop_lim.simps[of n s h start])
    with False show ?thesis by (simp add: heapify_loop.simps[of s h start])
  next
    case st: True
    obtain r1 s1 where sd: "sift_down_lim n s h start = (r1, s1)"
      by (cases "sift_down_lim n s h start")
    show ?thesis
    proof (cases r1)
      case (Inl e)
      with st sd "1.prems" have e: "r = Inl e" "s' = s1"
        by (simp_all add: heapify_loop_lim.simps[of n s h start])
      with "1.prems"(2) sd Inl have "sift_down s h start = (Inl e, s1)"
        by (intro sift_down_lim_agrees[of n]) auto
      with st e show ?thesis by (simp add: heapify_loop.simps[of s h start])
    next
      case (Inr u)
      with sd have a: "sift_down s h start = (Inr u, s1)"
        by (intro sift_down_lim_agrees[of n]) auto
      from Inr st sd "1.prems" have "heapify_loop_lim n s1 h (start - 1) = (r, s')"
        by (simp add: heapify_loop_lim.simps[of n s h start])
      from "1.IH"[OF st sd[symmetric] Inr this "1.prems"(2)] a st show ?thesis
        by (simp add: heapify_loop.simps[of s h start])
    qed
  qed
qed

lemma heapify_lim_agrees:
  fixes s :: "('a::linorder) store"
  assumes ret: "heapify_lim n s r mh bf = (res, s')" and res: "res \<noteq> Inl RecursionError"
  shows "heapify s r mh bf = (res, s')"
proof (cases n)
  case 0
  with ret res show ?thesis by simp
next
  case n: (Suc m)
  show ?thesis
  proof (cases "m = 0")
    case True
    with n ret res show ?thesis by simp
  next
    case m: False
    let ?s0 = "fst (DHeap_new s mh bf)"
    let ?heap = "(snd (DHeap_new s mh bf))\<lparr>heap_array := r,
                   last_index := int (length (cells ?s0 r)) - 1\<rparr>"
    show ?thesis
    proof (cases "bf = 0")
      case True
      with n m ret show ?thesis
        by (auto simp: heapify_def DHeap_new_def Let_def)
    next
      case bf: False
      then have bf': "branching_factor ?heap \<noteq> 0" by (simp add: DHeap_new_def)
      obtain r1 s1 where lp:
        "heapify_loop_lim m ?s0 ?heap ((last_index ?heap - 1) div branching_factor ?heap) = (r1, s1)"
        by (cases "heapify_loop_lim m ?s0 ?heap ((last_index ?heap - 1) div branching_factor ?heap)")
      from ret n m bf' lp
      have e: "(res, s') = (case r1 of Inl e \<Rightarrow> (Inl e, s1) | Inr u \<Rightarrow> (Inr ?heap, s1))"
        by (simp add: case_prod_unfold Let_def split: sum.splits)
      with res have "r1 \<noteq> Inl RecursionError" by (cases r1) auto
      from heapify_loop_lim_agrees[OF lp this] e bf' show ?thesis
        by (cases r1) (auto simp: heapify_def case_prod_unfold Let_def)
    qed
  qed
qed

subsection \<open>The invariant of a heap object under the recursion limit\<close>

lemma reached_invariant:
  fixes s :: "('a::linorder) store"
  assumes "reached b s h"
  shows "storage_fits s h \<and> (\<not> b \<longrightarrow> heap_property s h)"
  using assms
proof (induction rule: reached.induct)
  case (constructed frames s mh bf h s')
  then have "DHeap_init s None mh bf = Some (Inr h, s')"
    by (intro DHeap_init_lim_agrees[of frames]) auto
  then show ?case
    by (auto simp: DHeap_init_def split: prod.splits dest: DHeap_new_valid)
next
  case (constructed_from src s frames mh bf h s')
  then have "DHeap_init s (Some src) mh bf = Some (Inr h, s')"
    by (intro DHeap_init_lim_agrees[of frames]) auto
  from DHeap_init_from_post[OF constructed_from(1) this] show ?case by simp
next
  case (heapified r s frames mh bf h s')
  then have hf: "heapify s r mh bf = (Inr h, s')" by (intro heapify_lim_agrees[of frames]) auto
  have bf: "bf \<noteq> 0" using hf by (auto simp: heapify_def DHeap_new_def Let_def)
  from heapify_spec[OF heapified(1) bf, of mh] hf
  have "heap_property s' h" "h = \<lparr>heap_array = r, last_index = int (length (cells s r)) - 1,
                max_heap = mh, branching_factor = bf\<rparr>"
    "mset (cells s' r) = mset (cells s r)"
    by auto
  moreover from this(3) have "length (cells s' r) = length (cells s r)" by (rule mset_eq_length)
  ultimately show ?case by (simp add: storage_fits_def)
next
  case (pushed b s h frames v res s' h')
  from push_lim_agrees[OF pushed(2,3)] have p: "push s h v = Some (res, s', h')" .
  from push_lim_storage_fits[OF pushed(2)] pushed.IH have "storage_fits s' h'" by simp
  moreover have "\<not> b \<longrightarrow> heap_property s' h'" using push_preserves[OF p] pushed.IH by blast
  ultimately show ?case by simp
next
  case (push_overflowed b s h frames v s' h')
  from push_lim_storage_fits[OF push_overflowed(2)] push_overflowed.IH show ?case by simp
next
  case (popped b s h frames res' s' h')
  from pop_lim_agrees[OF popped(2,3)] have p: "pop s h = (res', s', h')" .
  from pop_lim_storage_fits[OF popped(2)] popped.IH have "storage_fits s' h'" by simp
  moreover have "\<not> b \<longrightarrow> heap_property s' h'" using pop_preserves[OF p] popped.IH by blast
  ultimately show ?case by simp
next
  case (pop_overflowed b s h frames s' h')
  from pop_lim_storage_fits[OF pop_overflowed(2)] pop_overflowed.IH show ?case by simp
qed

subsection \<open>Popping everything under the recursion limit\<close>

lemma pop_n_lim_eq:
  fixes s :: "('a::linorder) store"
  shows "levels (branching_factor h) (last_index h - 1) 0 + 2 \<le> n
     \<Longrightarrow> pop_n_lim n k s h = pop_n k s h"
proof (induction k arbitrary: s h)
  case 0
  then show ?case by simp
next
  case (Suc k)
  have pe: "pop_lim n s h = pop s h" using Suc.prems by (rule pop_lim_eq)
  obtain r1 s1 h1 where p: "pop s h = (r1, s1, h1)" by (cases "pop s h")
  from pop_fields[OF p] have f: "branching_factor h1 = branching_factor h"
    "last_index h1 \<le> last_index h" by simp_all
  have "levels (branching_factor h1) (last_index h1 - 1) 0
          \<le> levels (branching_factor h) (last_index h - 1) 0"
    unfolding f(1) using f(2) by (intro levels_mono_last) simp
  with Suc.prems have "levels (branching_factor h1) (last_index h1 - 1) 0 + 2 \<le> n" by simp
  from Suc.IH[OF this] have "pop_n_lim n k s1 h1 = pop_n k s1 h1" .
  with pe p show ?case by (cases r1) simp_all
qed

subsection \<open>Example runs\<close>

lemma pair_eqI: "fst p = a \<Longrightarrow> fst (snd p) = b \<Longrightarrow> snd (snd p) = c \<Longrightarrow> p = (a, b, c)"
  by (cases p) auto

lemma pair2_eqI: "fst p = a \<Longrightarrow> snd p = b \<Longrightarrow> p = (a, b)"
  by (cases p) auto

lemma chain_run:
  "heapify_lim 9 (store_of [5, 4, 3, 2, 1 :: int]) 0 True 1 = (Inr chain_heap, chain_store)"
  "cells chain_store 0 = [5, 4, 3, 2, 1]"
  "push_lim 3 chain_store chain_heap 9
     = (Inl RecursionError, chain_overflowed, chain_heap\<lparr>last_index := 5\<rparr>)"
  "cells chain_overflowed 0 = [5, 4, 3, 2, 9, 1]"
  "push_lim 9 chain_overflowed (chain_heap\<lparr>last_index := 5\<rparr>) 0
     = (Inr (), chain_after, chain_heap\<lparr>last_index := 6\<rparr>)"
  "cells chain_after 0 = [5, 4, 3, 2, 9, 1, 0]"
proof -
  have "fst (heapify_lim 9 (store_of [5, 4, 3, 2, 1 :: int]) 0 True 1) = Inr chain_heap"
    by code_simp
  then show "heapify_lim 9 (store_of [5, 4, 3, 2, 1 :: int]) 0 True 1 = (Inr chain_heap, chain_store)"
    by (intro pair2_eqI) (simp_all add: chain_store_def)
  show "cells chain_store 0 = [5, 4, 3, 2, 1]" by code_simp
  have "fst (push_lim 3 chain_store chain_heap 9) = Inl RecursionError"
    "snd (snd (push_lim 3 chain_store chain_heap 9)) = chain_heap\<lparr>last_index := 5\<rparr>"
    by code_simp+
  then show "push_lim 3 chain_store chain_heap 9
     = (Inl RecursionError, chain_overflowed, chain_heap\<lparr>last_index := 5\<rparr>)"
    by (intro pair_eqI) (simp_all add: chain_overflowed_def)
  show "cells chain_overflowed 0 = [5, 4, 3, 2, 9, 1]" by code_simp
  have "fst (push_lim 9 chain_overflowed (chain_heap\<lparr>last_index := 5\<rparr>) 0) = Inr ()"
    "snd (snd (push_lim 9 chain_overflowed (chain_heap\<lparr>last_index := 5\<rparr>) 0))
       = chain_heap\<lparr>last_index := 6\<rparr>"
    by code_simp+
  then show "push_lim 9 chain_overflowed (chain_heap\<lparr>last_index := 5\<rparr>) 0
     = (Inr (), chain_after, chain_heap\<lparr>last_index := 6\<rparr>)"
    by (intro pair_eqI) (simp_all add: chain_after_def)
  show "cells chain_after 0 = [5, 4, 3, 2, 9, 1, 0]" by code_simp
qed

lemma chain_after_broken: "\<not> heap_property chain_after (chain_heap\<lparr>last_index := 6\<rparr>)"
proof
  assume "heap_property chain_after (chain_heap\<lparr>last_index := 6\<rparr>)"
  then have "0 \<le> (3::int) \<and> 3 < len (chain_heap\<lparr>last_index := 6\<rparr>) \<and> 0 \<le> (0::int)
        \<and> 0 < branching_factor (chain_heap\<lparr>last_index := 6\<rparr>)
        \<and> 3 * branching_factor (chain_heap\<lparr>last_index := 6\<rparr>) + 0 + 1
            < len (chain_heap\<lparr>last_index := 6\<rparr>)
      \<longrightarrow> at_least (max_heap (chain_heap\<lparr>last_index := 6\<rparr>))
            (item (cells chain_after (heap_array (chain_heap\<lparr>last_index := 6\<rparr>))) 3)
            (item (cells chain_after (heap_array (chain_heap\<lparr>last_index := 6\<rparr>)))
               (3 * branching_factor (chain_heap\<lparr>last_index := 6\<rparr>) + 0 + 1))"
    unfolding heap_property_def by blast
  then show False
    by (simp add: chain_heap_def len_def chain_run(6) item_def at_least_def)
qed

lemma run_steps:
  "DHeap_init_lim 9 (store_of [1, 1, 5, 10, - 23, 105 :: int]) (Some 0) True 2
     = Some (Inr run_heap, run_built)"
  "cells run_built 1 = [105, 5, 10, 1, - 23, 1]"
  "push_lim 9 run_built run_heap 1000 = (Inr (), run_pushed, run_heap\<lparr>last_index := 6\<rparr>)"
  "cells run_pushed 1 = [1000, 5, 105, 1, - 23, 1, 10]"
  "pop_lim 9 run_pushed (run_heap\<lparr>last_index := 6\<rparr>) = (Inr 1000, run_popped, run_heap)"
  "cells run_popped 1 = [105, 5, 10, 1, - 23, 1]"
proof -
  have "map_option fst (DHeap_init_lim 9 (store_of [1, 1, 5, 10, - 23, 105 :: int]) (Some 0) True 2)
      = Some (Inr run_heap)"
    by code_simp
  then show "DHeap_init_lim 9 (store_of [1, 1, 5, 10, - 23, 105 :: int]) (Some 0) True 2
     = Some (Inr run_heap, run_built)"
    by (auto simp: run_built_def)
  show "cells run_built 1 = [105, 5, 10, 1, - 23, 1]" by code_simp
  have "fst (push_lim 9 run_built run_heap 1000) = Inr ()"
    "snd (snd (push_lim 9 run_built run_heap 1000)) = run_heap\<lparr>last_index := 6\<rparr>"
    by code_simp+
  then show "push_lim 9 run_built run_heap 1000 = (Inr (), run_pushed, run_heap\<lparr>last_index := 6\<rparr>)"
    by (intro pair_eqI) (simp_all add: run_pushed_def)
  show "cells run_pushed 1 = [1000, 5, 105, 1, - 23, 1, 10]" by code_simp
  have "fst (pop_lim 9 run_pushed (run_heap\<lparr>last_index := 6\<rparr>)) = Inr 1000"
    "snd (snd (pop_lim 9 run_pushed (run_heap\<lparr>last_index := 6\<rparr>))) = run_heap"
    by code_simp+
  then show "pop_lim 9 run_pushed (run_heap\<lparr>last_index := 6\<rparr>) = (Inr 1000, run_popped, run_heap)"
    by (intro pair_eqI) (simp_all add: run_popped_def)
  show "cells run_popped 1 = [105, 5, 10, 1, - 23, 1]" by code_simp
qed

lemma run_reached:
  "reached False run_built run_heap"
  "reached False run_pushed (run_heap\<lparr>last_index := 6\<rparr>)"
  "reached False run_popped run_heap"
proof -
  have n: "(0::nat) < next_ref (store_of [1, 1, 5, 10, - 23, 105 :: int])"
    by (simp add: store_of_def)
  show a: "reached False run_built run_heap"
    by (rule reached.constructed_from[OF n run_steps(1)])
  show b: "reached False run_pushed (run_heap\<lparr>last_index := 6\<rparr>)"
    by (rule reached.pushed[OF a run_steps(3)]) simp
  show "reached False run_popped run_heap"
    by (rule reached.popped[OF b run_steps(5)]) simp
qed

lemma neg_run:
  "DHeap_init_lim 9 (store_of [1, 2, 3 :: int]) (Some 0) True (- 2) = Some (Inr neg_heap, neg_built)"
  "cells neg_built 1 = [2, 1, 3]"
  "reached False neg_built neg_heap"
proof -
  have "map_option fst (DHeap_init_lim 9 (store_of [1, 2, 3 :: int]) (Some 0) True (- 2))
      = Some (Inr neg_heap)"
    by code_simp
  then show e: "DHeap_init_lim 9 (store_of [1, 2, 3 :: int]) (Some 0) True (- 2)
      = Some (Inr neg_heap, neg_built)"
    by (auto simp: neg_built_def)
  show "cells neg_built 1 = [2, 1, 3]" by code_simp
  have n: "(0::nat) < next_ref (store_of [1, 2, 3 :: int])" by (simp add: store_of_def)
  show "reached False neg_built neg_heap" by (rule reached.constructed_from[OF n e])
qed

lemma chain_reached: "reached False chain_store chain_heap"
proof -
  have n: "(0::nat) < next_ref (store_of [5, 4, 3, 2, 1 :: int])" by (simp add: store_of_def)
  show ?thesis by (rule reached.heapified[OF n chain_run(1)])
qed

lemma dual_run:
  "DHeap_init_lim 9 (store_of [- 10, 0, 5, - 2, 5, 1024, - 999 :: int]) (Some 0) True 2
     = Some (Inr dual_heap, dual_built)"
  "cells dual_built (heap_array dual_heap) = [1024, 5, 5, - 10, - 2, 0, - 999]"
  "reached False dual_built dual_heap"
proof -
  have "map_option fst
      (DHeap_init_lim 9 (store_of [- 10, 0, 5, - 2, 5, 1024, - 999 :: int]) (Some 0) True 2)
      = Some (Inr dual_heap)"
    by code_simp
  then show e: "DHeap_init_lim 9 (store_of [- 10, 0, 5, - 2, 5, 1024, - 999 :: int]) (Some 0) True 2
      = Some (Inr dual_heap, dual_built)"
    by (auto simp: dual_built_def)
  show "cells dual_built (heap_array dual_heap) = [1024, 5, 5, - 10, - 2, 0, - 999]" by code_simp
  have n: "(0::nat) < next_ref (store_of [- 10, 0, 5, - 2, 5, 1024, - 999 :: int])"
    by (simp add: store_of_def)
  show "reached False dual_built dual_heap" by (rule reached.constructed_from[OF n e])
qed

subsection \<open>When the recursion limit is hit\<close>

lemma depth_pos: "1 \<le> d \<Longrightarrow> 0 < i \<Longrightarrow> depth d i = Suc (depth d (par d i))"
  by (simp add: depth.simps[of d i] par_def)

lemma depth_zero: "i \<le> 0 \<Longrightarrow> depth d i = 0"
  by (simp add: depth.simps[of d i])

lemma depth_one: "depth 1 i = nat i"
proof (induction "nat i" arbitrary: i)
  case 0
  then show ?case by (simp add: depth_zero)
next
  case (Suc k)
  then have i: "0 < i" and k: "k = nat (i - 1)" by auto
  from Suc.hyps(1)[OF k] have "depth 1 (i - 1) = nat (i - 1)" .
  with i show ?case by (simp add: depth_pos par_def)
qed

lemma sift_up_lim_overflow:
  fixes s :: "('a::linorder) store"
  assumes "1 \<le> branching_factor h"
  shows "0 \<le> index \<Longrightarrow> index < int (length (cells s (heap_array h)))
     \<Longrightarrow> \<forall>j. 0 \<le> j \<and> j < index
           \<longrightarrow> better (max_heap h) (item (cells s (heap_array h)) index)
                 (item (cells s (heap_array h)) j)
     \<Longrightarrow> n \<le> depth (branching_factor h) index
     \<Longrightarrow> fst (sift_up_lim n s h index) = Inl RecursionError
       \<and> length (cells (snd (sift_up_lim n s h index)) (heap_array h))
           = length (cells s (heap_array h))
       \<and> (0 < index \<longrightarrow>
            (\<exists>c. 0 < c \<and> c \<le> index
               \<and> better (max_heap h)
                    (item (cells (snd (sift_up_lim n s h index)) (heap_array h)) c)
                    (item (cells (snd (sift_up_lim n s h index)) (heap_array h))
                       (par (branching_factor h) c))))"
proof (induction n arbitrary: s index)
  case 0
  let ?d = "branching_factor h" and ?xs = "cells s (heap_array h)"
  have "0 < index \<longrightarrow> (\<exists>c. 0 < c \<and> c \<le> index
          \<and> better (max_heap h) (item ?xs c) (item ?xs (par ?d c)))"
  proof
    assume i: "0 < index"
    have "0 \<le> par ?d index" "par ?d index < index"
      using assms i by (auto intro: par_nonneg par_less)
    with "0.prems"(3) i show "\<exists>c. 0 < c \<and> c \<le> index
          \<and> better (max_heap h) (item ?xs c) (item ?xs (par ?d c))"
      by (intro exI[of _ index]) simp
  qed
  then show ?case by simp
next
  case (Suc m)
  let ?d = "branching_factor h" and ?xs = "cells s (heap_array h)" and ?mh = "max_heap h"
  from Suc.prems(4) have dp: "Suc m \<le> depth ?d index" .
  then have i: "0 < index" using depth_zero[of index ?d] by (cases "0 < index") auto
  let ?p = "par ?d index"
  have p: "0 \<le> ?p" "?p < index" using assms i by (auto intro: par_nonneg par_less)
  have pe: "(index - 1) div ?d = ?p" by (simp add: par_def)
  have bf: "?d \<noteq> 0" using assms by simp
  have bt: "better ?mh (item ?xs index) (item ?xs ?p)" using Suc.prems(3) p by simp
  show ?case
  proof (cases m)
    case 0
    then have "sift_up_lim (Suc m) s h index = (Inl RecursionError, s)"
      using bf p pe by (simp add: Let_def)
    with bt i show ?thesis by auto
  next
    case m: (Suc k)
    have cmp: "compare s h index ?p = Inr True"
      using compare_in_range[of index s h ?p] Suc.prems(1,2) p bt by simp
    let ?ys = "swapped ?xs index ?p"
    let ?s1 = "put s (heap_array h) ?ys"
    have sw: "swap s h index ?p = (Inr (), ?s1)"
      using Suc.prems(1,2) p by (intro swap_in_range) auto
    have step: "sift_up_lim (Suc m) s h index = sift_up_lim m ?s1 h ?p"
      using bf p pe cmp sw m by (simp add: Let_def)
    have dm: "m \<le> depth ?d ?p" using dp depth_pos[OF assms i] by simp
    have ys: "cells ?s1 (heap_array h) = ?ys" by simp
    have b1: "\<forall>j. 0 \<le> j \<and> j < ?p \<longrightarrow> better ?mh (item ?ys ?p) (item ?ys j)"
    proof (intro allI impI)
      fix j assume j: "0 \<le> j \<and> j < ?p"
      have "item ?ys ?p = item ?xs index" "item ?ys j = item ?xs j"
        using item_swapped[of index ?xs ?p] Suc.prems(1,2) p j by simp_all
      with Suc.prems(3) j p show "better ?mh (item ?ys ?p) (item ?ys j)" by simp
    qed
    have p0: "0 < ?p" using dm m depth_zero[of ?p ?d] by (cases "0 < ?p") auto
    have a2: "?p < int (length (cells ?s1 (heap_array h)))" using p Suc.prems(2) by simp
    have a3: "\<forall>j. 0 \<le> j \<and> j < ?p
           \<longrightarrow> better ?mh (item (cells ?s1 (heap_array h)) ?p) (item (cells ?s1 (heap_array h)) j)"
      using b1 by simp
    note ih = Suc.IH[OF p(1) a2 a3 dm]
    from ih have f: "fst (sift_up_lim m ?s1 h ?p) = Inl RecursionError" by simp
    from ih have l: "length (cells (snd (sift_up_lim m ?s1 h ?p)) (heap_array h)) = length ?xs"
      by simp
    from ih p0 obtain c where c: "0 < c" "c \<le> ?p"
      "better ?mh (item (cells (snd (sift_up_lim m ?s1 h ?p)) (heap_array h)) c)
          (item (cells (snd (sift_up_lim m ?s1 h ?p)) (heap_array h)) (par ?d c))"
      by blast
    from c p have "0 < c \<and> c \<le> index
        \<and> better ?mh (item (cells (snd (sift_up_lim m ?s1 h ?p)) (heap_array h)) c)
          (item (cells (snd (sift_up_lim m ?s1 h ?p)) (heap_array h)) (par ?d c))"
      by simp
    then have "\<exists>c. 0 < c \<and> c \<le> index
        \<and> better ?mh (item (cells (snd (sift_up_lim m ?s1 h ?p)) (heap_array h)) c)
          (item (cells (snd (sift_up_lim m ?s1 h ?p)) (heap_array h)) (par ?d c))"
      by blast
    with f l show ?thesis unfolding step by simp
  qed
qed

lemma push_lim_overflow:
  fixes s :: "('a::linorder) store"
  assumes fits: "storage_fits s h" and d: "1 \<le> branching_factor h"
    and beats: "\<forall>x\<in>set (cells s (heap_array h)). better (max_heap h) v x"
    and n: "1 \<le> n" "n \<le> depth (branching_factor h) (last_index h + 1) + 1"
  shows "fst (push_lim n s h v) = Inl RecursionError
       \<and> (len h \<noteq> 0 \<longrightarrow>
            \<not> heap_property (fst (snd (push_lim n s h v))) (snd (snd (push_lim n s h v))))"
proof -
  let ?r = "heap_array h" and ?d = "branching_factor h" and ?mh = "max_heap h"
  let ?xs = "cells s ?r"
  let ?h1 = "h\<lparr>last_index := last_index h + 1\<rparr>"
  let ?s1 = "put s ?r (?xs @ [v])"
  let ?i = "last_index h + 1"
  from n obtain m where m: "n = Suc m" by (cases n) auto
  have len: "int (length ?xs) = ?i" using fits by (simp add: storage_fits_def)
  have i0: "0 \<le> ?i" using len by linarith
  have a2: "last_index ?h1 < int (length (cells ?s1 (heap_array ?h1)))" using len by simp
  have a3: "\<forall>j. 0 \<le> j \<and> j < last_index ?h1
       \<longrightarrow> better (max_heap ?h1) (item (cells ?s1 (heap_array ?h1)) (last_index ?h1))
             (item (cells ?s1 (heap_array ?h1)) j)"
  proof (intro allI impI)
    fix j assume j: "0 \<le> j \<and> j < last_index ?h1"
    have "nat ?i = length ?xs" using len by linarith
    then have "item (?xs @ [v]) ?i = v" by (simp add: item_def)
    moreover have "item (?xs @ [v]) j = item ?xs j" using j len by (simp add: item_append_old)
    moreover have "nat j < length ?xs" using j len by simp linarith
    then have "item ?xs j \<in> set ?xs" unfolding item_def by (rule nth_mem)
    ultimately show "better (max_heap ?h1) (item (cells ?s1 (heap_array ?h1)) (last_index ?h1))
             (item (cells ?s1 (heap_array ?h1)) j)"
      using beats by simp
  qed
  have a4: "m \<le> depth (branching_factor ?h1) (last_index ?h1)" using n m by simp
  have d1: "1 \<le> branching_factor ?h1" using d by simp
  have i1: "0 \<le> last_index ?h1" using i0 by simp
  let ?res = "sift_up_lim m ?s1 ?h1 (last_index ?h1)"
  note ov = sift_up_lim_overflow[OF d1 i1 a2 a3 a4]
  have pe: "push_lim n s h v = (fst ?res, snd ?res, ?h1)"
    unfolding m by (simp add: Let_def case_prod_unfold)
  from ov have f: "fst ?res = Inl RecursionError" by simp
  have "len h \<noteq> 0 \<longrightarrow> \<not> heap_property (snd ?res) ?h1"
  proof
    assume "len h \<noteq> 0"
    then have "0 < last_index ?h1" using i0 by (simp add: len_def)
    with ov obtain c where c: "0 < c" "c \<le> ?i"
      "better ?mh (item (cells (snd ?res) ?r) c) (item (cells (snd ?res) ?r) (par ?d c))"
      by auto
    show "\<not> heap_property (snd ?res) ?h1"
    proof
      assume "heap_property (snd ?res) ?h1"
      then have "hp_from ?d ?mh (len ?h1) (cells (snd ?res) ?r) 0"
        using d1 heap_property_iff[of ?h1 "snd ?res"] by simp
      moreover have "0 \<le> par ?d c" using d c(1) by (rule par_nonneg)
      ultimately have "at_least ?mh (item (cells (snd ?res) ?r) (par ?d c))
          (item (cells (snd ?res) ?r) c)"
        using c(1,2) by (simp add: hp_from_def len_def)
      with c(3) show False by (auto simp: better_def at_least_def split: if_splits)
    qed
  qed
  with f pe show ?thesis by simp
qed

lemma push_lim_stays:
  fixes s :: "('a::linorder) store"
  assumes fits: "storage_fits s h" and d: "1 \<le> branching_factor h" and n: "3 \<le> n"
    and nb: "\<forall>x\<in>set (cells s (heap_array h)). \<not> better (max_heap h) v x"
  shows "push_lim n s h v
       = (Inr (), put s (heap_array h) (cells s (heap_array h) @ [v]),
          h\<lparr>last_index := last_index h + 1\<rparr>)"
proof -
  let ?r = "heap_array h" and ?d = "branching_factor h" and ?mh = "max_heap h"
  let ?xs = "cells s ?r"
  let ?h1 = "h\<lparr>last_index := last_index h + 1\<rparr>"
  let ?s1 = "put s ?r (?xs @ [v])"
  let ?l = "last_index h"
  from n obtain k where k: "n = Suc (Suc (Suc k))"
    by (cases n; cases "n - 1"; cases "n - 2") auto
  have len: "int (length ?xs) = ?l + 1" using fits by (simp add: storage_fits_def)
  have bf: "?d \<noteq> 0" using d by simp
  have "sift_up_lim (Suc (Suc k)) ?s1 ?h1 (?l + 1) = (Inr (), ?s1)"
  proof (cases "0 \<le> ?l div ?d")
    case False
    with bf show ?thesis by (simp add: Let_def)
  next
    case True
    then have l0: "0 \<le> ?l" using d by (simp add: pos_imp_zdiv_nonneg_iff)
    have "?l div ?d \<le> ?l div 1" using l0 d by (intro zdiv_mono2) auto
    then have pl: "?l div ?d \<le> ?l" by simp
    have "nat (?l + 1) = length ?xs" using len by linarith
    then have "item (?xs @ [v]) (?l + 1) = v" by (simp add: item_def)
    moreover have "item (?xs @ [v]) (?l div ?d) = item ?xs (?l div ?d)"
      using True pl len by (simp add: item_append_old)
    moreover have "nat (?l div ?d) < length ?xs" using True pl len by linarith
    then have "item ?xs (?l div ?d) \<in> set ?xs" unfolding item_def by (rule nth_mem)
    moreover have "compare ?s1 ?h1 (?l + 1) (?l div ?d)
        = Inr (better (max_heap ?h1) (item (cells ?s1 (heap_array ?h1)) (?l + 1))
                 (item (cells ?s1 (heap_array ?h1)) (?l div ?d)))"
      using True pl len l0 by (intro compare_in_range) auto
    ultimately have "compare ?s1 ?h1 (?l + 1) (?l div ?d) = Inr False" using nb by simp
    with bf True show ?thesis by (simp add: Let_def)
  qed
  then show ?thesis unfolding k by (simp add: Let_def del: sift_up_lim.simps)
qed

lemma heap_property_append:
  fixes s :: "('a::linorder) store"
  assumes d: "1 \<le> branching_factor h" and fits: "storage_fits s h"
    and broken: "\<not> heap_property s h"
  shows "\<not> heap_property (put s (heap_array h) (cells s (heap_array h) @ [v]))
           (h\<lparr>last_index := last_index h + 1\<rparr>)"
proof
  let ?r = "heap_array h" and ?d = "branching_factor h" and ?mh = "max_heap h"
  let ?xs = "cells s ?r"
  let ?h1 = "h\<lparr>last_index := last_index h + 1\<rparr>"
  let ?s1 = "put s ?r (?xs @ [v])"
  have len: "int (length ?xs) = last_index h + 1" using fits by (simp add: storage_fits_def)
  have l1: "len ?h1 = last_index h + 2" by (simp add: len_def)
  assume "heap_property ?s1 ?h1"
  then have "hp_from (branching_factor ?h1) (max_heap ?h1) (len ?h1) (cells ?s1 (heap_array ?h1)) 0"
    using d heap_property_iff[of ?h1 ?s1] by simp
  then have hp: "hp_from ?d ?mh (last_index h + 2) (?xs @ [v]) 0"
    unfolding l1 by simp
  have "hp_from ?d ?mh (last_index h + 1) ?xs 0"
    unfolding hp_from_def
  proof (intro allI impI)
    fix c assume c: "0 < c \<and> c < last_index h + 1 \<and> 0 \<le> par ?d c"
    then have pl: "par ?d c < c" using d by (intro par_less) auto
    from hp c have "at_least ?mh (item (?xs @ [v]) (par ?d c)) (item (?xs @ [v]) c)"
      by (simp add: hp_from_def)
    then show "at_least ?mh (item ?xs (par ?d c)) (item ?xs c)"
      using c pl len by (simp add: item_append_old)
  qed
  then have "heap_property s h" using d heap_property_iff[of h s] by (simp add: len_def)
  with broken show False by simp
qed

lemma push_all_lim_in_order:
  fixes s :: "('a::linorder) store"
  assumes d: "1 \<le> branching_factor h" and n: "3 \<le> n"
  shows "storage_fits s h
     \<Longrightarrow> sorted_wrt (\<lambda>a b. \<not> better (max_heap h) b a) (cells s (heap_array h) @ vs)
     \<Longrightarrow> push_all_lim n s h vs
         = (Inr (), put s (heap_array h) (cells s (heap_array h) @ vs),
            h\<lparr>last_index := last_index h + int (length vs)\<rparr>)"
  using d
proof (induction vs arbitrary: s h)
  case Nil
  then show ?case by simp
next
  case (Cons v vs)
  let ?r = "heap_array h"
  let ?xs = "cells s ?r"
  let ?h1 = "h\<lparr>last_index := last_index h + 1\<rparr>"
  let ?s1 = "put s ?r (?xs @ [v])"
  from Cons.prems(2) have nb: "\<forall>x\<in>set ?xs. \<not> better (max_heap h) v x"
    by (auto simp: sorted_wrt_append)
  from push_lim_stays[OF Cons.prems(1,3) n nb]
  have p: "push_lim n s h v = (Inr (), ?s1, ?h1)" .
  have f1: "storage_fits ?s1 ?h1" using Cons.prems(1) by (simp add: storage_fits_def)
  have so: "sorted_wrt (\<lambda>a b. \<not> better (max_heap ?h1) b a) (cells ?s1 (heap_array ?h1) @ vs)"
    using Cons.prems(2) by simp
  have d1: "1 \<le> branching_factor ?h1" using Cons.prems(3) by simp
  from Cons.IH[OF f1 so d1] p show ?case by (simp add: algebra_simps)
qed

lemma DHeap_init_lim_in_order:
  fixes s :: "('a::linorder) store"
  assumes src: "src < next_ref s" and d: "1 \<le> bf" and n: "4 \<le> n"
    and so: "sorted_wrt (\<lambda>a b. \<not> better mh b a) (cells s src)"
  shows "DHeap_init_lim n s (Some src) mh bf
       = Some (Inr \<lparr>heap_array = next_ref s, last_index = int (length (cells s src)) - 1,
                    max_heap = mh, branching_factor = bf\<rparr>,
               put (fst (DHeap_new s mh bf)) (next_ref s) (cells s src))"
proof -
  from n obtain m where m: "n = Suc m" "3 \<le> m" by (cases n) auto
  let ?s0 = "fst (DHeap_new s mh bf)" and ?h0 = "snd (DHeap_new s mh bf)"
  have new: "DHeap_new s mh bf = (?s0, ?h0)" by simp
  from DHeap_new_valid[OF new] have v:
    "storage_fits ?s0 ?h0" "heap_array ?h0 = next_ref s" "cells ?s0 (heap_array ?h0) = []"
    "branching_factor ?h0 = bf" "max_heap ?h0 = mh" "last_index ?h0 = - 1"
    by auto
  have d0: "1 \<le> branching_factor ?h0" using d v(4) by simp
  have so0: "sorted_wrt (\<lambda>a b. \<not> better (max_heap ?h0) b a)
      (cells ?s0 (heap_array ?h0) @ cells s src)"
    using so v(3,5) by simp
  from push_all_lim_in_order[OF d0 m(2) v(1) so0]
  have "push_all_lim m ?s0 ?h0 (cells s src)
      = (Inr (), put ?s0 (next_ref s) (cells s src),
         ?h0\<lparr>last_index := - 1 + int (length (cells s src))\<rparr>)"
    using v by simp
  moreover have "?h0\<lparr>last_index := - 1 + int (length (cells s src))\<rparr>
      = \<lparr>heap_array = next_ref s, last_index = int (length (cells s src)) - 1,
                    max_heap = mh, branching_factor = bf\<rparr>"
    by (simp add: DHeap_new_def)
  ultimately show ?thesis unfolding m(1) DHeap_init_lim_from[OF src] by simp
qed

lemma push_all_lim_overflow:
  fixes s :: "('a::linorder) store"
  assumes d: "1 \<le> branching_factor h" and n: "1 \<le> n"
  shows "storage_fits s h
     \<Longrightarrow> \<forall>x\<in>set (cells s (heap_array h)). \<forall>v\<in>set vs. better (max_heap h) v x
     \<Longrightarrow> sorted_wrt (\<lambda>a b. better (max_heap h) b a) vs
     \<Longrightarrow> vs \<noteq> []
     \<Longrightarrow> n \<le> depth (branching_factor h) (last_index h + int (length vs)) + 1
     \<Longrightarrow> fst (push_all_lim n s h vs) = Inl RecursionError"
  using d
proof (induction vs arbitrary: s h)
  case Nil
  then show ?case by simp
next
  case (Cons v vs)
  let ?r = "heap_array h" and ?d = "branching_factor h" and ?mh = "max_heap h"
  let ?xs = "cells s ?r"
  let ?h1 = "h\<lparr>last_index := last_index h + 1\<rparr>"
  have bv: "\<forall>x\<in>set ?xs. better ?mh v x" using Cons.prems(2) by simp
  show ?case
  proof (cases "n \<le> depth ?d (last_index h + 1) + 1")
    case True
    from push_lim_overflow[OF Cons.prems(1,6) bv n True]
    have "fst (push_lim n s h v) = Inl RecursionError" by simp
    then show ?thesis by (cases "push_lim n s h v") simp
  next
    case False
    then have en: "depth ?d (last_index h + 1) + 2 \<le> n" by simp
    from push_spec[OF Cons.prems(6,1), of v] obtain xs' where
      p: "push s h v = Some (Inr (), put s ?r xs', ?h1)"
      and ms: "mset xs' = add_mset v (mset ?xs)"
      by blast
    from push_lim_eq[OF Cons.prems(6) en, of s v] p
    have pl: "push_lim n s h v = (Inr (), put s ?r xs', ?h1)" by simp
    let ?s1 = "put s ?r xs'"
    have f1: "storage_fits ?s1 ?h1" using push_storage_fits[OF p Cons.prems(1)] .
    have ne: "vs \<noteq> []"
    proof
      assume "vs = []"
      with Cons.prems(5) False show False by simp
    qed
    have st: "set xs' = insert v (set ?xs)" using ms by (metis set_mset_add_mset_insert set_mset_mset)
    have b1: "\<forall>x\<in>set (cells ?s1 (heap_array ?h1)). \<forall>w\<in>set vs. better (max_heap ?h1) w x"
      using Cons.prems(2,3) st by auto
    have s1: "sorted_wrt (\<lambda>a b. better (max_heap ?h1) b a) vs" using Cons.prems(3) by simp
    have n1: "n \<le> depth (branching_factor ?h1) (last_index ?h1 + int (length vs)) + 1"
      using Cons.prems(5) by (simp add: algebra_simps)
    have d1: "1 \<le> branching_factor ?h1" using Cons.prems(6) by simp
    from Cons.IH[OF f1 b1 s1 ne n1 d1] pl show ?thesis by simp
  qed
qed

lemma DHeap_init_lim_overflow:
  fixes s :: "('a::linorder) store"
  assumes src: "src < next_ref s" and d: "1 \<le> bf"
    and so: "sorted_wrt (\<lambda>a b. better mh b a) (cells s src)" and ne: "cells s src \<noteq> []"
    and n: "2 \<le> n" "n \<le> depth bf (int (length (cells s src)) - 1) + 2"
  shows "map_option fst (DHeap_init_lim n s (Some src) mh bf) = Some (Inl RecursionError)"
proof -
  from n obtain m where m: "n = Suc m" "1 \<le> m" by (cases n) auto
  let ?s0 = "fst (DHeap_new s mh bf)" and ?h0 = "snd (DHeap_new s mh bf)"
  have new: "DHeap_new s mh bf = (?s0, ?h0)" by simp
  from DHeap_new_valid[OF new] have v:
    "storage_fits ?s0 ?h0" "heap_array ?h0 = next_ref s" "cells ?s0 (heap_array ?h0) = []"
    "branching_factor ?h0 = bf" "max_heap ?h0 = mh" "last_index ?h0 = - 1"
    by auto
  have d0: "1 \<le> branching_factor ?h0" using d v(4) by simp
  have b0: "\<forall>x\<in>set (cells ?s0 (heap_array ?h0)). \<forall>w\<in>set (cells s src). better (max_heap ?h0) w x"
    using v(3) by simp
  have s0: "sorted_wrt (\<lambda>a b. better (max_heap ?h0) b a) (cells s src)" using so v(5) by simp
  have n0: "m \<le> depth (branching_factor ?h0) (last_index ?h0 + int (length (cells s src))) + 1"
    using n(2) m(1) v(4,6) by simp
  from push_all_lim_overflow[OF d0 m(2) v(1) b0 s0 ne n0]
  have "fst (push_all_lim m ?s0 ?h0 (cells s src)) = Inl RecursionError" .
  then show ?thesis unfolding m(1) DHeap_init_lim_from[OF src]
    by (cases "push_all_lim m ?s0 ?h0 (cells s src)") simp
qed

lemma sift_down_lim_chain_overflow:
  fixes s :: "('a::linorder) store"
  assumes bf: "branching_factor h = 1"
  shows "0 \<le> index \<Longrightarrow> last_index h < int (length (cells s (heap_array h)))
     \<Longrightarrow> \<forall>j. index < j \<and> j \<le> last_index h
           \<longrightarrow> better (max_heap h) (item (cells s (heap_array h)) j)
                 (item (cells s (heap_array h)) index)
     \<Longrightarrow> int n \<le> last_index h - index
     \<Longrightarrow> fst (sift_down_lim n s h index) = Inl RecursionError"
proof (induction n arbitrary: s index)
  case 0
  then show ?case by simp
next
  case (Suc m)
  let ?xs = "cells s (heap_array h)" and ?l = "last_index h" and ?mh = "max_heap h"
  from Suc.prems(4) have ch: "index + 1 \<le> ?l" by simp
  show ?case
  proof (cases m)
    case 0
    have "sift_down_loop_lim 0 s h index 1 index = Inl RecursionError"
      using bf ch by (simp add: sift_down_loop_lim.simps[of 0 s h index 1 index])
    with 0 show ?thesis by simp
  next
    case m: (Suc k)
    have bt: "better ?mh (item ?xs (index + 1)) (item ?xs index)" using Suc.prems(3) ch by simp
    have cmp: "compare s h (index + 1) index = Inr True"
      using compare_in_range[of "index + 1" s h index] Suc.prems(1,2) ch bt by simp
    have l2: "sift_down_loop_lim (Suc k) s h index 2 (index + 1) = Inr (index + 1)"
      using bf by (simp add: sift_down_loop_lim.simps[of "Suc k" s h index 2])
    have lp: "sift_down_loop_lim (Suc k) s h index 1 index = Inr (index + 1)"
      using bf ch cmp l2 by (simp add: sift_down_loop_lim.simps[of "Suc k" s h index 1 index])
    let ?ys = "swapped ?xs index (index + 1)"
    let ?s1 = "put s (heap_array h) ?ys"
    have sw: "swap s h index (index + 1) = (Inr (), ?s1)"
      using Suc.prems(1,2) ch by (intro swap_in_range) auto
    have step: "sift_down_lim (Suc (Suc k)) s h index = sift_down_lim (Suc k) ?s1 h (index + 1)"
      using lp sw by simp
    have a1: "0 \<le> index + 1" using Suc.prems(1) by simp
    have a2: "?l < int (length (cells ?s1 (heap_array h)))" using Suc.prems(2) by simp
    have a3: "\<forall>j. index + 1 < j \<and> j \<le> ?l
           \<longrightarrow> better ?mh (item (cells ?s1 (heap_array h)) j)
                 (item (cells ?s1 (heap_array h)) (index + 1))"
    proof (intro allI impI)
      fix j assume j: "index + 1 < j \<and> j \<le> ?l"
      have "item ?ys (index + 1) = item ?xs index" "item ?ys j = item ?xs j"
        using item_swapped[of index ?xs "index + 1"] Suc.prems(1,2) ch j by simp_all
      with Suc.prems(3) j show "better ?mh (item (cells ?s1 (heap_array h)) j)
                 (item (cells ?s1 (heap_array h)) (index + 1))"
        by simp
    qed
    have a4: "int m \<le> ?l - (index + 1)" using Suc.prems(4) by simp
    from Suc.IH[OF a1 a2 a3 a4] show ?thesis unfolding m step .
  qed
qed

lemma pop_lim_chain_overflow:
  fixes s :: "('a::linorder) store"
  assumes fits: "storage_fits s h" and bf: "branching_factor h = 1"
    and n: "2 \<le> n" "int n \<le> last_index h"
    and beats: "\<forall>j. 0 < j \<and> j < last_index h
           \<longrightarrow> better (max_heap h) (item (cells s (heap_array h)) j)
                 (item (cells s (heap_array h)) (last_index h))"
  shows "fst (pop_lim n s h) = Inl RecursionError"
proof -
  let ?r = "heap_array h" and ?mh = "max_heap h"
  let ?xs = "cells s ?r"
  let ?l = "last_index h"
  let ?h1 = "h\<lparr>last_index := ?l - 1\<rparr>"
  let ?ys = "swapped ?xs 0 ?l"
  from n obtain m where m: "n = Suc m" "1 \<le> m" by (cases n) auto
  then obtain k where k: "m = Suc k" by (cases m) auto
  have len: "int (length ?xs) = ?l + 1" using fits by (simp add: storage_fits_def)
  have l2: "2 \<le> ?l" using n by simp
  have ne: "len h \<noteq> 0" using l2 by (simp add: len_def)
  from pop_steps[OF fits ne] obtain zs where st:
    "peek s h = Inr (item ?xs 0)"
    "swap s h 0 ?l = (Inr (), put s ?r ?ys)"
    "list_pop ?ys ?l = Inr (item ?xs 0, zs)"
    "int (length zs) = ?l"
    by blast
  have "list_pop ?ys ?l = Inr (?ys ! nat ?l, take (nat ?l) ?ys @ drop (Suc (nat ?l)) ?ys)"
    using len l2 by (simp add: list_pop_def norm_index_nonneg)
  with st(3) have "zs = take (nat ?l) ?ys @ drop (Suc (nat ?l)) ?ys" by simp
  moreover have "drop (Suc (nat ?l)) ?ys = []" using len l2 by simp
  ultimately have zs: "zs = take (nat ?l) ?ys" by simp
  let ?s2 = "put s ?r zs"
  have a2: "last_index ?h1 < int (length (cells ?s2 (heap_array ?h1)))" using st(4) by simp
  have a3: "\<forall>j. 0 < j \<and> j \<le> last_index ?h1
       \<longrightarrow> better (max_heap ?h1) (item (cells ?s2 (heap_array ?h1)) j)
             (item (cells ?s2 (heap_array ?h1)) 0)"
  proof (intro allI impI)
    fix j assume j: "0 < j \<and> j \<le> last_index ?h1"
    then have jl: "j < ?l" by simp
    have "item zs j = item ?ys j" "item zs 0 = item ?ys 0"
      unfolding zs using j jl l2 by (simp_all add: item_take)
    moreover have "item ?ys j = item ?xs j" "item ?ys 0 = item ?xs ?l"
      using item_swapped[of 0 ?xs ?l] len l2 j jl by simp_all
    ultimately show "better (max_heap ?h1) (item (cells ?s2 (heap_array ?h1)) j)
             (item (cells ?s2 (heap_array ?h1)) 0)"
      using beats j jl by simp
  qed
  have a4: "int m \<le> last_index ?h1 - 0" using n(2) m(1) by simp
  have bf1: "branching_factor ?h1 = 1" using bf by simp
  from sift_down_lim_chain_overflow[OF bf1 order_refl a2 a3 a4]
  have "fst (sift_down_lim m ?s2 ?h1 0) = Inl RecursionError" .
  with st(1,2,3) show ?thesis unfolding m(1) k
    by (cases "sift_down_lim (Suc k) ?s2 ?h1 0") (simp add: Let_def k)
qed

subsection \<open>A heap of 1200 elements and 1000 frames\<close>

lemma big_list_length: "length big_list = 1200"
  by (simp add: big_list_def del: upt_rec_numeral)

lemma big_list_set: "x \<in> set big_list \<Longrightarrow> 0 \<le> x \<and> x < 1200"
  by (auto simp: big_list_def simp del: upt_rec_numeral)

lemma big_list_descending: "sorted_wrt (\<lambda>a b. b < a) big_list"
  by (simp add: big_list_def sorted_wrt_rev sorted_wrt_map del: upt_rec_numeral)

lemma big_run:
  "DHeap_init_lim 1000 (store_of big_list) (Some 0) True 1 = Some (Inr big_heap, big_built)"
  "cells big_built (heap_array big_heap) = big_list"
  "reached False big_built big_heap"
  "storage_fits big_built big_heap"
proof -
  let ?s = "store_of big_list"
  have n: "(0::nat) < next_ref ?s" by (simp add: store_of_def)
  have c: "cells ?s 0 = big_list" by (simp add: store_of_def)
  have so: "sorted_wrt (\<lambda>a b. \<not> better True b a) (cells ?s 0)"
    unfolding c using big_list_descending
    by (rule sorted_wrt_mono_rel[rotated]) (simp add: better_def)
  have "DHeap_init_lim 1000 ?s (Some 0) True 1
       = Some (Inr \<lparr>heap_array = next_ref ?s, last_index = int (length (cells ?s 0)) - 1,
                    max_heap = True, branching_factor = 1\<rparr>,
               put (fst (DHeap_new ?s True 1)) (next_ref ?s) (cells ?s 0))"
    by (rule DHeap_init_lim_in_order[OF n _ _ so]) simp_all
  then have e: "DHeap_init_lim 1000 ?s (Some 0) True 1
       = Some (Inr big_heap, put (fst (DHeap_new ?s True 1)) 1 big_list)"
    unfolding c by (simp add: big_list_length big_heap_def store_of_def)
  then have b: "big_built = put (fst (DHeap_new ?s True 1)) 1 big_list"
    by (simp add: big_built_def)
  from e b show e': "DHeap_init_lim 1000 ?s (Some 0) True 1 = Some (Inr big_heap, big_built)"
    by simp
  show "cells big_built (heap_array big_heap) = big_list"
    unfolding b by (simp add: big_heap_def)
  show r: "reached False big_built big_heap" by (rule reached.constructed_from[OF n e'])
  from reached_invariant[OF r] show "storage_fits big_built big_heap" by simp
qed

lemma big_push:
  "push_lim 1000 big_built big_heap 5000
     = (Inl RecursionError, big_overflowed, big_heap\<lparr>last_index := 1200\<rparr>)"
  "\<not> heap_property big_overflowed (big_heap\<lparr>last_index := 1200\<rparr>)"
  "push_lim 1000 big_overflowed (big_heap\<lparr>last_index := 1200\<rparr>) (- 1)
     = (Inr (), put big_overflowed 1 (cells big_overflowed 1 @ [- 1]),
        big_heap\<lparr>last_index := 1201\<rparr>)"
  "\<not> heap_property (put big_overflowed 1 (cells big_overflowed 1 @ [- 1]))
       (big_heap\<lparr>last_index := 1201\<rparr>)"
proof -
  let ?h1 = "big_heap\<lparr>last_index := 1200\<rparr>"
  have d: "1 \<le> branching_factor big_heap" by (simp add: big_heap_def)
  have beats: "\<forall>x\<in>set (cells big_built (heap_array big_heap)). better (max_heap big_heap) 5000 x"
    unfolding big_run(2)
  proof
    fix x assume "x \<in> set big_list"
    from big_list_set[OF this] show "better (max_heap big_heap) 5000 x"
      by (simp add: better_def big_heap_def)
  qed
  have n: "(1000::nat) \<le> depth (branching_factor big_heap) (last_index big_heap + 1) + 1"
    by (simp add: big_heap_def depth_one)
  have ne: "len big_heap \<noteq> 0" by (simp add: big_heap_def len_def)
  note ov = push_lim_overflow[OF big_run(4) d beats _ n]
  obtain r s' h' where p: "push_lim 1000 big_built big_heap 5000 = (r, s', h')"
    by (cases "push_lim 1000 big_built big_heap 5000")
  from push_lim_shape[OF p] have h': "h' = ?h1"
    and re: "rearranged (put big_built (heap_array big_heap)
               (cells big_built (heap_array big_heap) @ [5000])) (heap_array big_heap) s'"
    by (simp_all add: big_heap_def)
  from ov p have r: "r = Inl RecursionError" by simp
  from p have s': "s' = big_overflowed" by (simp add: big_overflowed_def)
  from p r s' h' show p1: "push_lim 1000 big_built big_heap 5000
     = (Inl RecursionError, big_overflowed, ?h1)" by simp
  from ov ne p1 show br: "\<not> heap_property big_overflowed ?h1" by simp
  have f1: "storage_fits big_overflowed ?h1" using push_lim_storage_fits[OF p1 big_run(4)] .
  have ha: "heap_array ?h1 = 1" "heap_array big_heap = 1" by (simp_all add: big_heap_def)
  from re have "mset (cells big_overflowed 1) = mset (big_list @ [5000])"
    unfolding s' ha big_run(2)[unfolded ha] by (simp add: rearranged_def)
  then have st: "set (cells big_overflowed 1) = set (big_list @ [5000])" by (rule mset_eq_setD)
  have nb: "\<forall>x\<in>set (cells big_overflowed (heap_array ?h1)). \<not> better (max_heap ?h1) (- 1) x"
    unfolding ha st
  proof
    fix x assume "x \<in> set (big_list @ [5000])"
    then have "x \<in> set big_list \<or> x = 5000" by auto
    then have "0 \<le> x" using big_list_set[of x] by auto
    then show "\<not> better (max_heap ?h1) (- 1) x"
      by (simp add: better_def big_heap_def)
  qed
  have d1: "1 \<le> branching_factor ?h1" by (simp add: big_heap_def)
  from push_lim_stays[OF f1 d1 _ nb, of 1000]
  show "push_lim 1000 big_overflowed ?h1 (- 1)
     = (Inr (), put big_overflowed 1 (cells big_overflowed 1 @ [- 1]),
        big_heap\<lparr>last_index := 1201\<rparr>)"
    by (simp add: big_heap_def)
  from heap_property_append[OF d1 f1 br, of "- 1"]
  show "\<not> heap_property (put big_overflowed 1 (cells big_overflowed 1 @ [- 1]))
       (big_heap\<lparr>last_index := 1201\<rparr>)"
    by (simp add: big_heap_def)
qed

lemma big_pop:
  "fst (pop_lim 1000 big_built big_heap) = Inl RecursionError"
  "len (snd (snd (pop_lim 1000 big_built big_heap))) = 1199"
  "length (cells (fst (snd (pop_lim 1000 big_built big_heap))) (heap_array big_heap)) = 1199"
proof -
  have bf: "branching_factor big_heap = 1" by (simp add: big_heap_def)
  have li: "last_index big_heap = 1199" by (simp add: big_heap_def)
  have beats: "\<forall>j. 0 < j \<and> j < last_index big_heap
           \<longrightarrow> better (max_heap big_heap) (item (cells big_built (heap_array big_heap)) j)
                 (item (cells big_built (heap_array big_heap)) (last_index big_heap))"
    unfolding big_run(2) li
  proof (intro allI impI)
    fix j :: int assume j: "0 < j \<and> j < 1199"
    have "nat j < nat 1199" using j by linarith
    moreover have "nat 1199 < length big_list" by (simp add: big_list_length)
    ultimately have "big_list ! nat 1199 < big_list ! nat j"
      using sorted_wrt_nth_less[OF big_list_descending] by blast
    then show "better (max_heap big_heap) (item big_list j) (item big_list 1199)"
      by (simp add: better_def big_heap_def item_def)
  qed
  have n: "int 1000 \<le> last_index big_heap" by (simp add: big_heap_def)
  from pop_lim_chain_overflow[OF big_run(4) bf _ n beats]
  show f: "fst (pop_lim 1000 big_built big_heap) = Inl RecursionError" by simp
  obtain s' h' where p: "pop_lim 1000 big_built big_heap = (Inl RecursionError, s', h')"
    using f by (cases "pop_lim 1000 big_built big_heap") auto
  from pop_lim_overflow[OF p big_run(4)]
  have "h' = big_heap\<lparr>last_index := last_index big_heap - 1\<rparr>"
    "int (length (cells s' (heap_array big_heap))) = last_index big_heap"
    by auto
  with p li show "len (snd (snd (pop_lim 1000 big_built big_heap))) = 1199"
    "length (cells (fst (snd (pop_lim 1000 big_built big_heap))) (heap_array big_heap)) = 1199"
    by (simp_all add: len_def)
qed

lemma big_constructor:
  "map_option fst (DHeap_init_lim 1000 (store_of (map int [0..<1200])) (Some 0) True 1)
     = Some (Inl RecursionError)"
proof -
  let ?s = "store_of (map int [0..<1200])"
  have n: "(0::nat) < next_ref ?s" by (simp add: store_of_def)
  have c: "cells ?s 0 = map int [0..<1200]" by (simp add: store_of_def del: upt_rec_numeral)
  have so: "sorted_wrt (\<lambda>a b. better True b a) (cells ?s 0)"
    unfolding c by (simp add: better_def sorted_wrt_map del: upt_rec_numeral)
  have ne: "cells ?s 0 \<noteq> []" unfolding c by (simp del: upt_rec_numeral)
  have le: "(1000::nat) \<le> depth 1 (int (length (cells ?s 0)) - 1) + 2"
    unfolding c by (simp add: depth_one del: upt_rec_numeral)
  show ?thesis by (rule DHeap_init_lim_overflow[OF n _ so ne _ le]) simp_all
qed

section \<open>The claims\<close>

text \<open>
  Claim C1, as the specification states it: after every mutating operation that returns,
  on a heap made by a constructor or \<^verbatim>\<open>heapify\<close> and followed by any sequence of
  \<^verbatim>\<open>push\<close> and \<^verbatim>\<open>pop\<close>, the heap property holds. The code sifts by recursion, one
  frame per level, and a \<^verbatim>\<open>push\<close> or \<^verbatim>\<open>pop\<close> that runs into the interpreter's
  recursion limit raises \<^verbatim>\<open>RecursionError\<close> in the middle of the sifting and leaves the
  order broken; the operations after it return on a list that is no heap. Here the list
  \<open>[5, 4, 3, 2, 1]\<close> is made a max heap of branching factor 1, \<^verbatim>\<open>push(9)\<close> called with
  3 frames left raises after one swap, and \<^verbatim>\<open>push(0)\<close> then returns and leaves
  \<open>[5, 4, 3, 2, 9, 1, 0]\<close>, where 9 lies below 2. The same happens at the size of the
  interpreter's default limit: the constructor, with 1000 frames left, builds from the
  list \<open>[1199, 1198, \<dots>, 0]\<close> a max heap of branching factor 1 that holds these 1200
  elements; \<^verbatim>\<open>push(5000)\<close> with 1000 frames left raises \<^verbatim>\<open>RecursionError\<close> and leaves
  a list that is no heap, and \<^verbatim>\<open>push(-1)\<close> then returns on it and leaves no heap.
\<close>

theorem heap_property_lost_after_RecursionError:
  "heapify_lim 9 (store_of [5, 4, 3, 2, 1 :: int]) 0 True 1 = (Inr chain_heap, chain_store)
   \<and> cells chain_store 0 = [5, 4, 3, 2, 1]
   \<and> push_lim 3 chain_store chain_heap 9
       = (Inl RecursionError, chain_overflowed, chain_heap\<lparr>last_index := 5\<rparr>)
   \<and> cells chain_overflowed 0 = [5, 4, 3, 2, 9, 1]
   \<and> push_lim 9 chain_overflowed (chain_heap\<lparr>last_index := 5\<rparr>) 0
       = (Inr (), chain_after, chain_heap\<lparr>last_index := 6\<rparr>)
   \<and> cells chain_after 0 = [5, 4, 3, 2, 9, 1, 0]
   \<and> \<not> at_least True (item (cells chain_after 0) 3) (item (cells chain_after 0) (3 * 1 + 0 + 1))
   \<and> \<not> heap_property chain_after (chain_heap\<lparr>last_index := 6\<rparr>)
   \<and> DHeap_init_lim 1000 (store_of big_list) (Some 0) True 1 = Some (Inr big_heap, big_built)
   \<and> cells big_built (heap_array big_heap) = big_list
   \<and> push_lim 1000 big_built big_heap 5000
       = (Inl RecursionError, big_overflowed, big_heap\<lparr>last_index := 1200\<rparr>)
   \<and> \<not> heap_property big_overflowed (big_heap\<lparr>last_index := 1200\<rparr>)
   \<and> push_lim 1000 big_overflowed (big_heap\<lparr>last_index := 1200\<rparr>) (- 1)
       = (Inr (), put big_overflowed 1 (cells big_overflowed 1 @ [- 1]),
          big_heap\<lparr>last_index := 1201\<rparr>)
   \<and> \<not> heap_property (put big_overflowed 1 (cells big_overflowed 1 @ [- 1]))
         (big_heap\<lparr>last_index := 1201\<rparr>)"
proof -
  have small: "heapify_lim 9 (store_of [5, 4, 3, 2, 1 :: int]) 0 True 1 = (Inr chain_heap, chain_store)
   \<and> cells chain_store 0 = [5, 4, 3, 2, 1]
   \<and> push_lim 3 chain_store chain_heap 9
       = (Inl RecursionError, chain_overflowed, chain_heap\<lparr>last_index := 5\<rparr>)
   \<and> cells chain_overflowed 0 = [5, 4, 3, 2, 9, 1]
   \<and> push_lim 9 chain_overflowed (chain_heap\<lparr>last_index := 5\<rparr>) 0
       = (Inr (), chain_after, chain_heap\<lparr>last_index := 6\<rparr>)
   \<and> cells chain_after 0 = [5, 4, 3, 2, 9, 1, 0]
   \<and> \<not> at_least True (item (cells chain_after 0) 3) (item (cells chain_after 0) (3 * 1 + 0 + 1))
   \<and> \<not> heap_property chain_after (chain_heap\<lparr>last_index := 6\<rparr>)"
    using chain_run chain_after_broken by (simp add: item_def at_least_def)
  from small big_run(1) big_run(2) big_push show ?thesis by blast
qed

text \<open>
  Claim C1, amended. For every heap that a constructor or \<^verbatim>\<open>heapify\<close> has returned,
  followed by any sequence of \<^verbatim>\<open>push\<close> and \<^verbatim>\<open>pop\<close> calls none of which has raised
  \<^verbatim>\<open>RecursionError\<close>, the heap property holds: for every index \<open>i\<close> with
  \<open>0 \<le> i < size\<close> and every child index \<open>c = i * branching_factor + k + 1\<close> with
  \<open>0 \<le> k < branching_factor\<close> and \<open>c < size\<close>, the element at \<open>i\<close> is \<open>\<ge>\<close> the one at
  \<open>c\<close> in a max heap and \<open>\<le>\<close> it in a min heap. It holds again after the next
  \<^verbatim>\<open>push\<close> or \<^verbatim>\<open>pop\<close>, whether that returns or raises, unless it raises
  \<^verbatim>\<open>RecursionError\<close>. With a branching factor of at least 1, \<^verbatim>\<open>push\<close> returns when
  the frames left are 2 more than the new slot has ancestors, and \<^verbatim>\<open>pop\<close> on a
  non-empty heap returns when they are 2 more than the heap without its last slot has
  levels below the root.
\<close>

theorem heap_property_unless_RecursionError:
  fixes s :: "('a::linorder) store"
  assumes "reached False s h"
  shows "heap_property s h
     \<and> (\<forall>res s' h'. push_lim frames s h v = (res, s', h') \<and> res \<noteq> Inl RecursionError
           \<longrightarrow> reached False s' h' \<and> heap_property s' h')
     \<and> (\<forall>res s' h'. pop_lim frames s h = (res, s', h') \<and> res \<noteq> Inl RecursionError
           \<longrightarrow> reached False s' h' \<and> heap_property s' h')
     \<and> (1 \<le> branching_factor h
          \<and> depth (branching_factor h) (last_index h + 1) + 2 \<le> frames
           \<longrightarrow> fst (push_lim frames s h v) = Inr ())
     \<and> (len h \<noteq> 0 \<and> levels (branching_factor h) (last_index h - 1) 0 + 2 \<le> frames
           \<longrightarrow> fst (pop_lim frames s h) = Inr (item (cells s (heap_array h)) 0))"
proof (intro conjI allI impI)
  from reached_invariant[OF assms] have fits: "storage_fits s h" and hp: "heap_property s h"
    by simp_all
  show "heap_property s h" by (rule hp)
  {
    fix res s' h'
    assume a: "push_lim frames s h v = (res, s', h') \<and> res \<noteq> Inl RecursionError"
    then have r: "reached False s' h'" using assms by (auto intro: reached.pushed)
    then show "reached False s' h'" .
    from reached_invariant[OF r] show "heap_property s' h'" by simp
  }
  {
    fix res s' h'
    assume a: "pop_lim frames s h = (res, s', h') \<and> res \<noteq> Inl RecursionError"
    then have r: "reached False s' h'" using assms by (auto intro: reached.popped)
    then show "reached False s' h'" .
    from reached_invariant[OF r] show "heap_property s' h'" by simp
  }
  {
    assume a: "1 \<le> branching_factor h
          \<and> depth (branching_factor h) (last_index h + 1) + 2 \<le> frames"
    then have "push s h v = Some (push_lim frames s h v)" by (intro push_lim_eq) auto
    with push_spec[OF _ fits, of v] a show "fst (push_lim frames s h v) = Inr ()" by auto
  }
  {
    assume a: "len h \<noteq> 0 \<and> levels (branching_factor h) (last_index h - 1) 0 + 2 \<le> frames"
    then have "pop_lim frames s h = pop s h" by (intro pop_lim_eq) auto
    with pop_nonempty[OF fits] a
    show "fst (pop_lim frames s h) = Inr (item (cells s (heap_array h)) 0)" by auto
  }
qed

theorem heap_property_unless_RecursionError_witness:
  "reached False run_popped run_heap
   \<and> cells run_popped 1 = [105, 5, 10, 1, - 23, 1]
   \<and> heap_property run_popped run_heap
   \<and> push_lim 9 run_popped run_heap 7 = (Inr (), fst (snd (push_lim 9 run_popped run_heap 7)),
        run_heap\<lparr>last_index := 6\<rparr>)
   \<and> cells (fst (snd (push_lim 9 run_popped run_heap 7))) 1 = [105, 5, 10, 1, - 23, 1, 7]
   \<and> heap_property (fst (snd (push_lim 9 run_popped run_heap 7))) (run_heap\<lparr>last_index := 6\<rparr>)
   \<and> fst (pop_lim 9 run_popped run_heap) = Inr 105"
proof -
  note t = heap_property_unless_RecursionError[OF run_reached(3), of 9 7]
  have p: "fst (push_lim 9 run_popped run_heap 7) = Inr ()"
    "snd (snd (push_lim 9 run_popped run_heap 7)) = run_heap\<lparr>last_index := 6\<rparr>"
    by code_simp+
  then have pe: "push_lim 9 run_popped run_heap 7
      = (Inr (), fst (snd (push_lim 9 run_popped run_heap 7)), run_heap\<lparr>last_index := 6\<rparr>)"
    by (intro pair_eqI) simp_all
  have c: "cells (fst (snd (push_lim 9 run_popped run_heap 7))) 1 = [105, 5, 10, 1, - 23, 1, 7]"
    by code_simp
  from t have hp: "heap_property run_popped run_heap" by blast
  from t have "push_lim 9 run_popped run_heap 7
      = (Inr (), fst (snd (push_lim 9 run_popped run_heap 7)), run_heap\<lparr>last_index := 6\<rparr>)
      \<and> (Inr () :: error + unit) \<noteq> Inl RecursionError
      \<longrightarrow> heap_property (fst (snd (push_lim 9 run_popped run_heap 7))) (run_heap\<lparr>last_index := 6\<rparr>)"
    by blast
  with pe have hp': "heap_property (fst (snd (push_lim 9 run_popped run_heap 7)))
      (run_heap\<lparr>last_index := 6\<rparr>)" by simp
  have lv: "levels (branching_factor run_heap) (last_index run_heap - 1) 0 + 2 \<le> 9" by code_simp
  have ne: "len run_heap \<noteq> 0" by (simp add: run_heap_def len_def)
  from t ne lv have "fst (pop_lim 9 run_popped run_heap) = Inr (item (cells run_popped (heap_array run_heap)) 0)"
    by blast
  moreover have "cells run_popped (heap_array run_heap) = [105, 5, 10, 1, - 23, 1]"
    using run_steps(6) by (simp add: run_heap_def)
  ultimately have pp: "fst (pop_lim 9 run_popped run_heap) = Inr 105"
    by (simp add: item_def)
  from run_reached(3) run_steps(6) hp pe c hp' pp show ?thesis by simp
qed

text \<open>
  Claim C2, as the specification states it: on every non-empty heap \<^verbatim>\<open>pop\<close> returns
  the root, which is the most extreme element. The constructor accepts any branching
  factor: with \<open>-2\<close> it builds from \<open>[1, 2, 3]\<close> the max heap \<open>[2, 1, 3]\<close>, on which
  \<^verbatim>\<open>pop\<close> returns 2 although 3 is stored. And \<^verbatim>\<open>pop\<close> need not return: on the max
  heap \<open>[5, 4, 3, 2, 1]\<close> of branching factor 1, called with 3 frames left, it raises
  \<^verbatim>\<open>RecursionError\<close>, and so it does with 1000 frames left on the max heap of
  branching factor 1 that the constructor builds from \<open>[1199, 1198, \<dots>, 0]\<close>.
\<close>

theorem pop_root_not_extreme_or_no_return:
  "reached False neg_built neg_heap
   \<and> cells neg_built (heap_array neg_heap) = [2, 1, 3]
   \<and> len neg_heap = 3
   \<and> fst (pop_lim 9 neg_built neg_heap) = Inr 2
   \<and> 3 \<in> set (cells neg_built (heap_array neg_heap))
   \<and> \<not> at_least (max_heap neg_heap) 2 (3 :: int)
   \<and> reached False chain_store chain_heap
   \<and> cells chain_store (heap_array chain_heap) = [5, 4, 3, 2, 1]
   \<and> len chain_heap = 5
   \<and> fst (pop_lim 3 chain_store chain_heap) = Inl RecursionError
   \<and> reached False big_built big_heap
   \<and> cells big_built (heap_array big_heap) = big_list
   \<and> len big_heap = 1200
   \<and> fst (pop_lim 1000 big_built big_heap) = Inl RecursionError"
proof -
  have a: "cells neg_built (heap_array neg_heap) = [2, 1, 3]"
    using neg_run(2) by (simp add: neg_heap_def)
  have b: "fst (pop_lim 9 neg_built neg_heap) = Inr 2" by code_simp
  have c: "cells chain_store (heap_array chain_heap) = [5, 4, 3, 2, 1]"
    using chain_run(2) by (simp add: chain_heap_def)
  have d: "fst (pop_lim 3 chain_store chain_heap) = Inl RecursionError" by code_simp
  have l: "len big_heap = 1200" by (simp add: big_heap_def len_def)
  from neg_run(3) chain_reached a b c d big_run(3) big_run(2) l big_pop(1) show ?thesis
    by (simp add: len_def neg_heap_def chain_heap_def at_least_def)
qed

text \<open>
  Claim C2, amended. On a non-empty heap with a branching factor of at least 1, made by
  a constructor or \<^verbatim>\<open>heapify\<close> and \<^verbatim>\<open>push\<close> and \<^verbatim>\<open>pop\<close> calls none of which has
  raised \<^verbatim>\<open>RecursionError\<close>, the root is at least as extreme as every stored element
  (the maximum of a max heap, the minimum of a min heap), and \<^verbatim>\<open>pop\<close> either raises
  \<^verbatim>\<open>RecursionError\<close> or returns the root, lowers the size by exactly 1 and leaves the
  multiset of before without one occurrence of the returned element, in a heap that again
  has the heap property. It does return when the frames left are 2 more than the heap
  without its last slot has levels below the root. With that many frames, popping as
  many times as the heap is large returns all stored elements, in descending order from a
  max heap and in ascending order from a min heap, and leaves the heap empty.
\<close>

theorem pop_returns_most_extreme_unless_RecursionError:
  fixes s :: "('a::linorder) store"
  assumes "reached False s h" "1 \<le> branching_factor h"
  shows "(len h \<noteq> 0 \<longrightarrow>
           (\<forall>x\<in>set (cells s (heap_array h)).
               at_least (max_heap h) (item (cells s (heap_array h)) 0) x)
         \<and> (fst (pop_lim frames s h) = Inl RecursionError
            \<or> (\<exists>s' h'. pop_lim frames s h = (Inr (item (cells s (heap_array h)) 0), s', h')
                 \<and> len h' = len h - 1
                 \<and> heap_array h' = heap_array h
                 \<and> mset (cells s' (heap_array h'))
                     = mset (cells s (heap_array h)) - {#item (cells s (heap_array h)) 0#}
                 \<and> reached False s' h' \<and> heap_property s' h'))
         \<and> (levels (branching_factor h) (last_index h - 1) 0 + 2 \<le> frames
              \<longrightarrow> fst (pop_lim frames s h) = Inr (item (cells s (heap_array h)) 0)))
     \<and> (levels (branching_factor h) (last_index h - 1) 0 + 2 \<le> frames \<longrightarrow>
          (\<exists>s' h'. pop_n_lim frames (nat (len h)) s h
              = (Inr (if max_heap h then rev (sort (cells s (heap_array h)))
                      else sort (cells s (heap_array h))), s', h')
            \<and> len h' = 0))"
proof (intro conjI impI)
  let ?xs = "cells s (heap_array h)"
  from reached_invariant[OF assms(1)] have fits: "storage_fits s h" and hp: "heap_property s h"
    by simp_all
  {
    assume ne: "len h \<noteq> 0"
    show "\<forall>x\<in>set ?xs. at_least (max_heap h) (item ?xs 0) x"
      using root_extreme[OF assms(2) fits hp] by blast
    from pop_nonempty[OF fits ne]
    obtain xs' where p: "pop s h = (Inr (item ?xs 0), put s (heap_array h) xs',
                                   h\<lparr>last_index := last_index h - 1\<rparr>)"
      and ms: "add_mset (item ?xs 0) (mset xs') = mset ?xs"
      by auto
    have ms': "mset xs' = mset ?xs - {#item ?xs 0#}" using ms by (metis add_mset_remove_trivial)
    show "fst (pop_lim frames s h) = Inl RecursionError
            \<or> (\<exists>s' h'. pop_lim frames s h = (Inr (item ?xs 0), s', h')
                 \<and> len h' = len h - 1
                 \<and> heap_array h' = heap_array h
                 \<and> mset (cells s' (heap_array h')) = mset ?xs - {#item ?xs 0#}
                 \<and> reached False s' h' \<and> heap_property s' h')"
    proof (cases "fst (pop_lim frames s h) = Inl RecursionError")
      case True
      then show ?thesis by simp
    next
      case False
      obtain r s' h' where q: "pop_lim frames s h = (r, s', h')" by (cases "pop_lim frames s h")
      with False have r: "r \<noteq> Inl RecursionError" by simp
      from pop_lim_agrees[OF q r] p have e: "r = Inr (item ?xs 0)"
        "s' = put s (heap_array h) xs'" "h' = h\<lparr>last_index := last_index h - 1\<rparr>"
        by simp_all
      have re: "reached False s' h'" by (rule reached.popped[OF assms(1) q r])
      from reached_invariant[OF re] have "heap_property s' h'" by simp
      with q e ms' re show ?thesis by (simp add: len_def)
    qed
    {
      assume "levels (branching_factor h) (last_index h - 1) 0 + 2 \<le> frames"
      then have "pop_lim frames s h = pop s h" by (rule pop_lim_eq)
      with p show "fst (pop_lim frames s h) = Inr (item ?xs 0)" by simp
    }
  }
  {
    assume fr: "levels (branching_factor h) (last_index h - 1) 0 + 2 \<le> frames"
    from pop_n_spec[OF assms(2) fits hp refl]
    obtain ys s' h' where r: "pop_n (nat (len h)) s h = (Inr ys, s', h')" "len h' = 0"
      "mset ys = mset ?xs" "sorted_wrt (at_least (max_heap h)) ys"
      by blast
    from sorted_by_at_least[OF r(4,3)] r(1,2) pop_n_lim_eq[OF fr, of "nat (len h)" s]
    show "\<exists>s' h'. pop_n_lim frames (nat (len h)) s h
            = (Inr (if max_heap h then rev (sort ?xs) else sort ?xs), s', h') \<and> len h' = 0"
      by auto
  }
qed

theorem pop_returns_most_extreme_unless_RecursionError_witness:
  "reached False dual_built dual_heap
   \<and> 1 \<le> branching_factor dual_heap
   \<and> len dual_heap = 7
   \<and> levels (branching_factor dual_heap) (last_index dual_heap - 1) 0 + 2 \<le> 4
   \<and> cells dual_built (heap_array dual_heap) = [1024, 5, 5, - 10, - 2, 0, - 999]
   \<and> fst (pop_lim 4 dual_built dual_heap) = Inr 1024
   \<and> fst (pop_n_lim 4 7 dual_built dual_heap) = Inr [1024, 5, 5, 0, - 2, - 10, - 999]"
proof -
  have d: "1 \<le> branching_factor dual_heap" by (simp add: dual_heap_def)
  have l: "len dual_heap = 7" by (simp add: dual_heap_def len_def)
  have lv: "levels (branching_factor dual_heap) (last_index dual_heap - 1) 0 + 2 \<le> 4"
    by code_simp
  note t = pop_returns_most_extreme_unless_RecursionError[OF dual_run(3) d, of 4]
  from t l lv have "fst (pop_lim 4 dual_built dual_heap)
      = Inr (item (cells dual_built (heap_array dual_heap)) 0)"
    by simp
  then have p: "fst (pop_lim 4 dual_built dual_heap) = Inr 1024"
    by (simp add: dual_run(2) item_def)
  from t lv have "\<exists>s' h'. pop_n_lim 4 (nat (len dual_heap)) dual_built dual_heap
              = (Inr (if max_heap dual_heap then rev (sort (cells dual_built (heap_array dual_heap)))
                      else sort (cells dual_built (heap_array dual_heap))), s', h')"
    by blast
  then have "fst (pop_n_lim 4 7 dual_built dual_heap)
      = Inr (rev (sort [1024, 5, 5, - 10, - 2, 0, - 999]))"
    unfolding l dual_run(2) by (auto simp: dual_heap_def)
  then have q: "fst (pop_n_lim 4 7 dual_built dual_heap) = Inr [1024, 5, 5, 0, - 2, - 10, - 999]"
    by simp
  from dual_run(3) d l lv dual_run(2) p q show ?thesis by simp
qed

text \<open>
  Claim C3. \<^verbatim>\<open>heapsort\<close>, of \<^verbatim>\<open>DHeap\<close> and of \<^verbatim>\<open>BinaryHeap\<close> alike, called on a
  list of the caller's returns normally and leaves, in that same list object, the elements
  it held before (the same multiset, hence the same length) in ascending order when
  \<^verbatim>\<open>ascending\<close> is true and in descending order when it is false; no other list of
  the caller's is changed. In particular the list
  \<open>[1, 5, 64, 64, 12315, 677, -15, -1002]\<close> sorted ascending becomes
  \<open>[-1002, -15, 1, 5, 64, 64, 677, 12315]\<close>, and sorted descending the reverse.
\<close>

theorem heapsort_sorts_in_place:
  fixes s :: "('a::linorder) store"
  assumes "r < next_ref s"
  shows "(\<exists>s'. heapsort s r ascending = (Inr (), s')
          \<and> bin_heapsort s r ascending = (Inr (), s')
          \<and> cells s' r = (if ascending then sort (cells s r) else rev (sort (cells s r)))
          \<and> length (cells s' r) = length (cells s r)
          \<and> mset (cells s' r) = mset (cells s r)
          \<and> (\<forall>r'. r' \<noteq> r \<and> r' < next_ref s \<longrightarrow> cells s' r' = cells s r'))
     \<and> cells (snd (heapsort (store_of [1, 5, 64, 64, 12315, 677, - 15, - 1002 :: int]) 0 True)) 0
         = [- 1002, - 15, 1, 5, 64, 64, 677, 12315]
     \<and> cells (snd (heapsort (store_of [1, 5, 64, 64, 12315, 677, - 15, - 1002 :: int]) 0 False)) 0
         = [12315, 677, 64, 64, 5, 1, - 15, - 1002]"
proof -
  have general: "\<exists>s'. heapsort s r ascending = (Inr (), s')
          \<and> bin_heapsort s r ascending = (Inr (), s')
          \<and> cells s' r = (if ascending then sort (cells s r) else rev (sort (cells s r)))
          \<and> length (cells s' r) = length (cells s r)
          \<and> mset (cells s' r) = mset (cells s r)
          \<and> (\<forall>r'. r' \<noteq> r \<and> r' < next_ref s \<longrightarrow> cells s' r' = cells s r')"
    if r: "r < next_ref s" for s :: "('b::linorder) store" and r ascending
  proof -
    let ?xs = "cells s r"
    let ?heap = "\<lparr>heap_array = r, last_index = int (length ?xs) - 1,
                  max_heap = ascending, branching_factor = 2\<rparr>"
    have "(2::int) \<noteq> 0" by simp
    from heapify_spec[OF r this, of ascending]
    obtain xs1 s1 where h: "heapify s r ascending 2 = (Inr ?heap, s1)"
      "cells s1 r = xs1" "mset xs1 = mset ?xs"
      "\<forall>r'. r' \<noteq> r \<and> r' \<noteq> next_ref s \<longrightarrow> cells s1 r' = cells s r'"
      "heap_property s1 ?heap"
      by blast
    have len1: "length xs1 = length ?xs" using h(3) by (rule mset_eq_length)
    have hp: "hp_from 2 ascending (int (length ?xs)) xs1 0"
      using h(5) h(2) heap_property_iff[of ?heap s1] by (simp add: len_def)
    have "\<exists>xs'. heapsort_loop s1 ?heap = (Inr (), put s1 (heap_array ?heap) xs')
      \<and> mset xs' = mset (cells s1 (heap_array ?heap))
      \<and> sorted_wrt (at_least (\<not> max_heap ?heap)) xs'"
      by (rule heapsort_loop_spec) (use h(2) len1 hp in simp_all)
    then obtain xs' where l: "heapsort_loop s1 ?heap = (Inr (), put s1 r xs')"
      "mset xs' = mset xs1" "sorted_wrt (at_least (\<not> ascending)) xs'"
      using h(2) by auto
    have ms: "mset xs' = mset ?xs" using l(2) h(3) by simp
    from sorted_by_at_least[OF l(3) ms]
    have res: "xs' = (if ascending then sort ?xs else rev (sort ?xs))" by simp
    have hs: "heapsort s r ascending = (Inr (), put s1 r xs')"
      using h(1) l(1) by (simp add: heapsort_def)
    then have "bin_heapsort s r ascending = (Inr (), put s1 r xs')"
      by (simp only: bin_heapsort_eq)
    moreover have "length xs' = length ?xs" using ms by (rule mset_eq_length)
    moreover have "\<forall>r'. r' \<noteq> r \<and> r' < next_ref s \<longrightarrow> cells (put s1 r xs') r' = cells s r'"
      using h(4) by auto
    ultimately show ?thesis using hs res ms by (intro exI[of _ "put s1 r xs'"]) simp
  qed
  let ?e = "store_of [1, 5, 64, 64, 12315, 677, - 15, - 1002 :: int]"
  have n: "0 < next_ref ?e" by (simp add: store_of_def)
  have c: "cells ?e 0 = [1, 5, 64, 64, 12315, 677, - 15, - 1002]" by (simp add: store_of_def)
  from general[OF n, of True] have "cells (snd (heapsort ?e 0 True)) 0 = sort (cells ?e 0)"
    by auto
  then have up: "cells (snd (heapsort ?e 0 True)) 0 = [- 1002, - 15, 1, 5, 64, 64, 677, 12315]"
    unfolding c by simp
  from general[OF n, of False] have "cells (snd (heapsort ?e 0 False)) 0 = rev (sort (cells ?e 0))"
    by auto
  then have down: "cells (snd (heapsort ?e 0 False)) 0 = [12315, 677, 64, 64, 5, 1, - 15, - 1002]"
    unfolding c by simp
  from general[OF assms, of ascending] up down show ?thesis by blast
qed

theorem heapsort_sorts_in_place_witness:
  "(0::nat) < next_ref (store_of [3, 1, 2 :: int])
   \<and> (\<exists>s'. heapsort (store_of [3, 1, 2 :: int]) 0 False = (Inr (), s')
          \<and> bin_heapsort (store_of [3, 1, 2 :: int]) 0 False = (Inr (), s')
          \<and> cells s' 0 = [3, 2, 1])
   \<and> cells (snd (heapsort (store_of [1, 5, 64, 64, 12315, 677, - 15, - 1002 :: int]) 0 True)) 0
         = [- 1002, - 15, 1, 5, 64, 64, 677, 12315]"
proof -
  have n: "(0::nat) < next_ref (store_of [3, 1, 2 :: int])" by (simp add: store_of_def)
  note t = heapsort_sorts_in_place[OF n, of False]
  from t have "\<exists>s'. heapsort (store_of [3, 1, 2 :: int]) 0 False = (Inr (), s')
          \<and> bin_heapsort (store_of [3, 1, 2 :: int]) 0 False = (Inr (), s')
          \<and> cells s' 0 = rev (sort (cells (store_of [3, 1, 2 :: int]) 0))"
    by auto
  then have a: "\<exists>s'. heapsort (store_of [3, 1, 2 :: int]) 0 False = (Inr (), s')
          \<and> bin_heapsort (store_of [3, 1, 2 :: int]) 0 False = (Inr (), s')
          \<and> cells s' 0 = [3, 2, 1]"
    by (simp add: store_of_def)
  from t have b: "cells (snd (heapsort (store_of [1, 5, 64, 64, 12315, 677, - 15, - 1002 :: int]) 0 True)) 0
         = [- 1002, - 15, 1, 5, 64, 64, 677, 12315]"
    by blast
  from n a b show ?thesis by blast
qed

text \<open>
  Claim C4, as the specification states it: \<^verbatim>\<open>peek\<close> and \<^verbatim>\<open>pop\<close> fail exactly when
  the heap is empty, and a failing call leaves the heap as it was. \<^verbatim>\<open>pop\<close> also fails
  on a non-empty heap, and after it has changed it: on the max heap \<open>[5, 4, 3, 2, 1]\<close> of
  branching factor 1, called with 3 frames left, it raises \<^verbatim>\<open>RecursionError\<close> from
  \<^verbatim>\<open>__sift_down\<close>, when the root has already been removed; it leaves \<open>[4, 1, 3, 2]\<close>
  and size 4. The same happens at the size of the interpreter's default limit: on the
  max heap of branching factor 1 that the constructor builds from
  \<open>[1199, 1198, \<dots>, 0]\<close>, \<^verbatim>\<open>pop\<close> with 1000 frames left raises \<^verbatim>\<open>RecursionError\<close>
  and leaves a list of 1199 elements and size 1199.
\<close>

theorem pop_fails_on_non_empty_heap:
  "reached False chain_store chain_heap
   \<and> len chain_heap = 5
   \<and> cells chain_store (heap_array chain_heap) = [5, 4, 3, 2, 1]
   \<and> fst (pop_lim 3 chain_store chain_heap) = Inl RecursionError
   \<and> cells (fst (snd (pop_lim 3 chain_store chain_heap))) (heap_array chain_heap) = [4, 1, 3, 2]
   \<and> len (snd (snd (pop_lim 3 chain_store chain_heap))) = 4
   \<and> reached False big_built big_heap
   \<and> len big_heap = 1200
   \<and> length (cells big_built (heap_array big_heap)) = 1200
   \<and> fst (pop_lim 1000 big_built big_heap) = Inl RecursionError
   \<and> length (cells (fst (snd (pop_lim 1000 big_built big_heap))) (heap_array big_heap)) = 1199
   \<and> len (snd (snd (pop_lim 1000 big_built big_heap))) = 1199"
proof -
  have c: "cells chain_store (heap_array chain_heap) = [5, 4, 3, 2, 1]"
    using chain_run(2) by (simp add: chain_heap_def)
  have d: "fst (pop_lim 3 chain_store chain_heap) = Inl RecursionError" by code_simp
  have e: "cells (fst (snd (pop_lim 3 chain_store chain_heap))) (heap_array chain_heap) = [4, 1, 3, 2]"
    by code_simp
  have f: "len (snd (snd (pop_lim 3 chain_store chain_heap))) = 4" by code_simp
  have l: "len chain_heap = 5" by (simp add: chain_heap_def len_def)
  have bl: "len big_heap = 1200" by (simp add: big_heap_def len_def)
  have bc: "length (cells big_built (heap_array big_heap)) = 1200"
    unfolding big_run(2) by (rule big_list_length)
  from chain_reached l c d e f big_run(3) bl bc big_pop show ?thesis by simp
qed

text \<open>
  Claim C4, amended. On a heap object in any state that the public interface can
  produce, with calls that have raised included: \<^verbatim>\<open>peek\<close> (when the call itself can
  be made) fails exactly when the heap is empty, by the \<^verbatim>\<open>IndexError\<close> of
  \<^verbatim>\<open>self.heap_array[0]\<close>, which is the code's empty-container error, and otherwise
  returns the element at index 0; it never writes. \<^verbatim>\<open>pop\<close> on an empty heap fails and
  leaves the store and the object's fields as they were: with the \<^verbatim>\<open>IndexError\<close> when at
  least 2 frames are left, and otherwise with \<^verbatim>\<open>RecursionError\<close> at its first call.
  \<^verbatim>\<open>pop\<close> on a non-empty heap returns the element at index 0 or raises
  \<^verbatim>\<open>RecursionError\<close>, and nothing else; it returns when the frames left are 2 more than
  the heap without its last slot has levels below the root.
\<close>

theorem peek_pop_fail_when_empty_or_RecursionError:
  fixes s :: "('a::linorder) store"
  assumes "reached b s h"
  shows "(len h = 0 \<longrightarrow>
            (0 < frames \<longrightarrow> peek_lim frames s h = Inl IndexError)
          \<and> (2 \<le> frames \<longrightarrow> pop_lim frames s h = (Inl IndexError, s, h))
          \<and> (frames < 2 \<longrightarrow> pop_lim frames s h = (Inl RecursionError, s, h)))
     \<and> (len h \<noteq> 0 \<longrightarrow>
            (0 < frames \<longrightarrow> peek_lim frames s h = Inr (item (cells s (heap_array h)) 0))
          \<and> (fst (pop_lim frames s h) = Inr (item (cells s (heap_array h)) 0)
             \<or> fst (pop_lim frames s h) = Inl RecursionError)
          \<and> (levels (branching_factor h) (last_index h - 1) 0 + 2 \<le> frames
               \<longrightarrow> fst (pop_lim frames s h) = Inr (item (cells s (heap_array h)) 0)))"
proof (intro conjI impI)
  from reached_invariant[OF assms] have fits: "storage_fits s h" by simp
  {
    assume e: "len h = 0"
    have pk: "peek s h = Inl IndexError"
      using fits e by (simp add: peek_def getitem_def norm_index_def storage_fits_def len_def)
    { assume "0 < frames"
      then obtain m where "frames = Suc m" by (cases frames) auto
      with pk show "peek_lim frames s h = Inl IndexError" by simp }
    { assume "2 \<le> frames"
      then obtain k where "frames = Suc (Suc k)" by (cases frames; cases "frames - 1") auto
      with pk show "pop_lim frames s h = (Inl IndexError, s, h)" by simp }
    { assume "frames < 2"
      then have "frames = 0 \<or> frames = Suc 0" by auto
      then show "pop_lim frames s h = (Inl RecursionError, s, h)" by auto }
  }
  {
    assume ne: "len h \<noteq> 0"
    from pop_steps[OF fits ne] have pk: "peek s h = Inr (item (cells s (heap_array h)) 0)"
      by blast
    { assume "0 < frames"
      then obtain m where "frames = Suc m" by (cases frames) auto
      with pk show "peek_lim frames s h = Inr (item (cells s (heap_array h)) 0)" by simp }
    from pop_nonempty[OF fits ne]
    have p: "fst (pop s h) = Inr (item (cells s (heap_array h)) 0)" by auto
    show "fst (pop_lim frames s h) = Inr (item (cells s (heap_array h)) 0)
             \<or> fst (pop_lim frames s h) = Inl RecursionError"
    proof (cases "fst (pop_lim frames s h) = Inl RecursionError")
      case True
      then show ?thesis by simp
    next
      case False
      obtain r s' h' where q: "pop_lim frames s h = (r, s', h')" by (cases "pop_lim frames s h")
      with False have "r \<noteq> Inl RecursionError" by simp
      from pop_lim_agrees[OF q this] p q show ?thesis by simp
    qed
    { assume "levels (branching_factor h) (last_index h - 1) 0 + 2 \<le> frames"
      then have "pop_lim frames s h = pop s h" by (rule pop_lim_eq)
      with p show "fst (pop_lim frames s h) = Inr (item (cells s (heap_array h)) 0)" by simp }
  }
qed

theorem peek_pop_fail_when_empty_or_RecursionError_witness:
  "reached False (snd (the (DHeap_init_lim 1 (store_of ([] :: int list)) None True 2)))
      \<lparr>heap_array = 1, last_index = - 1, max_heap = True, branching_factor = 2\<rparr>
   \<and> len \<lparr>heap_array = 1, last_index = - 1, max_heap = True, branching_factor = 2\<rparr> = 0
   \<and> peek_lim 1 (snd (the (DHeap_init_lim 1 (store_of ([] :: int list)) None True 2)))
        \<lparr>heap_array = 1, last_index = - 1, max_heap = True, branching_factor = 2\<rparr> = Inl IndexError
   \<and> pop_lim 2 (snd (the (DHeap_init_lim 1 (store_of ([] :: int list)) None True 2)))
        \<lparr>heap_array = 1, last_index = - 1, max_heap = True, branching_factor = 2\<rparr>
       = (Inl IndexError, snd (the (DHeap_init_lim 1 (store_of ([] :: int list)) None True 2)),
          \<lparr>heap_array = 1, last_index = - 1, max_heap = True, branching_factor = 2\<rparr>)
   \<and> reached True chain_overflowed (chain_heap\<lparr>last_index := 5\<rparr>)
   \<and> len (chain_heap\<lparr>last_index := 5\<rparr>) = 6
   \<and> peek_lim 1 chain_overflowed (chain_heap\<lparr>last_index := 5\<rparr>) = Inr 5
   \<and> levels (branching_factor (chain_heap\<lparr>last_index := 5\<rparr>))
        (last_index (chain_heap\<lparr>last_index := 5\<rparr>) - 1) 0 + 2 \<le> 6
   \<and> fst (pop_lim 6 chain_overflowed (chain_heap\<lparr>last_index := 5\<rparr>)) = Inr 5"
proof -
  let ?e = "store_of ([] :: int list)"
  let ?he = "\<lparr>heap_array = 1, last_index = - 1, max_heap = True, branching_factor = 2\<rparr>"
  let ?se = "snd (the (DHeap_init_lim 1 ?e None True 2))"
  have "DHeap_init_lim 1 ?e None True 2 = Some (Inr ?he, ?se)"
    by (simp add: DHeap_new_def store_of_def)
  then have re: "reached False ?se ?he" by (rule reached.constructed)
  have le: "len ?he = 0" by (simp add: len_def)
  note te1 = peek_pop_fail_when_empty_or_RecursionError[OF re, of 1]
  note te2 = peek_pop_fail_when_empty_or_RecursionError[OF re, of 2]
  from te1 le have a: "peek_lim 1 ?se ?he = Inl IndexError" by simp
  from te2 le have b: "pop_lim 2 ?se ?he = (Inl IndexError, ?se, ?he)" by simp
  let ?h = "chain_heap\<lparr>last_index := 5\<rparr>"
  have ro: "reached True chain_overflowed ?h"
    by (rule reached.push_overflowed[OF chain_reached chain_run(3)])
  have l: "len ?h = 6" by (simp add: chain_heap_def len_def)
  have c: "cells chain_overflowed (heap_array chain_heap) = [5, 4, 3, 2, 9, 1]"
    using chain_run(4) by (simp add: chain_heap_def)
  have lv: "levels (branching_factor ?h) (last_index ?h - 1) 0 + 2 \<le> 6" by code_simp
  note t1 = peek_pop_fail_when_empty_or_RecursionError[OF ro, of 1]
  note t6 = peek_pop_fail_when_empty_or_RecursionError[OF ro, of 6]
  from t1 l have "peek_lim 1 chain_overflowed ?h = Inr (item (cells chain_overflowed (heap_array ?h)) 0)"
    by simp
  then have d: "peek_lim 1 chain_overflowed ?h = Inr 5" by (simp add: c item_def)
  from t6 l lv have "fst (pop_lim 6 chain_overflowed ?h)
      = Inr (item (cells chain_overflowed (heap_array ?h)) 0)"
    by simp
  then have e: "fst (pop_lim 6 chain_overflowed ?h) = Inr 5" by (simp add: c item_def)
  from re le a b ro l d lv e show ?thesis by simp
qed

text \<open>
  Claim C5, as the specification states it: construction fails with an
  InvalidConfiguration error whenever the branching factor is below 1. The code has no
  such check: with branching factor 0 and no initial contents the constructor returns a
  heap object, and with branching factor \<open>-2\<close> it builds a heap object from the list
  \<open>[1, 2, 3]\<close>.
\<close>

theorem constructor_accepts_branching_factor_below_one:
  "(0::int) < 1
   \<and> map_option fst (DHeap_init (store_of ([] :: int list)) None True 0)
       = Some (Inr \<lparr>heap_array = 1, last_index = - 1, max_heap = True, branching_factor = 0\<rparr>)
   \<and> (- 2::int) < 1
   \<and> map_option fst (DHeap_init (store_of [1, 2, 3 :: int]) (Some 0) True (- 2))
       = Some (Inr \<lparr>heap_array = 1, last_index = 2, max_heap = True, branching_factor = - 2\<rparr>)"
  by code_simp

text \<open>
  Claim C5, amended. The constructor does not check the branching factor and never fails
  with an InvalidConfiguration error: with no initial contents it returns an empty heap
  object that carries the given branching factor, whatever its value, values below 1
  included. With branching factor 0 and a non-empty initial list it fails with the
  \<^verbatim>\<open>ZeroDivisionError\<close> that the first \<^verbatim>\<open>push\<close> raises.
\<close>

theorem constructor_does_not_check_branching_factor:
  fixes s :: "('a::linorder) store"
  shows "DHeap_init s None mh bf
       = Some (Inr \<lparr>heap_array = next_ref s, last_index = - 1, max_heap = mh, branching_factor = bf\<rparr>,
               s\<lparr>cells := (cells s)(next_ref s := []), next_ref := Suc (next_ref s)\<rparr>)
     \<and> (src < next_ref s \<and> cells s src \<noteq> []
          \<longrightarrow> map_option fst (DHeap_init s (Some src) mh 0) = Some (Inl ZeroDivisionError))"
proof (intro conjI impI)
  show "DHeap_init s None mh bf
       = Some (Inr \<lparr>heap_array = next_ref s, last_index = - 1, max_heap = mh, branching_factor = bf\<rparr>,
               s\<lparr>cells := (cells s)(next_ref s := []), next_ref := Suc (next_ref s)\<rparr>)"
    by (simp add: DHeap_init_def DHeap_new_def)
next
  assume a: "src < next_ref s \<and> cells s src \<noteq> []"
  let ?s0 = "s\<lparr>cells := (cells s)(next_ref s := []), next_ref := Suc (next_ref s)\<rparr>"
  let ?h0 = "\<lparr>heap_array = next_ref s, last_index = - 1, max_heap = mh, branching_factor = 0\<rparr>"
  have c: "cells ?s0 src = cells s src" using a by simp
  have "\<exists>s1. push ?s0 ?h0 (cells ?s0 src ! 0) = Some (Inl ZeroDivisionError, s1)"
    by (simp add: push_def Let_def sift_up.simps)
  then obtain s1 where
    "push ?s0 ?h0 (cells ?s0 src ! 0) = Some (Inl ZeroDivisionError, s1)" by blast
  moreover have "0 < length (cells ?s0 src)" using a c by simp
  ultimately have "\<exists>s1 h1. init_loop ?s0 ?h0 src 0 = Some (Inl ZeroDivisionError, s1, h1)"
    by (subst init_loop.simps) (simp split: prod.splits)
  then show "map_option fst (DHeap_init s (Some src) mh 0) = Some (Inl ZeroDivisionError)"
    by (auto simp: DHeap_init_def DHeap_new_def)
qed

theorem constructor_does_not_check_branching_factor_witness:
  "DHeap_init (store_of [7 :: int]) None False (- 3)
       = Some (Inr \<lparr>heap_array = 1, last_index = - 1, max_heap = False, branching_factor = - 3\<rparr>,
               (store_of [7 :: int])\<lparr>cells := (cells (store_of [7 :: int]))(1 := []), next_ref := 2\<rparr>)
   \<and> (0::nat) < next_ref (store_of [7 :: int]) \<and> cells (store_of [7 :: int]) 0 \<noteq> []
   \<and> map_option fst (DHeap_init (store_of [7 :: int]) (Some 0) False 0) = Some (Inl ZeroDivisionError)"
  using constructor_does_not_check_branching_factor[of "store_of [7 :: int]" False "- 3" 0]
  by (simp add: store_of_def)

text \<open>
  Claim C6. \<^verbatim>\<open>validate_heap\<close> looks at the children of \<^verbatim>\<open>parent\<close> in index order
  and returns at the first one that exists: \<open>False\<close> when that child beats its parent,
  and otherwise the result of validating that child alone. On a heap whose list holds its
  \<^verbatim>\<open>last_index + 1\<close> elements, with branching factor at least 1 and from a
  non-negative \<^verbatim>\<open>parent\<close>, that child is the first child \<open>parent * d + 1\<close>, so only
  the path through the first children is checked; \<^verbatim>\<open>validate_heap\<close> of
  \<^verbatim>\<open>BinaryHeap\<close> does the same with \<open>parent * 2 + 1\<close>. The max heap \<open>[5, 3, 9]\<close> of
  branching factor 2 breaks the heap property at the second child of the root (9 above 5
  fails), and \<^verbatim>\<open>validate_heap(0)\<close> of either class returns \<open>True\<close> on it.
\<close>

theorem validate_heap_follows_first_child_only:
  fixes s :: "('a::linorder) store"
  shows "(1 \<le> branching_factor h \<and> 0 \<le> parent
        \<and> last_index h < int (length (cells s (heap_array h)))
      \<longrightarrow> validate_heap s h parent =
          (if parent * branching_factor h + 1 \<le> last_index h then
             (if better (max_heap h) (item (cells s (heap_array h)) (parent * branching_factor h + 1))
                   (item (cells s (heap_array h)) parent)
              then Some (Inr False)
              else validate_heap s h (parent * branching_factor h + 1))
           else Some (Inr True)))
    \<and> (0 \<le> parent \<and> bin_last_index b < int (length (cells s (bin_heap_array b)))
      \<longrightarrow> bin_validate_heap s b parent =
          (if parent * 2 + 1 \<le> bin_last_index b then
             (if better (bin_max_heap b) (item (cells s (bin_heap_array b)) (parent * 2 + 1))
                   (item (cells s (bin_heap_array b)) parent)
              then Some (Inr False)
              else bin_validate_heap s b (parent * 2 + 1))
           else Some (Inr True)))
    \<and> storage_fits (store_of [5, 3, 9 :: int]) gap_heap
    \<and> \<not> at_least (max_heap gap_heap) (item (cells (store_of [5, 3, 9 :: int]) (heap_array gap_heap)) 0)
          (item (cells (store_of [5, 3, 9 :: int]) (heap_array gap_heap)) (0 * branching_factor gap_heap + 1 + 1))
    \<and> \<not> heap_property (store_of [5, 3, 9 :: int]) gap_heap
    \<and> validate_heap (store_of [5, 3, 9 :: int]) gap_heap 0 = Some (Inr True)
    \<and> bin_validate_heap (store_of [5, 3, 9 :: int]) bin_gap_heap 0 = Some (Inr True)"
proof (intro conjI impI)
  assume "1 \<le> branching_factor h \<and> 0 \<le> parent
        \<and> last_index h < int (length (cells s (heap_array h)))"
  then show "validate_heap s h parent =
          (if parent * branching_factor h + 1 \<le> last_index h then
             (if better (max_heap h) (item (cells s (heap_array h)) (parent * branching_factor h + 1))
                   (item (cells s (heap_array h)) parent)
              then Some (Inr False)
              else validate_heap s h (parent * branching_factor h + 1))
           else Some (Inr True))"
    by (intro validate_heap_unfold) auto
next
  assume a: "0 \<le> parent \<and> bin_last_index b < int (length (cells s (bin_heap_array b)))"
  have "validate_heap s (to_DHeap b) parent =
     (if parent * branching_factor (to_DHeap b) + 1 \<le> last_index (to_DHeap b) then
        (if better (max_heap (to_DHeap b))
              (item (cells s (heap_array (to_DHeap b))) (parent * branching_factor (to_DHeap b) + 1))
              (item (cells s (heap_array (to_DHeap b))) parent)
         then Some (Inr False)
         else validate_heap s (to_DHeap b) (parent * branching_factor (to_DHeap b) + 1))
      else Some (Inr True))"
    by (intro validate_heap_unfold) (use a in auto)
  then show "bin_validate_heap s b parent =
          (if parent * 2 + 1 \<le> bin_last_index b then
             (if better (bin_max_heap b) (item (cells s (bin_heap_array b)) (parent * 2 + 1))
                   (item (cells s (bin_heap_array b)) parent)
              then Some (Inr False)
              else bin_validate_heap s b (parent * 2 + 1))
           else Some (Inr True))"
    by (simp add: bin_validate_heap_eq)
next
  show "bin_validate_heap (store_of [5, 3, 9 :: int]) bin_gap_heap 0 = Some (Inr True)"
    by (simp add: bin_validate_heap_eq to_DHeap_bin_gap_heap gap_validates)
qed (simp_all add: gap_validates gap_violates,
     simp_all add: storage_fits_def store_of_def gap_heap_def at_least_def item_def)

theorem validate_heap_follows_first_child_only_witness:
  "1 \<le> branching_factor gap_heap \<and> (0::int) \<le> 0
     \<and> last_index gap_heap < int (length (cells (store_of [5, 3, 9 :: int]) (heap_array gap_heap)))
     \<and> validate_heap (store_of [5, 3, 9 :: int]) gap_heap 0
         = validate_heap (store_of [5, 3, 9 :: int]) gap_heap 1
     \<and> validate_heap (store_of [5, 3, 9 :: int]) gap_heap 1 = Some (Inr True)
     \<and> bin_last_index bin_gap_heap
         < int (length (cells (store_of [5, 3, 9 :: int]) (bin_heap_array bin_gap_heap)))
     \<and> bin_validate_heap (store_of [5, 3, 9 :: int]) bin_gap_heap 0
         = bin_validate_heap (store_of [5, 3, 9 :: int]) bin_gap_heap 1
     \<and> bin_validate_heap (store_of [5, 3, 9 :: int]) bin_gap_heap 1 = Some (Inr True)
     \<and> \<not> heap_property (store_of [5, 3, 9 :: int]) gap_heap"
  using validate_heap_follows_first_child_only[of gap_heap 0 "store_of [5, 3, 9 :: int]" bin_gap_heap]
        validate_heap_follows_first_child_only[of gap_heap 1 "store_of [5, 3, 9 :: int]" bin_gap_heap]
  by (simp add: gap_heap_def bin_gap_heap_def store_of_def better_def item_def)

text \<open>
  Claim C7. At a position \<^verbatim>\<open>index\<close> of the live heap, the loop of \<^verbatim>\<open>__sift_down\<close>
  ends with \<^verbatim>\<open>new_parent\<close> being \<^verbatim>\<open>index\<close> itself or one of its children within
  \<^verbatim>\<open>last_index\<close>; its element is at least as extreme as the element at \<^verbatim>\<open>index\<close>
  and as that of every child within \<^verbatim>\<open>last_index\<close>; every child to the left of it is
  strictly less extreme, so among equally extreme children the leftmost is taken; and it
  differs from \<^verbatim>\<open>index\<close> only when its element strictly beats the element at
  \<^verbatim>\<open>index\<close>. Only in that case are the two swapped, and the sifting goes on from the
  child's position; otherwise \<^verbatim>\<open>__sift_down\<close> returns and nothing has changed.
\<close>

theorem sift_down_selects_leftmost_most_extreme:
  fixes s :: "('a::linorder) store"
  assumes "0 \<le> index" "index \<le> last_index h"
    and "last_index h < int (length (cells s (heap_array h)))"
  shows "\<exists>np. sift_down_loop s h index 1 index = Inr np
      \<and> (np = index \<or> (\<exists>j. 1 \<le> j \<and> j \<le> branching_factor h
              \<and> np = index * branching_factor h + j \<and> np \<le> last_index h))
      \<and> at_least (max_heap h) (item (cells s (heap_array h)) np) (item (cells s (heap_array h)) index)
      \<and> (\<forall>j. 1 \<le> j \<and> j \<le> branching_factor h \<and> index * branching_factor h + j \<le> last_index h
            \<longrightarrow> at_least (max_heap h) (item (cells s (heap_array h)) np)
                  (item (cells s (heap_array h)) (index * branching_factor h + j)))
      \<and> (\<forall>j. 1 \<le> j \<and> j \<le> branching_factor h \<and> index * branching_factor h + j < np
            \<longrightarrow> better (max_heap h) (item (cells s (heap_array h)) np)
                  (item (cells s (heap_array h)) (index * branching_factor h + j)))
      \<and> (np \<noteq> index \<longrightarrow>
            better (max_heap h) (item (cells s (heap_array h)) np) (item (cells s (heap_array h)) index))
      \<and> sift_down s h index
          = (if np = index then (Inr (), s)
             else sift_down (put s (heap_array h) (swapped (cells s (heap_array h)) index np)) h np)"
proof (cases "1 \<le> branching_factor h")
  case False
  then have lp: "sift_down_loop s h index 1 index = Inr index"
    by (simp add: sift_down_loop.simps)
  then have "sift_down s h index = (Inr (), s)" by (simp add: sift_down.simps)
  with lp False show ?thesis by (intro exI[of _ index]) (auto simp: at_least_refl)
next
  case d: True
  let ?d = "branching_factor h" and ?mh = "max_heap h" and ?xs = "cells s (heap_array h)"
  from sift_down_loop_spec[of h index 1 s index] d assms
  obtain np where np: "sift_down_loop s h index 1 index = Inr np"
    "0 \<le> np" "np < int (length ?xs)"
    "np = index \<or> (\<exists>j. 1 \<le> j \<and> j \<le> ?d \<and> np = index * ?d + j \<and> np \<le> last_index h)"
    "np \<noteq> index \<longrightarrow> better ?mh (item ?xs np) (item ?xs index)"
    "\<forall>j. 1 \<le> j \<and> j \<le> ?d \<and> index * ?d + j \<le> last_index h
          \<longrightarrow> at_least ?mh (item ?xs np) (item ?xs (index * ?d + j))"
    "np \<noteq> index \<longrightarrow> (\<forall>j. 1 \<le> j \<and> index * ?d + j < np
          \<longrightarrow> better ?mh (item ?xs np) (item ?xs (index * ?d + j)))"
    by auto
  have al: "at_least ?mh (item ?xs np) (item ?xs index)"
    using np(5) by (cases "np = index") (auto simp: at_least_refl better_at_least)
  have left: "\<forall>j. 1 \<le> j \<and> j \<le> ?d \<and> index * ?d + j < np
          \<longrightarrow> better ?mh (item ?xs np) (item ?xs (index * ?d + j))"
  proof (intro allI impI)
    fix j assume j: "1 \<le> j \<and> j \<le> ?d \<and> index * ?d + j < np"
    have "index < index * ?d + j" using d assms(1) j by (intro child_greater) auto
    with j have "np \<noteq> index" by auto
    with np(7) j show "better ?mh (item ?xs np) (item ?xs (index * ?d + j))" by auto
  qed
  have sd: "sift_down s h index
          = (if np = index then (Inr (), s)
             else sift_down (put s (heap_array h) (swapped ?xs index np)) h np)"
  proof (cases "np = index")
    case True
    with np(1) show ?thesis by (simp add: sift_down.simps)
  next
    case False
    have "swap s h index np = (Inr (), put s (heap_array h) (swapped ?xs index np))"
      using assms np by (intro swap_in_range) auto
    with np(1) False show ?thesis by (simp add: sift_down.simps[of s h index])
  qed
  from np(1,4,5,6) al left sd show ?thesis by (intro exI[of _ np]) blast
qed

theorem sift_down_selects_leftmost_most_extreme_witness:
  "(0::int) \<le> 0
   \<and> 0 \<le> last_index \<lparr>heap_array = 0, last_index = 3, max_heap = True, branching_factor = 3\<rparr>
   \<and> last_index \<lparr>heap_array = 0, last_index = 3, max_heap = True, branching_factor = 3\<rparr>
       < int (length (cells (store_of [1, 7, 7, 4 :: int]) 0))
   \<and> sift_down_loop (store_of [1, 7, 7, 4 :: int])
        \<lparr>heap_array = 0, last_index = 3, max_heap = True, branching_factor = 3\<rparr> 0 1 0 = Inr 1
   \<and> cells (snd (sift_down (store_of [1, 7, 7, 4 :: int])
        \<lparr>heap_array = 0, last_index = 3, max_heap = True, branching_factor = 3\<rparr> 0)) 0
       = [7, 1, 7, 4]
   \<and> (\<exists>np. sift_down_loop (store_of [1, 7, 7, 4 :: int])
        \<lparr>heap_array = 0, last_index = 3, max_heap = True, branching_factor = 3\<rparr> 0 1 0 = Inr np
        \<and> better True (item [1, 7, 7, 4 :: int] np) (item [1, 7, 7, 4] 0))"
proof -
  let ?s = "store_of [1, 7, 7, 4 :: int]"
  let ?h = "\<lparr>heap_array = 0, last_index = 3, max_heap = True, branching_factor = 3\<rparr>"
  have a: "sift_down_loop ?s ?h 0 1 0 = Inr 1" by code_simp
  have b: "cells (snd (sift_down ?s ?h 0)) 0 = [7, 1, 7, 4]" by code_simp
  have c: "cells ?s 0 = [1, 7, 7, 4]" by (simp add: store_of_def)
  from sift_down_selects_leftmost_most_extreme[of 0 ?h ?s] a c
  have "\<exists>np. sift_down_loop ?s ?h 0 1 0 = Inr np
        \<and> better True (item [1, 7, 7, 4 :: int] np) (item [1, 7, 7, 4] 0)"
    by auto
  with a b c show ?thesis by simp
qed

text \<open>
  Claim C8. A program run with \<^verbatim>\<open>BinaryHeap\<close> and the same program run with
  \<^verbatim>\<open>DHeap\<close> and branching factor 2 do the same: for every store, every initial
  contents, either ordering and every sequence of calls to \<^verbatim>\<open>push\<close>, \<^verbatim>\<open>pop\<close>,
  \<^verbatim>\<open>peek\<close>, \<^verbatim>\<open>len\<close>, \<^verbatim>\<open>validate_heap\<close>, \<^verbatim>\<open>heapify\<close> and \<^verbatim>\<open>heapsort\<close>, either
  neither program returns, or both constructors raise the same exception and leave the
  same store, or both programs end with the same observed values and exceptions, call by call, the same
  store, and heap objects with the same fields (the \<^verbatim>\<open>DHeap\<close> one with
  \<^verbatim>\<open>branching_factor\<close> 2 besides).
\<close>

theorem BinaryHeap_is_DHeap_with_branching_factor_2:
  fixes s :: "('a::linorder) store"
  shows "DHeap_program s initial_contents mh cs
       = map_option (map_sum id as_DHeap) (BinaryHeap_program s initial_contents mh cs)"
proof (cases "BinaryHeap_init s initial_contents mh")
  case None
  then show ?thesis
    by (simp add: DHeap_program_def BinaryHeap_program_def BinaryHeap_init_eq)
next
  case (Some y)
  obtain r1 s1 where y: "y = (r1, s1)" by (cases y)
  show ?thesis
  proof (cases r1)
    case (Inl e)
    with Some y show ?thesis
      by (simp add: DHeap_program_def BinaryHeap_program_def BinaryHeap_init_eq)
  next
    case (Inr b)
    with Some y show ?thesis
      by (cases "BinaryHeap_calls s1 b cs")
         (simp_all add: DHeap_program_def BinaryHeap_program_def BinaryHeap_init_eq
            BinaryHeap_calls_eq)
  qed
qed

theorem BinaryHeap_is_DHeap_with_branching_factor_2_witness:
  "map_option (map_sum fst (\<lambda>(obs, s', h). (obs, cells s' 0, cells s' 1, h)))
     (DHeap_program (store_of [1, 1, 5, 10, - 23, 105 :: int]) (Some 0) True
        [Peek, Push 1000, Peek, Pop, Len, Validate_heap 0, Heapsort 0 True, Heapify 0 False, Pop])
   = Some (Inr ([Returned 105, Returned_None, Returned 1000, Returned 1000, Returned_int 6,
                 Returned_bool True, Returned_None, Returned_None, Returned (- 23)],
                [1, 5, 1, 105, 10], [105, 5, 10, 1, - 23, 1],
                \<lparr>heap_array = 0, last_index = 4, max_heap = False, branching_factor = 2\<rparr>))
   \<and> map_option (map_sum fst (\<lambda>(obs, s', h). (obs, cells s' 0, cells s' 1, h)))
     (BinaryHeap_program (store_of [1, 1, 5, 10, - 23, 105 :: int]) (Some 0) True
        [Peek, Push 1000, Peek, Pop, Len, Validate_heap 0, Heapsort 0 True, Heapify 0 False, Pop])
   = Some (Inr ([Returned 105, Returned_None, Returned 1000, Returned 1000, Returned_int 6,
                 Returned_bool True, Returned_None, Returned_None, Returned (- 23)],
                [1, 5, 1, 105, 10], [105, 5, 10, 1, - 23, 1],
                \<lparr>bin_heap_array = 0, bin_last_index = 4, bin_max_heap = False\<rparr>))"
proof -
  let ?s = "store_of [1, 1, 5, 10, - 23, 105 :: int]"
  let ?cs = "[Peek, Push 1000, Peek, Pop, Len, Validate_heap 0, Heapsort 0 True, Heapify 0 False, Pop]"
  have b: "map_option (map_sum fst (\<lambda>(obs, s', h). (obs, cells s' 0, cells s' 1, h)))
     (BinaryHeap_program ?s (Some 0) True ?cs)
   = Some (Inr ([Returned 105, Returned_None, Returned 1000, Returned 1000, Returned_int 6,
                 Returned_bool True, Returned_None, Returned_None, Returned (- 23)],
                [1, 5, 1, 105, 10], [105, 5, 10, 1, - 23, 1],
                \<lparr>bin_heap_array = 0, bin_last_index = 4, bin_max_heap = False\<rparr>))"
    by code_simp
  then obtain obs s' h where r: "BinaryHeap_program ?s (Some 0) True ?cs = Some (Inr (obs, s', h))"
    "obs = [Returned 105, Returned_None, Returned 1000, Returned 1000, Returned_int 6,
                 Returned_bool True, Returned_None, Returned_None, Returned (- 23)]"
    "cells s' 0 = [1, 5, 1, 105, 10]" "cells s' 1 = [105, 5, 10, 1, - 23, 1]"
    "h = \<lparr>bin_heap_array = 0, bin_last_index = 4, bin_max_heap = False\<rparr>"
    by (cases "BinaryHeap_program ?s (Some 0) True ?cs") (auto simp: map_sum_def split: sum.splits)
  from BinaryHeap_is_DHeap_with_branching_factor_2[of ?s "Some 0" True ?cs] r
  have "DHeap_program ?s (Some 0) True ?cs = Some (Inr (obs, s', to_DHeap h))" by simp
  with r(2-5) have "map_option (map_sum fst (\<lambda>(obs, s', h). (obs, cells s' 0, cells s' 1, h)))
     (DHeap_program ?s (Some 0) True ?cs)
   = Some (Inr ([Returned 105, Returned_None, Returned 1000, Returned 1000, Returned_int 6,
                 Returned_bool True, Returned_None, Returned_None, Returned (- 23)],
                [1, 5, 1, 105, 10], [105, 5, 10, 1, - 23, 1],
                \<lparr>heap_array = 0, last_index = 4, max_heap = False, branching_factor = 2\<rparr>))"
    by (simp add: to_DHeap_def)
  with b show ?thesis by blast
qed

text \<open>
  Claim C9, as the specification states it: for every input list the constructor leaves
  the caller's list as it was and the resulting heap is a valid heap over the same
  multiset. The constructor pushes the elements one at a time and each \<^verbatim>\<open>push\<close> sifts
  by recursion, so the constructor raises \<^verbatim>\<open>RecursionError\<close>, and no heap results,
  when a \<^verbatim>\<open>push\<close> runs into the interpreter's recursion limit: here for the list
  \<open>[1, 2, 3]\<close>, a max heap and branching factor 1, with 4 frames left, where the caller's
  list is unchanged all the same; and for the list \<open>[0, 1, \<dots>, 1199]\<close>, a max heap and
  branching factor 1, with 1000 frames left.
\<close>

theorem constructor_raises_RecursionError:
  "map_option fst (DHeap_init_lim 4 (store_of [1, 2, 3 :: int]) (Some 0) True 1)
     = Some (Inl RecursionError)
   \<and> cells (snd (the (DHeap_init_lim 4 (store_of [1, 2, 3 :: int]) (Some 0) True 1))) 0 = [1, 2, 3]
   \<and> cells (snd (the (DHeap_init_lim 4 (store_of [1, 2, 3 :: int]) (Some 0) True 1))) 1 = [2, 3, 1]
   \<and> map_option fst (DHeap_init_lim 1000 (store_of (map int [0..<1200])) (Some 0) True 1)
     = Some (Inl RecursionError)"
proof -
  have small: "map_option fst (DHeap_init_lim 4 (store_of [1, 2, 3 :: int]) (Some 0) True 1)
     = Some (Inl RecursionError)
   \<and> cells (snd (the (DHeap_init_lim 4 (store_of [1, 2, 3 :: int]) (Some 0) True 1))) 0 = [1, 2, 3]
   \<and> cells (snd (the (DHeap_init_lim 4 (store_of [1, 2, 3 :: int]) (Some 0) True 1))) 1 = [2, 3, 1]"
    by code_simp
  from small big_constructor show ?thesis by blast
qed

text \<open>
  Claim C9, amended. The constructor called with a list of the caller's creates a new,
  empty list object for the heap and pushes the elements of the caller's list into it one
  at a time, in order, until a \<^verbatim>\<open>push\<close> raises. It always ends, and whether it returns
  or raises, the caller's list is afterwards what it was before. When it returns a heap,
  the heap's list is not the caller's list, it is as long as the heap is large, it
  satisfies the heap property, and it holds the same multiset of elements as the caller's
  list. It returns a heap when the branching factor is at least 1 and the frames left are
  3 more than the last slot of the heap to be built has ancestors.
\<close>

theorem constructor_copies_initial_contents_unless_RecursionError:
  fixes s :: "('a::linorder) store"
  assumes "src < next_ref s"
  shows "DHeap_init_lim (Suc frames) s (Some src) mh bf
        = Some (case push_all_lim frames (fst (DHeap_new s mh bf)) (snd (DHeap_new s mh bf))
                       (cells s src) of
                  (Inl e, s1, h1) \<Rightarrow> (Inl e, s1)
                | (Inr u, s1, h1) \<Rightarrow> (Inr h1, s1))
     \<and> heap_array (snd (DHeap_new s mh bf)) = next_ref s
     \<and> cells (fst (DHeap_new s mh bf)) (next_ref s) = []
     \<and> (\<exists>res s'. DHeap_init_lim frames s (Some src) mh bf = Some (res, s')
          \<and> cells s' src = cells s src
          \<and> (\<forall>h. res = Inr h
                 \<longrightarrow> heap_array h \<noteq> src \<and> storage_fits s' h \<and> heap_property s' h
                   \<and> mset (cells s' (heap_array h)) = mset (cells s src)))
     \<and> (1 \<le> bf \<and> depth bf (int (length (cells s src)) - 1) + 3 \<le> frames
          \<longrightarrow> (\<exists>h s'. DHeap_init_lim frames s (Some src) mh bf = Some (Inr h, s')))"
proof (intro conjI impI)
  let ?s0 = "fst (DHeap_new s mh bf)" and ?h0 = "snd (DHeap_new s mh bf)"
  have new: "DHeap_new s mh bf = (?s0, ?h0)" by simp
  from DHeap_new_valid[OF new] have n:
    "storage_fits ?s0 ?h0" "heap_array ?h0 = next_ref s" "cells ?s0 (heap_array ?h0) = []"
    "branching_factor ?h0 = bf" "\<forall>r. r \<noteq> next_ref s \<longrightarrow> cells ?s0 r = cells s r"
    "last_index ?h0 = - 1"
    by auto
  have ne: "src \<noteq> heap_array ?h0" using assms n(2) by simp
  have c0: "cells ?s0 src = cells s src" using n(5) assms by simp
  show "heap_array ?h0 = next_ref s" by (rule n(2))
  show "cells ?s0 (next_ref s) = []" using n(2,3) by simp
  show "DHeap_init_lim (Suc frames) s (Some src) mh bf
        = Some (case push_all_lim frames ?s0 ?h0 (cells s src) of
                  (Inl e, s1, h1) \<Rightarrow> (Inl e, s1)
                | (Inr u, s1, h1) \<Rightarrow> (Inr h1, s1))"
    by (rule DHeap_init_lim_from[OF assms])
  show "\<exists>res s'. DHeap_init_lim frames s (Some src) mh bf = Some (res, s')
          \<and> cells s' src = cells s src
          \<and> (\<forall>h. res = Inr h
                 \<longrightarrow> heap_array h \<noteq> src \<and> storage_fits s' h \<and> heap_property s' h
                   \<and> mset (cells s' (heap_array h)) = mset (cells s src))"
  proof (cases frames)
    case 0
    then show ?thesis by simp
  next
    case (Suc m)
    obtain r1 s1 h1 where pa: "push_all_lim m ?s0 ?h0 (cells s src) = (r1, s1, h1)"
      by (cases "push_all_lim m ?s0 ?h0 (cells s src)")
    define res where "res = (case r1 of Inl e \<Rightarrow> Inl e | Inr u \<Rightarrow> Inr h1)"
    have ret: "DHeap_init_lim frames s (Some src) mh bf = Some (res, s1)"
      unfolding Suc DHeap_init_lim_from[OF assms] pa res_def by (cases r1) simp_all
    from push_all_lim_frame[OF pa] ne c0 have unch: "cells s1 src = cells s src" by simp
    have "\<forall>h. res = Inr h
                 \<longrightarrow> heap_array h \<noteq> src \<and> storage_fits s1 h \<and> heap_property s1 h
                   \<and> mset (cells s1 (heap_array h)) = mset (cells s src)"
    proof (intro allI impI)
      fix h assume h: "res = Inr h"
      with ret have "DHeap_init_lim frames s (Some src) mh bf = Some (Inr h, s1)" by simp
      then have "DHeap_init s (Some src) mh bf = Some (Inr h, s1)"
        using assms by (intro DHeap_init_lim_agrees[of frames]) auto
      from DHeap_init_from_post[OF assms this] assms
      show "heap_array h \<noteq> src \<and> storage_fits s1 h \<and> heap_property s1 h
                   \<and> mset (cells s1 (heap_array h)) = mset (cells s src)"
        by auto
    qed
    with ret unch show ?thesis by blast
  qed
  {
    assume a: "1 \<le> bf \<and> depth bf (int (length (cells s src)) - 1) + 3 \<le> frames"
    then obtain m where m: "frames = Suc m" by (cases frames) auto
    obtain r1 s1 h1 where pa: "push_all_lim m ?s0 ?h0 (cells s src) = (r1, s1, h1)"
      by (cases "push_all_lim m ?s0 ?h0 (cells s src)")
    have d: "1 \<le> branching_factor ?h0" using a n(4) by simp
    have "last_index ?h0 + int (length (cells s src)) = int (length (cells s src)) - 1"
      using n(6) by simp
    with a m n(4) have "depth (branching_factor ?h0)
        (last_index ?h0 + int (length (cells s src))) + 2 \<le> m"
      by simp
    from push_all_lim_enough[OF d this, of ?s0] pa have "r1 \<noteq> Inl RecursionError" by simp
    from push_all_lim_agrees[OF pa this]
    have il: "init_loop ?s0 ?h0 src 0 = Some (r1, s1, h1)"
      using init_loop_is_push_all[OF ne, of ?s0 0] c0 by simp
    from init_loop_returns[OF d n(1) ne, of 0] il have "r1 = Inr ()" by auto
    with pa have "DHeap_init_lim frames s (Some src) mh bf = Some (Inr h1, s1)"
      unfolding m DHeap_init_lim_from[OF assms] by simp
    then show "\<exists>h s'. DHeap_init_lim frames s (Some src) mh bf = Some (Inr h, s')" by blast
  }
qed

theorem constructor_copies_initial_contents_unless_RecursionError_witness:
  "(0::nat) < next_ref (store_of [1, 1, 5, 10, - 23, 105 :: int])
   \<and> 1 \<le> (2::int)
   \<and> depth 2 (int (length (cells (store_of [1, 1, 5, 10, - 23, 105 :: int]) 0)) - 1) + 3 \<le> 9
   \<and> DHeap_init_lim 9 (store_of [1, 1, 5, 10, - 23, 105 :: int]) (Some 0) True 2
       = Some (Inr run_heap, run_built)
   \<and> cells run_built 0 = [1, 1, 5, 10, - 23, 105]
   \<and> cells run_built (heap_array run_heap) = [105, 5, 10, 1, - 23, 1]
   \<and> heap_array run_heap \<noteq> 0
   \<and> heap_property run_built run_heap"
proof -
  let ?s = "store_of [1, 1, 5, 10, - 23, 105 :: int]"
  have n: "(0::nat) < next_ref ?s" by (simp add: store_of_def)
  have dp: "depth 2 (int (length (cells ?s 0)) - 1) + 3 \<le> 9" by code_simp
  have c1: "cells run_built (heap_array run_heap) = [105, 5, 10, 1, - 23, 1]"
    using run_steps(2) by (simp add: run_heap_def)
  note t = constructor_copies_initial_contents_unless_RecursionError[OF n, of 9 True 2]
  from t obtain res s' where r: "DHeap_init_lim 9 ?s (Some 0) True 2 = Some (res, s')"
    "cells s' 0 = cells ?s 0"
    "\<forall>h. res = Inr h \<longrightarrow> heap_array h \<noteq> 0 \<and> storage_fits s' h \<and> heap_property s' h
          \<and> mset (cells s' (heap_array h)) = mset (cells ?s 0)"
    by blast
  from r(1) run_steps(1) have e: "res = Inr run_heap" "s' = run_built" by simp_all
  from r(2) e have c0: "cells run_built 0 = [1, 1, 5, 10, - 23, 105]" by (simp add: store_of_def)
  from r(3) e have "heap_array run_heap \<noteq> 0" "heap_property run_built run_heap" by simp_all
  with n dp run_steps(1) c0 c1 show ?thesis by simp
qed

text \<open>
  Claim C10. In every state of a heap object that the public interface can produce (after
  a constructor or \<^verbatim>\<open>heapify\<close>, and after every \<^verbatim>\<open>push\<close> and \<^verbatim>\<open>pop\<close>; \<^verbatim>\<open>peek\<close>
  changes nothing), the list \<^verbatim>\<open>heap_array\<close> is exactly \<^verbatim>\<open>last_index + 1\<close> long.
  In particular a \<^verbatim>\<open>pop\<close> that returns a value leaves a list that is one element
  shorter: the vacated last slot is removed from the list, not kept as spare capacity.
\<close>

theorem storage_length_is_size:
  fixes s :: "('a::linorder) store"
  assumes "reachable s h"
  shows "int (length (cells s (heap_array h))) = last_index h + 1
     \<and> (\<forall>v s' h'. pop s h = (Inr v, s', h')
          \<longrightarrow> heap_array h' = heap_array h
            \<and> Suc (length (cells s' (heap_array h'))) = length (cells s (heap_array h))
            \<and> int (length (cells s' (heap_array h'))) = last_index h' + 1)"
proof (intro conjI allI impI)
  from reachable_invariant[OF assms] have fits: "storage_fits s h" by simp
  then show "int (length (cells s (heap_array h))) = last_index h + 1"
    by (simp add: storage_fits_def)
  fix v s' h' assume p: "pop s h = (Inr v, s', h')"
  have ne: "len h \<noteq> 0" using pop_empty[OF fits] p by auto
  from pop_nonempty[OF fits ne] p obtain xs' where
    x: "s' = put s (heap_array h) xs'" "h' = h\<lparr>last_index := last_index h - 1\<rparr>"
    "add_mset (item (cells s (heap_array h)) 0) (mset xs') = mset (cells s (heap_array h))"
    by auto
  from x(3) have l: "Suc (length xs') = length (cells s (heap_array h))"
    by (metis size_add_mset size_mset)
  show "heap_array h' = heap_array h" using x by simp
  show "Suc (length (cells s' (heap_array h'))) = length (cells s (heap_array h))"
    using x l by simp
  show "int (length (cells s' (heap_array h'))) = last_index h' + 1"
    using pop_storage_fits[OF p fits] by (simp add: storage_fits_def)
qed

theorem storage_length_is_size_witness:
  "reachable (snd (heapify (store_of [1, 0, 5 :: int]) 0 True 2))
      \<lparr>heap_array = 0, last_index = 2, max_heap = True, branching_factor = 2\<rparr>
   \<and> int (length (cells (snd (heapify (store_of [1, 0, 5 :: int]) 0 True 2)) 0)) = 2 + 1
   \<and> fst (pop (snd (heapify (store_of [1, 0, 5 :: int]) 0 True 2))
        \<lparr>heap_array = 0, last_index = 2, max_heap = True, branching_factor = 2\<rparr>) = Inr 5
   \<and> Suc (length (cells (fst (snd (pop (snd (heapify (store_of [1, 0, 5 :: int]) 0 True 2))
        \<lparr>heap_array = 0, last_index = 2, max_heap = True, branching_factor = 2\<rparr>))) 0))
       = length (cells (snd (heapify (store_of [1, 0, 5 :: int]) 0 True 2)) 0)"
proof -
  let ?s = "store_of [1, 0, 5 :: int]"
  let ?h = "\<lparr>heap_array = 0, last_index = 2, max_heap = True, branching_factor = 2\<rparr>"
  let ?s1 = "snd (heapify ?s 0 True 2)"
  have f: "fst (heapify ?s 0 True 2) = Inr ?h" by code_simp
  have "heapify ?s 0 True 2 = (Inr ?h, ?s1)" using f by (metis prod.collapse)
  then have r: "reachable ?s1 ?h"
    by (rule reachable.by_heapify[rotated]) (simp add: store_of_def)
  have p: "fst (pop ?s1 ?h) = Inr 5" by code_simp
  have h': "snd (snd (pop ?s1 ?h)) = ?h\<lparr>last_index := 1\<rparr>" by code_simp
  have pe: "pop ?s1 ?h = (Inr 5, fst (snd (pop ?s1 ?h)), ?h\<lparr>last_index := 1\<rparr>)"
    using p h' by (metis prod.collapse)
  note t = storage_length_is_size[OF r]
  from t have a: "int (length (cells ?s1 0)) = 2 + 1" by simp
  from t have "pop ?s1 ?h = (Inr 5, fst (snd (pop ?s1 ?h)), ?h\<lparr>last_index := 1\<rparr>)
     \<longrightarrow> Suc (length (cells (fst (snd (pop ?s1 ?h))) (heap_array (?h\<lparr>last_index := 1\<rparr>))))
         = length (cells ?s1 (heap_array ?h))"
    by blast
  with pe have b: "Suc (length (cells (fst (snd (pop ?s1 ?h))) 0)) = length (cells ?s1 0)"
    by simp
  from r a p b show ?thesis by simp
qed

end
